(* ===== verification/Prelude.thy ===== *)
theory Prelude
  imports Main "HOL-Library.Word" "HOL-Library.Multiset" "HOL-Library.AList"
begin

section \<open>Prelude: machine integers, panics and execution\<close>

text \<open>
  What every component of the model shares: the machine integer types with Rust's
  saturating operations, the outcome of a piece of code that may panic, the state-passing
  type \<open>exec\<close> in which the stateful methods are written, and generic lemmas on lists.
  An operation that panics still leaves a state behind, because the poisoned mutex of the
  source hands exactly that state to the next caller.
\<close>

named_theorems exec_defs "definitions of the execution combinators"
named_theorems sat_simps "saturating machine arithmetic as arithmetic on natural numbers"

subsection \<open>Machine integers\<close>

type_synonym u8 = "8 word"
type_synonym u64 = "64 word"
type_synonym usize = "64 word"

definition sat_add :: "'a::len word \<Rightarrow> 'a word \<Rightarrow> 'a word" where
  "sat_add a b = (if unat a + unat b < 2 ^ LENGTH('a) then a + b else - 1)"

definition sat_sub :: "'a::len word \<Rightarrow> 'a word \<Rightarrow> 'a word" where
  "sat_sub a b = (if b \<le> a then a - b else 0)"

definition sat_mul :: "'a::len word \<Rightarrow> 'a word \<Rightarrow> 'a word" where
  "sat_mul a b = (if unat a * unat b < 2 ^ LENGTH('a) then a * b else - 1)"

lemma unat_max: "unat (- 1 :: 'a::len word) = 2 ^ LENGTH('a) - 1"
  by transfer (simp add: take_bit_minus_one_eq_mask mask_eq_exp_minus_1 nat_diff_distrib nat_power_eq)

lemma unat_bounds: "unat (x :: u64) < 2 ^ 64" "unat (b :: u8) \<le> 255"
proof -
  have "unat x < 2 ^ LENGTH(64)" "unat b < 2 ^ LENGTH(8)" by (rule unsigned_less)+
  then show "unat x < 2 ^ 64" "unat b \<le> 255" by simp_all
qed

lemma unat_two_power: "j < LENGTH('a) \<Longrightarrow> unat (2 ^ j :: 'a::len word) = 2 ^ j"
  by transfer (simp add: take_bit_eq_mod nat_mod_as_int)

lemma unat_sat_add [sat_simps]:
  "unat (sat_add a b :: 'a::len word) = min (unat a + unat b) (2 ^ LENGTH('a) - 1)"
proof (cases "unat a + unat b < 2 ^ LENGTH('a)")
  case True
  then show ?thesis by (auto simp: sat_add_def unat_word_ariths min_def)
next
  case False
  then show ?thesis by (auto simp: sat_add_def unat_max min_def)
qed

lemma unat_sat_sub [sat_simps]: "unat (sat_sub a b) = unat a - unat b"
  by (simp add: sat_sub_def unat_sub word_le_nat_alt)

lemma unat_sat_mul [sat_simps]:
  "unat (sat_mul a b :: 'a::len word) = min (unat a * unat b) (2 ^ LENGTH('a) - 1)"
proof (cases "unat a * unat b < 2 ^ LENGTH('a)")
  case True
  then have "unat a * unat b \<le> 2 ^ LENGTH('a) - 1" by linarith
  with True show ?thesis by (simp add: sat_mul_def unat_word_ariths min_def)
next
  case False
  then have "2 ^ LENGTH('a) - 1 \<le> unat a * unat b" by linarith
  with False show ?thesis by (simp add: sat_mul_def unat_max min_absorb2)
qed

subsection \<open>Outcomes and execution\<close>

text \<open>The ways in which the modelled code can panic; the last one is a panic of a method that the user supplies.\<close>

datatype panic = IndexOutOfBounds | Unreachable | RemainderByZero | UserCode

datatype 'a outcome = Done 'a | Panicked panic

type_synonym ('s, 'a) exec = "'s \<Rightarrow> 'a outcome \<times> 's"

fun panicked :: "'a outcome \<Rightarrow> bool" where
  "panicked (Done a) = False"
| "panicked (Panicked p) = True"

definition ret :: "'a \<Rightarrow> ('s, 'a) exec" where
  [exec_defs]: "ret a = (\<lambda>s. (Done a, s))"

definition panic_with :: "panic \<Rightarrow> ('s, 'a) exec" where
  [exec_defs]: "panic_with p = (\<lambda>s. (Panicked p, s))"

definition bind_exec :: "('s, 'a) exec \<Rightarrow> ('a \<Rightarrow> ('s, 'b) exec) \<Rightarrow> ('s, 'b) exec" where
  [exec_defs]: "bind_exec m f = (\<lambda>s. case m s of
      (Done a, s') \<Rightarrow> f a s'
    | (Panicked p, s') \<Rightarrow> (Panicked p, s'))"

definition gets :: "('s \<Rightarrow> 'a) \<Rightarrow> ('s, 'a) exec" where
  [exec_defs]: "gets f = (\<lambda>s. (Done (f s), s))"

definition modify :: "('s \<Rightarrow> 's) \<Rightarrow> ('s, unit) exec" where
  [exec_defs]: "modify f = (\<lambda>s. (Done (), f s))"

text \<open>\<open>seq_exec\<close> is the semicolon: run the first for its effect only.\<close>

definition seq_exec :: "('s, 'a) exec \<Rightarrow> ('s, 'b) exec \<Rightarrow> ('s, 'b) exec" where
  "seq_exec m n = bind_exec m (\<lambda>_. n)"

lemma bind_exec_Done: "m s = (Done a, s') \<Longrightarrow> bind_exec m f s = f a s'"
  by (simp add: bind_exec_def)

lemma bind_exec_Panicked: "m s = (Panicked p, s') \<Longrightarrow> bind_exec m f s = (Panicked p, s')"
  by (simp add: bind_exec_def)

lemma seq_exec_Done: "m s = (Done a, s') \<Longrightarrow> seq_exec m n s = n s'"
  by (simp add: seq_exec_def bind_exec_Done)

lemma seq_exec_Panicked: "m s = (Panicked p, s') \<Longrightarrow> seq_exec m n s = (Panicked p, s')"
  by (simp add: seq_exec_def bind_exec_Panicked)

lemma bind_exec_simps [simp]:
  "bind_exec (ret a) f s = f a s"
  "bind_exec (gets g) f s = f (g s) s"
  "bind_exec (modify h) k s = k () (h s)"
  "bind_exec (panic_with p) f s = (Panicked p, s)"
  by (simp_all add: exec_defs)

lemma seq_exec_simps [simp]:
  "seq_exec (ret a) n s = n s"
  "seq_exec (modify h) n s = n (h s)"
  "seq_exec (panic_with p) n s = (Panicked p, s)"
  by (simp_all add: seq_exec_def)

lemma exec_atom_simps [simp]:
  "ret a s = (Done a, s)"
  "gets g s = (Done (g s), s)"
  "modify h s = (Done (), h s)"
  "panic_with p s = (Panicked p, s)"
  by (simp_all add: exec_defs)

text \<open>The same definitions applied to a state: evaluation on concrete states goes through these.\<close>

lemma exec_apply:
  "bind_exec m f s = (case m s of (Done a, s') \<Rightarrow> f a s' | (Panicked p, s') \<Rightarrow> (Panicked p, s'))"
  "seq_exec m n s = (case m s of (Done a, s') \<Rightarrow> n s' | (Panicked p, s') \<Rightarrow> (Panicked p, s'))"
  by (simp_all add: seq_exec_def bind_exec_def)

text \<open>
  Total operations on a set of states: the operation panics on none of them, and every
  value and state it produces satisfies \<open>Q\<close>.
\<close>

definition runs_to :: "('s, 'a) exec \<Rightarrow> 's \<Rightarrow> ('a \<Rightarrow> 's \<Rightarrow> bool) \<Rightarrow> bool" where
  "runs_to m s Q \<longleftrightarrow> (\<exists>a s'. m s = (Done a, s') \<and> Q a s')"

lemma runs_toI: "m s = (Done a, s') \<Longrightarrow> Q a s' \<Longrightarrow> runs_to m s Q"
  by (auto simp: runs_to_def)

lemma runs_toE:
  assumes "runs_to m s Q"
  obtains a s' where "m s = (Done a, s')" "Q a s'"
  using assms by (auto simp: runs_to_def)

lemma runs_to_Done: "runs_to m s Q \<Longrightarrow> m s = (r, s') \<Longrightarrow> \<exists>a. r = Done a \<and> Q a s'"
  by (auto simp: runs_to_def)

lemma runs_to_mono: "runs_to m s Q \<Longrightarrow> (\<And>a s'. Q a s' \<Longrightarrow> R a s') \<Longrightarrow> runs_to m s R"
  by (auto simp: runs_to_def)

lemma runs_to_both:
  "runs_to m s Q \<Longrightarrow> runs_to m s R \<Longrightarrow> runs_to m s (\<lambda>a s'. Q a s' \<and> R a s')"
  by (auto simp: runs_to_def)

lemma runs_to_bind:
  "runs_to m s Q \<Longrightarrow> (\<And>a s'. Q a s' \<Longrightarrow> runs_to (f a) s' R) \<Longrightarrow> runs_to (bind_exec m f) s R"
  by (force simp: runs_to_def bind_exec_def)

lemma runs_to_seq:
  "runs_to m s Q \<Longrightarrow> (\<And>a s'. Q a s' \<Longrightarrow> runs_to n s' R) \<Longrightarrow> runs_to (seq_exec m n) s R"
  unfolding seq_exec_def by (rule runs_to_bind)

lemma runs_to_ret: "Q a s \<Longrightarrow> runs_to (ret a) s Q"
  by (simp add: runs_to_def)

subsection \<open>Lists\<close>

lemma distinct_map_split:
  "distinct (map f (ys @ x # zs)) \<Longrightarrow> y \<in> set ys \<union> set zs \<Longrightarrow> f y \<noteq> f x"
  by (auto simp: rev_image_eqI)

lemma mset_eq_set: "mset xs = mset ys \<Longrightarrow> set xs = set ys"
  by (rule mset_eq_setD)

lemma mset_eq_distinct: "mset xs = mset ys \<Longrightarrow> distinct xs = distinct ys"
  by (rule mset_eq_imp_distinct_iff)

lemma length_le_if_bounded:
  assumes "distinct xs" and "set xs \<subseteq> {..<n}"
  shows "length xs \<le> n"
  using card_mono [OF _ assms(2)] distinct_card [OF assms(1)] by simp

end
