(* ===== verification/Mutex.thy ===== *)
theory Mutex
  imports Prelude
begin

section \<open>Poison-tolerant locking and the error type\<close>

text \<open>
  The standard library's \<open>Mutex\<close> with its poison flag, the extension \<open>MutexExt::lock_recover\<close>
  of \<open>src/util.rs\<close>, and \<open>CacheError\<close> of \<open>src/error.rs\<close>. An operation under a lock is an
  \<open>exec\<close> on the protected content; \<open>locked\<close> turns it into one on the mutex: take the guard,
  run, put back whatever state the operation left, and poison the mutex if it panicked.
\<close>

subsection \<open>Errors of the constructors\<close>

datatype cache_error = InvalidCapacity

definition display_error :: "cache_error \<Rightarrow> string" where
  "display_error e = (case e of InvalidCapacity \<Rightarrow> ''cache capacity must be non-zero'')"

text \<open>\<open>NonZeroUsize::new(n).ok_or(CacheError::InvalidCapacity)\<close>.\<close>

definition nonzero_new :: "usize \<Rightarrow> usize option" where
  "nonzero_new n = (if n = 0 then None else Some n)"

definition ok_or :: "'a option \<Rightarrow> 'e \<Rightarrow> 'e + 'a" where
  "ok_or x e = (case x of None \<Rightarrow> Inl e | Some a \<Rightarrow> Inr a)"

lemma ok_or_nonzero [simp]:
  "ok_or (nonzero_new n) e = (if n = 0 then Inl e else Inr n)"
  by (simp add: ok_or_def nonzero_new_def)

subsection \<open>The mutex\<close>

record 's mutex =
  content :: 's
  poisoned :: bool

datatype 's lock_result = LockOk 's | LockPoisoned 's

definition mutex_new :: "'s \<Rightarrow> 's mutex" where
  "mutex_new x = \<lparr>content = x, poisoned = False\<rparr>"

definition mutex_lock :: "'s mutex \<Rightarrow> 's lock_result" where
  "mutex_lock m = (if poisoned m then LockPoisoned (content m) else LockOk (content m))"

definition lock_recover :: "'s mutex \<Rightarrow> 's" where
  "lock_recover m = (case mutex_lock m of LockOk guard \<Rightarrow> guard | LockPoisoned guard \<Rightarrow> guard)"

definition locked :: "('s, 'a) exec \<Rightarrow> ('s mutex, 'a) exec" where
  "locked f m = (case f (lock_recover m) of
     (r, s') \<Rightarrow> (r, \<lparr>content = s', poisoned = poisoned m \<or> panicked r\<rparr>))"

lemma lock_recover_content [simp]: "lock_recover m = content m"
  by (simp add: lock_recover_def mutex_lock_def)

lemma mutex_new_simps [simp]:
  "content (mutex_new x) = x"
  "poisoned (mutex_new x) = False"
  by (simp_all add: mutex_new_def)

lemma locked_Done:
  "f (content m) = (Done a, s') \<Longrightarrow> locked f m = (Done a, m\<lparr>content := s'\<rparr>)"
  by (simp add: locked_def)

lemma locked_Panicked:
  "f (content m) = (Panicked p, s') \<Longrightarrow>
    locked f m = (Panicked p, \<lparr>content = s', poisoned = True\<rparr>)"
  by (simp add: locked_def)

text \<open>
  A poisoned mutex behaves exactly as a healthy one: the outcome and the content left behind do not
  depend on the poison flag. A panic leaves the operation's last state in place, flags the mutex, and the
  next operation runs on that state.
\<close>

lemma lock_recover_ignores_poison:
  "fst (locked f \<lparr>content = s, poisoned = True\<rparr>) = fst (locked f \<lparr>content = s, poisoned = False\<rparr>) \<and>
   content (snd (locked f \<lparr>content = s, poisoned = True\<rparr>)) =
     content (snd (locked f \<lparr>content = s, poisoned = False\<rparr>)) \<and>
   lock_recover (snd (locked f \<lparr>content = s, poisoned = b\<rparr>)) = snd (f s) \<and>
   poisoned (snd (locked f \<lparr>content = s, poisoned = b\<rparr>)) = (b \<or> panicked (fst (f s)))"
  by (simp add: locked_def split: prod.split)

end
