(* ===== verification/Sharding.thy ===== *)
theory Sharding
  imports Mutex "HOL-Library.While_Combinator"
begin

section \<open>Sharding\<close>

text \<open>
  \<open>src/sharding.rs\<close>: how many shards a cache of a given capacity gets, the capacity of each,
  the boxed slice of mutexes with its mask, and routing a key to its shard. The standard
  library's \<open>DefaultHasher\<close> and the key type's \<open>Hash\<close> implementation are the record
  \<open>hashing\<close>: the bytes a key feeds to the hasher, and the hasher's \<open>finish\<close> on a byte stream.
\<close>

unbundle bit_operations_syntax

subsection \<open>Shard count and per-shard capacity\<close>

definition DEFAULT_SHARDS :: usize where
  "DEFAULT_SHARDS = 16"

definition MIN_PER_SHARD :: usize where
  "MIN_PER_SHARD = 16"

definition shard_loop_guard :: "usize \<Rightarrow> usize \<Rightarrow> bool" where
  "shard_loop_guard max_by_cap shards \<longleftrightarrow>
     sat_mul shards 2 \<le> max_by_cap \<and> sat_mul shards 2 \<le> DEFAULT_SHARDS"

definition shard_loop_body :: "usize \<Rightarrow> usize" where
  "shard_loop_body shards = sat_mul shards 2"

definition shard_count :: "usize \<Rightarrow> usize" where
  "shard_count cap =
     (if cap < sat_mul MIN_PER_SHARD 2 then 1
      else let max_by_cap = cap div MIN_PER_SHARD
           in while (shard_loop_guard max_by_cap) shard_loop_body 1)"

definition per_shard_capacity :: "usize \<Rightarrow> usize \<Rightarrow> usize" where
  "per_shard_capacity cap num_shards =
     (let per = max (cap div num_shards) 1
      in case nonzero_new per of Some n \<Rightarrow> n | None \<Rightarrow> 1)"

subsection \<open>The sharded collection\<close>

record 's sharded =
  shards :: "'s mutex list"
  shard_mask :: usize

definition from_factory :: "usize \<Rightarrow> (nat \<Rightarrow> 's) \<Rightarrow> 's sharded" where
  "from_factory num_shards factory =
     \<lparr>shards = map (\<lambda>i. mutex_new (factory i)) [0..<unat num_shards], shard_mask = num_shards - 1\<rparr>"

record 'k hashing =
  key_bytes :: "'k \<Rightarrow> u8 list"
  hasher_finish :: "u8 list \<Rightarrow> u64"

definition shard_index :: "'k hashing \<Rightarrow> 's sharded \<Rightarrow> 'k \<Rightarrow> nat" where
  "shard_index H sh key = unat (hasher_finish H (key_bytes H key) AND shard_mask sh)"

text \<open>
  \<open>shard_for(key).lock_recover()\<close> and the critical section that follows: index the slice
  (out of bounds panics), lock, run.
\<close>

definition with_shard :: "'k hashing \<Rightarrow> 'k \<Rightarrow> ('s, 'a) exec \<Rightarrow> ('s sharded, 'a) exec" where
  "with_shard H key f sh =
     (let i = shard_index H sh key
      in if i < length (shards sh)
         then case locked f (shards sh ! i) of (r, m) \<Rightarrow> (r, sh\<lparr>shards := (shards sh)[i := m]\<rparr>)
         else (Panicked IndexOutOfBounds, sh))"

text \<open>\<open>for mutex in self.sharded.iter()\<close>: each shard in turn, one lock at a time.\<close>

fun each_mutex :: "('s, 'a) exec \<Rightarrow> 's mutex list \<Rightarrow> 'a list outcome \<times> 's mutex list" where
  "each_mutex f [] = (Done [], [])"
| "each_mutex f (m # ms) =
     (case locked f m of
        (Panicked p, m') \<Rightarrow> (Panicked p, m' # ms)
      | (Done a, m') \<Rightarrow>
          (case each_mutex f ms of
             (Panicked p, ms') \<Rightarrow> (Panicked p, m' # ms')
           | (Done as, ms') \<Rightarrow> (Done (a # as), m' # ms')))"

definition each_shard :: "('s, 'a) exec \<Rightarrow> ('s sharded, 'a list) exec" where
  "each_shard f sh = (case each_mutex f (shards sh) of (r, ms) \<Rightarrow> (r, sh\<lparr>shards := ms\<rparr>))"

subsection \<open>The loop ends, and what it computes\<close>

definition shard_steps :: "usize \<Rightarrow> usize" where
  "shard_steps m = (if 16 \<le> m then 16 else if 8 \<le> m then 8 else if 4 \<le> m then 4 else if 2 \<le> m then 2 else 1)"

lemma sat_double_small:
  "sat_mul 1 2 = (2 :: usize)" "sat_mul 2 2 = (4 :: usize)" "sat_mul 4 2 = (8 :: usize)"
  "sat_mul 8 2 = (16 :: usize)" "sat_mul 16 2 = (32 :: usize)"
  by (simp_all add: sat_mul_def)

lemma shard_loop_option:
  "while_option (shard_loop_guard m) shard_loop_body 1 = Some (shard_steps m)"
proof -
  have le: "16 \<le> m \<Longrightarrow> 8 \<le> m" "8 \<le> m \<Longrightarrow> 4 \<le> m" "4 \<le> m \<Longrightarrow> 2 \<le> m" for m :: usize
    by (simp_all add: word_le_nat_alt)
  show ?thesis
    using le [of m] unfolding shard_steps_def
    by (cases "2 \<le> m"; cases "4 \<le> m"; cases "8 \<le> m"; cases "16 \<le> m")
      (simp_all add: while_option_unfold shard_loop_guard_def shard_loop_body_def
        sat_double_small DEFAULT_SHARDS_def)
qed

lemma shard_count_eq:
  "shard_count cap = (if cap < 32 then 1 else shard_steps (cap div 16))"
  by (simp add: shard_count_def while_def shard_loop_option MIN_PER_SHARD_def sat_double_small)

lemma shard_steps_nat:
  "unat (shard_steps m) =
     (if 16 \<le> unat m then 16 else if 8 \<le> unat m then 8 else if 4 \<le> unat m then 4
      else if 2 \<le> unat m then 2 else 1)"
  by (simp add: shard_steps_def word_le_nat_alt)

lemma unat_shard_count:
  "unat (shard_count cap) =
     (if unat cap < 32 then 1 else if 256 \<le> unat cap then 16 else if 128 \<le> unat cap then 8
      else if 64 \<le> unat cap then 4 else 2)"
proof -
  have "m \<le> unat cap div 16 \<longleftrightarrow> m * 16 \<le> unat cap" for m
    by (rule less_eq_div_iff_mult_less_eq) simp
  then show ?thesis
    by (simp add: shard_count_eq shard_steps_nat word_less_nat_alt unat_div)
qed

lemma shard_count_power: "\<exists>j \<le> 4. unat (shard_count cap) = 2 ^ j"
proof -
  have "unat (shard_count cap) \<in> {2 ^ 0, 2 ^ 1, 2 ^ 2, 2 ^ 3, 2 ^ 4}"
    by (simp add: unat_shard_count)
  then consider "unat (shard_count cap) = 2 ^ 0" | "unat (shard_count cap) = 2 ^ 1"
    | "unat (shard_count cap) = 2 ^ 2" | "unat (shard_count cap) = 2 ^ 3"
    | "unat (shard_count cap) = 2 ^ 4" by blast
  then show ?thesis by cases (rule exI, rule conjI [rotated], assumption, simp)+
qed

lemma shard_count_bounds:
  "0 < unat (shard_count cap)" "unat (shard_count cap) \<le> 16"
  "cap \<noteq> 0 \<Longrightarrow> unat (shard_count cap) \<le> unat cap"
  using unat_eq_zero [of cap] by (simp_all add: unat_shard_count)

lemma unat_per_shard:
  assumes "cap \<noteq> 0" and "0 < unat n" and "unat n \<le> unat cap"
  shows "unat (per_shard_capacity cap n) = unat cap div unat n"
proof -
  have "1 \<le> unat cap div unat n"
    using assms by (simp add: Suc_le_eq div_greater_zero_iff)
  then have "1 \<le> cap div n" by (simp add: word_le_nat_alt unat_div)
  then have "max (cap div n) 1 = cap div n" and "cap div n \<noteq> 0"
    by (auto simp: max_def)
  then show ?thesis by (simp add: per_shard_capacity_def nonzero_new_def unat_div)
qed

lemmas unat_per_shard_count =
  unat_per_shard [OF _ shard_count_bounds(1) shard_count_bounds(3)]

lemma per_shard_pos: "0 < unat (per_shard_capacity cap n)"
proof -
  have "(1 :: usize) \<le> max (cap div n) 1" by simp
  then have "max (cap div n) 1 \<noteq> 0" by (metis word_le_0_iff zero_neq_one)
  then show ?thesis by (simp add: per_shard_capacity_def nonzero_new_def unat_gt_0)
qed

lemma from_factory_simps [simp]:
  "length (shards (from_factory n f)) = unat n"
  "shard_mask (from_factory n f) = n - 1"
  "i < unat n \<Longrightarrow> shards (from_factory n f) ! i = mutex_new (f i)"
  by (simp_all add: from_factory_def)

lemma unat_and_le: "unat (w AND m :: 'a::len word) \<le> unat m"
  using word_and_le1 [of w m] by (simp add: word_le_nat_alt and.commute)

lemma and_mask_mod:
  fixes w n :: usize
  assumes "unat n = 2 ^ j" and "j < 64"
  shows "unat (w AND (n - 1)) = unat w mod unat n"
proof -
  have "n = of_nat (unat n)" by simp
  also have "\<dots> = 2 ^ j" unfolding assms by simp
  finally have "n = 2 ^ j" .
  then have "w AND (n - 1) = take_bit j w"
    by (simp add: take_bit_eq_mask mask_eq_exp_minus_1)
  then show ?thesis using assms by (simp add: unsigned_take_bit_eq flip: take_bit_eq_mod)
qed

text \<open>A concrete hasher, for the witnesses.\<close>

definition sample_hashing :: "nat hashing" where
  "sample_hashing = \<lparr>key_bytes = (\<lambda>k. [of_nat k]), hasher_finish = (\<lambda>bs. fold (\<lambda>b h. 31 * h + ucast b) bs 7)\<rparr>"

subsection \<open>Properties\<close>

text \<open>
  \<^bold>\<open>C28.\<close> The layout of a sharded cache, for every non-zero capacity. The doubling loop ends (on
  every capacity that reaches it) with the shard count; the count is a power of two, at most 16,
  and 1 below 32 entries; with more than one shard each holds at least 16 entries. Every shard
  has room for at least one entry, the shards together never exceed the requested capacity, and
  what flooring loses is at most one entry less than the number of shards.
\<close>

theorem shard_layout:
  assumes "cap \<noteq> 0"
  shows "(\<exists>j \<le> 4. unat (shard_count cap) = 2 ^ j) \<and>
    (unat cap < 32 \<longrightarrow> shard_count cap = 1) \<and>
    (32 \<le> unat cap \<longrightarrow>
       while_option (shard_loop_guard (cap div MIN_PER_SHARD)) shard_loop_body 1 = Some (shard_count cap)) \<and>
    (shard_count cap \<noteq> 1 \<longrightarrow> 16 \<le> unat (per_shard_capacity cap (shard_count cap))) \<and>
    0 < unat (per_shard_capacity cap (shard_count cap)) \<and>
    unat (shard_count cap) * unat (per_shard_capacity cap (shard_count cap)) \<le> unat cap \<and>
    unat cap - unat (shard_count cap) * unat (per_shard_capacity cap (shard_count cap))
      < unat (shard_count cap)"
proof (intro conjI impI)
  let ?n = "unat (shard_count cap)" and ?p = "unat (per_shard_capacity cap (shard_count cap))"
  have p: "?p = unat cap div ?n" using assms by (rule unat_per_shard_count) (rule assms)
  show "\<exists>j \<le> 4. ?n = 2 ^ j" by (rule shard_count_power)
  show "shard_count cap = 1" if "unat cap < 32"
    using that by (simp add: shard_count_eq word_less_nat_alt)
  show "while_option (shard_loop_guard (cap div MIN_PER_SHARD)) shard_loop_body 1 = Some (shard_count cap)"
    if "32 \<le> unat cap"
    using that by (simp add: shard_loop_option shard_count_eq word_less_nat_alt MIN_PER_SHARD_def)
  show "16 \<le> ?p" if "shard_count cap \<noteq> 1"
  proof -
    have "?n \<noteq> 1" using that by (simp add: word_unat_eq_iff)
    then show ?thesis unfolding p by (auto simp: unat_shard_count split: if_splits)
  qed
  show "0 < ?p" by (rule per_shard_pos)
  show "?n * ?p \<le> unat cap" by (simp add: p)
  have "unat cap - ?n * ?p = unat cap mod ?n" by (simp add: p minus_mult_div_eq_mod)
  then show "unat cap - ?n * ?p < ?n" using shard_count_bounds(1) by simp
qed

theorem shard_layout_witness:
  "(127 :: usize) \<noteq> 0 \<and> unat (shard_count 127) = 4 \<and> unat (per_shard_capacity 127 (shard_count 127)) = 31 \<and>
   (127 :: nat) - 4 * 31 < 4"
proof -
  have n: "unat (shard_count 127) = 4" by (simp add: unat_shard_count)
  have p: "unat (per_shard_capacity 127 (shard_count 127)) = 31"
    by (simp add: unat_per_shard_count unat_shard_count)
  show ?thesis using shard_layout [of 127] n p by simp
qed

text \<open>
  Routing. For a cache built for any capacity, whatever the hasher and whatever the shards hold, the
  masked hash is the hash modulo the number of shards, as the source intends, and it always names an
  existing shard, so indexing the boxed slice cannot panic.
\<close>

lemma shard_routing:
  "shard_index H (from_factory (shard_count cap) f) k
     = unat (hasher_finish H (key_bytes H k)) mod unat (shard_count cap) \<and>
   shard_index H (from_factory (shard_count cap) f) k
     < length (shards (from_factory (shard_count cap) f))"
proof -
  obtain j where "j \<le> 4" "unat (shard_count cap) = 2 ^ j" using shard_count_power by blast
  then have "unat (w AND (shard_count cap - 1)) = unat w mod unat (shard_count cap)" for w
    by (intro and_mask_mod) auto
  then show ?thesis using shard_count_bounds(1) by (simp add: shard_index_def)
qed

end
