(* ===== verification/Cache_Contract.thy ===== *)
theory Cache_Contract
  imports Sharding
begin

section \<open>The Cache trait: what a shard owes, and what the sharded cache makes of it\<close>

text \<open>
  \<open>src/cache.rs\<close> declares the operations every cache offers. For one shard the contract is the
  locale \<open>shard_contract\<close>, stated over the abstract content of the shard (\<open>view\<close>): which value
  each operation returns, how it may change the content, that it keeps the shard's invariant and
  its capacity, and that it does not panic. \<open>ready\<close> is what a policy needs of the moment of the
  call (a clock that has not reached its last value, a deadline in the future).
  From these laws the same laws follow for the sharded cache, whose content is that of the shard
  each key is routed to. The locale is interpreted for each of the sharded caches.
\<close>

subsection \<open>A cache of shards\<close>

record 's cache =
  total_capacity :: usize
  sharded_inner :: "'s sharded"

definition on_shards :: "('s sharded, 'a) exec \<Rightarrow> (('s, 'z) cache_scheme, 'a) exec" where
  "on_shards f c = (case f (sharded_inner c) of (r, sh) \<Rightarrow> (r, c\<lparr>sharded_inner := sh\<rparr>))"

text \<open>\<open>Cache::is_empty\<close>, the trait's provided method.\<close>

definition is_empty_of :: "('c, nat) exec \<Rightarrow> ('c, bool) exec" where
  "is_empty_of len = bind_exec len (\<lambda>n. ret (n = 0))"

definition sharded_view :: "('s \<Rightarrow> 'k \<Rightarrow> 'v option) \<Rightarrow> 'k hashing \<Rightarrow> 's sharded \<Rightarrow> 'k \<Rightarrow> 'v option" where
  "sharded_view view H sh k = view (content (shards sh ! shard_index H sh k)) k"

definition sharded_inv ::
  "('s \<Rightarrow> bool) \<Rightarrow> ('s \<Rightarrow> nat) \<Rightarrow> ('s \<Rightarrow> 'k \<Rightarrow> 'v option) \<Rightarrow> 'k hashing \<Rightarrow> nat \<Rightarrow> 's sharded \<Rightarrow> bool" where
  "sharded_inv ok bound view H b sh \<longleftrightarrow>
     length (shards sh) = Suc (unat (shard_mask sh)) \<and>
     (\<forall>i < length (shards sh). ok (content (shards sh ! i)) \<and> bound (content (shards sh ! i)) = b \<and>
        (\<forall>k. view (content (shards sh ! i)) k \<noteq> None \<longrightarrow> shard_index H sh k = i))"

definition shards_ready :: "('s \<Rightarrow> bool) \<Rightarrow> 's sharded \<Rightarrow> bool" where
  "shards_ready ready sh \<longleftrightarrow> (\<forall>m \<in> set (shards sh). ready (content m))"

lemma shard_index_lt:
  "length (shards sh) = Suc (unat (shard_mask sh)) \<Longrightarrow> shard_index H sh k < length (shards sh)"
  using unat_and_le [of "hasher_finish H (key_bytes H k)" "shard_mask sh"]
  by (simp add: shard_index_def less_Suc_eq_le)

lemma shard_index_shards [simp]: "shard_index H (sh\<lparr>shards := ms\<rparr>) k = shard_index H sh k"
  by (simp add: shard_index_def)

lemma with_shard_Done:
  assumes "shard_index H sh k < length (shards sh)"
    and "f (content (shards sh ! shard_index H sh k)) = (Done a, s')"
  shows "with_shard H k f sh =
    (Done a, sh\<lparr>shards := (shards sh)[shard_index H sh k :=
       (shards sh ! shard_index H sh k)\<lparr>content := s'\<rparr>]\<rparr>)"
  using assms by (simp add: with_shard_def Let_def locked_Done)

text \<open>An operation that succeeds on every shard succeeds on the loop over all of them.\<close>

lemma each_mutex_runs:
  assumes "\<And>m. m \<in> set ms \<Longrightarrow> runs_to f (content m) (Q (content m))"
  shows "\<exists>as ms'. each_mutex f ms = (Done as, ms') \<and> length as = length ms \<and> length ms' = length ms \<and>
           (\<forall>i < length ms. Q (content (ms ! i)) (as ! i) (content (ms' ! i)))"
  using assms
proof (induction ms)
  case Nil
  then show ?case by simp
next
  case (Cons m ms)
  from Cons.prems obtain a s' where a: "f (content m) = (Done a, s')" "Q (content m) a s'"
    by (force elim: runs_toE)
  from Cons.IH Cons.prems obtain as ms' where "each_mutex f ms = (Done as, ms')"
      "length as = length ms" "length ms' = length ms"
      "\<forall>i < length ms. Q (content (ms ! i)) (as ! i) (content (ms' ! i))"
    by (metis list.set_intros(2))
  with a show ?case by (auto simp: locked_Done nth_Cons split: nat.split)
qed

text \<open>
  A cache as its constructor built it: as many shards as the capacity calls for, each bounded by
  the per-shard capacity. \<open>cache_view\<close> is its content.
\<close>

definition cache_view :: "('s \<Rightarrow> 'k \<Rightarrow> 'v option) \<Rightarrow> 'k hashing \<Rightarrow> ('s, 'z) cache_scheme \<Rightarrow> 'k \<Rightarrow> 'v option" where
  "cache_view view H c = sharded_view view H (sharded_inner c)"

definition cache_inv ::
  "('s \<Rightarrow> bool) \<Rightarrow> ('s \<Rightarrow> nat) \<Rightarrow> ('s \<Rightarrow> 'k \<Rightarrow> 'v option) \<Rightarrow> 'k hashing \<Rightarrow> ('s, 'z) cache_scheme \<Rightarrow> bool" where
  "cache_inv ok bound view H c \<longleftrightarrow> total_capacity c \<noteq> 0 \<and>
     shard_mask (sharded_inner c) = shard_count (total_capacity c) - 1 \<and>
     sharded_inv ok bound view H
       (unat (per_shard_capacity (total_capacity c) (shard_count (total_capacity c)))) (sharded_inner c)"

definition cache_ready :: "('s \<Rightarrow> bool) \<Rightarrow> ('s, 'z) cache_scheme \<Rightarrow> bool" where
  "cache_ready ready c \<longleftrightarrow> shards_ready ready (sharded_inner c)"

definition same_config :: "('s, 'z) cache_scheme \<Rightarrow> ('s, 'z) cache_scheme \<Rightarrow> bool" where
  "same_config c c' \<longleftrightarrow> c' = c\<lparr>sharded_inner := sharded_inner c'\<rparr>"

lemma same_config_capacity: "same_config c c' \<Longrightarrow> total_capacity c' = total_capacity c"
  by (cases c; cases c') (simp add: same_config_def)

lemma same_config_trans: "same_config c d \<Longrightarrow> same_config d e \<Longrightarrow> same_config c e"
  by (cases c; cases d; cases e) (simp add: same_config_def)

lemma same_config_refl [simp]: "same_config c c"
  by (simp add: same_config_def)

lemma sharded_inner_snd: "sharded_inner (snd (on_shards f c)) = snd (f (sharded_inner c))"
  by (cases c) (simp add: on_shards_def split: prod.split)

lemma on_shards_runs:
  assumes "runs_to f (sharded_inner c) Q"
  shows "runs_to (on_shards f) c (\<lambda>r c'. Q r (sharded_inner c') \<and> same_config c c')"
  using assms by (cases c) (auto simp: runs_to_def on_shards_def same_config_def)

lemma with_shard_mask: "with_shard H k f sh = (r, sh') \<Longrightarrow> shard_mask sh' = shard_mask sh"
  by (auto simp: with_shard_def Let_def split: if_splits prod.splits)

lemma each_shard_mask: "each_shard f sh = (r, sh') \<Longrightarrow> shard_mask sh' = shard_mask sh"
  by (auto simp: each_shard_def split: prod.splits)

lemma runs_to_conj: "runs_to f s Q \<Longrightarrow> (\<And>r s'. f s = (r, s') \<Longrightarrow> P s') \<Longrightarrow> runs_to f s (\<lambda>r s'. Q r s' \<and> P s')"
  by (auto simp: runs_to_def)

lemma Suc_unat_pred: "0 < unat (n :: usize) \<Longrightarrow> Suc (unat (n - 1)) = unat n"
  by (metis Suc_pred' unat_0 less_irrefl unat_minus_one)

lemma total_capacity_bound:
  "cap \<noteq> 0 \<Longrightarrow>
    unat (shard_count cap) * unat (per_shard_capacity cap (shard_count cap)) \<le> unat cap"
  by (simp add: unat_per_shard_count)

text \<open>
  Below 32 entries a cache has a single shard of the full capacity, and an operation on it is
  the operation on that shard.
\<close>

definition only_shard :: "('s, 'z) cache_scheme \<Rightarrow> 's" where
  "only_shard c = content (hd (shards (sharded_inner c)))"

lemma small_cache:
  assumes inv: "cache_inv ok bound view H c" and small: "unat (total_capacity c) < 32"
  shows "length (shards (sharded_inner c)) = 1" and "shard_index H (sharded_inner c) k = 0"
    and "ok (only_shard c)" and "bound (only_shard c) = unat (total_capacity c)"
proof -
  have n: "shard_count (total_capacity c) = 1"
    using small by (simp add: shard_count_eq word_less_nat_alt)
  have nz: "total_capacity c \<noteq> 0" using inv by (simp add: cache_inv_def)
  then have "0 < unat (total_capacity c)" by (simp add: unat_gt_0)
  then have p: "unat (per_shard_capacity (total_capacity c) 1) = unat (total_capacity c)"
    using nz by (subst unat_per_shard) auto
  have mask: "shard_mask (sharded_inner c) = 0" using inv n by (simp add: cache_inv_def)
  then show len: "length (shards (sharded_inner c)) = 1"
    using inv by (simp add: cache_inv_def sharded_inv_def)
  show "shard_index H (sharded_inner c) k = 0" using mask by (simp add: shard_index_def)
  have "shards (sharded_inner c) \<noteq> []" using len by auto
  then show "ok (only_shard c)" and "bound (only_shard c) = unat (total_capacity c)"
    using inv n p len by (simp_all add: cache_inv_def sharded_inv_def only_shard_def hd_conv_nth)
qed

lemma small_cache_runs:
  assumes len: "length (shards (sharded_inner c)) = 1" and idx: "shard_index H (sharded_inner c) k = 0"
    and run: "runs_to f (only_shard c) Q"
  shows "runs_to (on_shards (with_shard H k f)) c (\<lambda>r c'. Q r (only_shard c'))"
proof -
  obtain m where m: "shards (sharded_inner c) = [m]" using len by (auto simp: length_Suc_conv)
  with run obtain r s' where "f (content m) = (Done r, s')" "Q r s'"
    by (auto simp: only_shard_def elim: runs_toE)
  with m idx show ?thesis
    by (auto simp: on_shards_def with_shard_def locked_def only_shard_def runs_to_def)
qed

subsection \<open>Sequences of calls\<close>

text \<open>
  The calls a client can make through the trait, the effect each would have on an unbounded
  map, and a sequence of calls on a cache. A panic ends the sequence.
\<close>

datatype ('k, 'v) call =
  Call_get 'k | Call_insert 'k 'v | Call_remove 'k | Call_contains_key 'k | Call_len | Call_clear

fun latest :: "('k, 'v) call \<Rightarrow> ('k \<rightharpoonup> 'v) \<Rightarrow> ('k \<rightharpoonup> 'v)" where
  "latest (Call_insert k v) m = m(k \<mapsto> v)"
| "latest (Call_remove k) m = m(k := None)"
| "latest Call_clear m = Map.empty"
| "latest (Call_get k) m = m"
| "latest (Call_contains_key k) m = m"
| "latest Call_len m = m"

fun perform ::
  "('k \<Rightarrow> ('c, 'v option) exec) \<Rightarrow> ('k \<Rightarrow> 'v \<Rightarrow> ('c, 'v option) exec) \<Rightarrow> ('k \<Rightarrow> ('c, 'v option) exec) \<Rightarrow>
   ('k \<Rightarrow> ('c, bool) exec) \<Rightarrow> ('c, nat) exec \<Rightarrow> ('c, unit) exec \<Rightarrow> ('k, 'v) call \<Rightarrow> ('c, unit) exec" where
  "perform get ins rem con len clr (Call_get k) = seq_exec (get k) (ret ())"
| "perform get ins rem con len clr (Call_insert k v) = seq_exec (ins k v) (ret ())"
| "perform get ins rem con len clr (Call_remove k) = seq_exec (rem k) (ret ())"
| "perform get ins rem con len clr (Call_contains_key k) = seq_exec (con k) (ret ())"
| "perform get ins rem con len clr Call_len = seq_exec len (ret ())"
| "perform get ins rem con len clr Call_clear = clr"

fun run_calls :: "('a \<Rightarrow> ('c, unit) exec) \<Rightarrow> 'a list \<Rightarrow> ('c, unit) exec" where
  "run_calls f [] = ret ()"
| "run_calls f (x # xs) = seq_exec (f x) (run_calls f xs)"

lemma runs_to_seq_ret: "runs_to f s (\<lambda>_ s'. Q s') \<Longrightarrow> runs_to (seq_exec f (ret ())) s (\<lambda>_ s'. Q s')"
  by (auto simp: runs_to_def seq_exec_def bind_exec_def)

subsection \<open>From one shard to the cache\<close>

lemma sharded_viewD:
  assumes "sharded_inv ok bound view H b sh"
  shows "shard_index H sh k < length (shards sh)"
    and "ok (content (shards sh ! shard_index H sh k))"
    and "bound (content (shards sh ! shard_index H sh k)) = b"
  using assms shard_index_lt [of sh H k] by (auto simp: sharded_inv_def)

text \<open>An operation on the shard of \<open>k\<close>: what it does there is what it does to the cache.\<close>

lemma with_shard_law:
  assumes inv: "sharded_inv ok bound view H b sh"
    and run: "runs_to f (content (shards sh ! shard_index H sh k)) Q"
    and Q: "\<And>r s'. Q r s' \<Longrightarrow> ok s' \<and> bound s' = b \<and>
      (\<forall>j. j \<noteq> k \<longrightarrow> view s' j = view (content (shards sh ! shard_index H sh k)) j \<or> view s' j = None)"
  shows "runs_to (with_shard H k f) sh (\<lambda>r sh'. sharded_inv ok bound view H b sh' \<and>
      (\<exists>s'. Q r s' \<and> sharded_view view H sh' =
         (\<lambda>j. if shard_index H sh j = shard_index H sh k then view s' j else sharded_view view H sh j)))"
proof -
  let ?i = "shard_index H sh k"
  from run obtain r s' where r: "f (content (shards sh ! ?i)) = (Done r, s')" "Q r s'"
    by (rule runs_toE)
  note i = sharded_viewD(1) [OF inv, of k]
  let ?sh = "sh\<lparr>shards := (shards sh)[?i := (shards sh ! ?i)\<lparr>content := s'\<rparr>]\<rparr>"
  have routed: "shard_index H sh j = ?i" if "view s' j \<noteq> None" for j
    using that Q [OF r(2)] inv i by (cases "j = k") (auto simp: sharded_inv_def)
  have "sharded_inv ok bound view H b ?sh"
    using inv Q [OF r(2)] routed i by (auto simp: sharded_inv_def nth_list_update split: if_splits)
  moreover have "sharded_view view H ?sh =
      (\<lambda>j. if shard_index H sh j = ?i then view s' j else sharded_view view H sh j)"
    using i by (auto simp: sharded_view_def fun_eq_iff)
  ultimately show ?thesis
    using with_shard_Done [of H sh k f r s', OF i r(1)] r(2) by (auto intro!: runs_toI)
qed

lemma sharded_view_same:
  "shard_index H sh j = shard_index H sh k \<Longrightarrow>
    view (content (shards sh ! shard_index H sh k)) j = sharded_view view H sh j"
  by (simp add: sharded_view_def)

text \<open>Every key lives in the shard it is routed to, so sizes of shards add up.\<close>

lemma card_routed:
  fixes n :: nat
  assumes "\<And>i. i < n \<Longrightarrow> finite (D i)" and "\<And>i k. i < n \<Longrightarrow> k \<in> D i \<Longrightarrow> route k = i"
    and "\<And>k. route k < n"
  shows "card {k. k \<in> D (route k)} = (\<Sum>i < n. card (D i))"
proof -
  have eq: "{k. k \<in> D (route k)} = (\<Union>i \<in> {..<n}. D i)"
    using assms(2,3) by fastforce
  have "\<forall>i \<in> {..<n}. \<forall>j \<in> {..<n}. i \<noteq> j \<longrightarrow> D i \<inter> D j = {}"
    using assms(2) by (metis disjoint_iff lessThan_iff)
  then show ?thesis unfolding eq using assms(1) by (intro card_UN_disjoint) simp_all
qed

lemma finite_sharded_view:
  assumes "\<And>i. i < length (shards sh) \<Longrightarrow> finite (dom (view (content (shards sh ! i))))"
    and "\<And>k. shard_index H sh k < length (shards sh)"
  shows "finite (dom (sharded_view view H sh))"
proof (rule finite_subset)
  show "dom (sharded_view view H sh) \<subseteq> (\<Union>i < length (shards sh). dom (view (content (shards sh ! i))))"
    using assms(2) by (force simp: sharded_view_def)
qed (use assms(1) in simp)

lemma is_empty_runs:
  "runs_to len c (\<lambda>n c'. n = card D \<and> P c') \<Longrightarrow> finite D \<Longrightarrow> runs_to (is_empty_of len) c (\<lambda>r c'. r = (D = {}) \<and> P c')"
  by (auto simp: runs_to_def is_empty_of_def bind_exec_def)

text \<open>The loops over all shards: each may only lose entries.\<close>

lemma sharded_inv_replace:
  assumes inv: "sharded_inv ok bound view H b sh" and len: "length ms = length (shards sh)"
    and step: "\<And>i. i < length (shards sh) \<Longrightarrow> ok (content (ms ! i)) \<and> bound (content (ms ! i)) = b \<and>
      view (content (ms ! i)) \<subseteq>\<^sub>m view (content (shards sh ! i))"
  shows "sharded_inv ok bound view H b (sh\<lparr>shards := ms\<rparr>)"
  unfolding sharded_inv_def
proof (intro conjI allI impI)
  show "length (shards (sh\<lparr>shards := ms\<rparr>)) = Suc (unat (shard_mask (sh\<lparr>shards := ms\<rparr>)))"
    using len inv by (simp add: sharded_inv_def)
next
  fix i assume "i < length (shards (sh\<lparr>shards := ms\<rparr>))"
  then have i: "i < length (shards sh)" using len by simp
  note q = step [OF i]
  from q show "ok (content (shards (sh\<lparr>shards := ms\<rparr>) ! i))"
    and "bound (content (shards (sh\<lparr>shards := ms\<rparr>) ! i)) = b" by simp_all
  fix k assume "view (content (shards (sh\<lparr>shards := ms\<rparr>) ! i)) k \<noteq> None"
  with q have "view (content (shards sh ! i)) k \<noteq> None" by (force simp: map_le_def dom_def)
  with i inv show "shard_index H (sh\<lparr>shards := ms\<rparr>) k = i" by (auto simp: sharded_inv_def)
qed

lemma each_shard_law:
  assumes inv: "sharded_inv ok bound view H b sh"
    and run: "\<And>s. ok s \<Longrightarrow> bound s = b \<Longrightarrow> runs_to f s (Q s)"
    and Q: "\<And>s r s'. Q s r s' \<Longrightarrow> ok s' \<and> bound s' = b \<and> view s' \<subseteq>\<^sub>m view s"
  shows "runs_to (each_shard f) sh (\<lambda>rs sh'. sharded_inv ok bound view H b sh' \<and>
      length rs = length (shards sh) \<and> shard_mask sh' = shard_mask sh \<and>
      (\<forall>i < length (shards sh). Q (content (shards sh ! i)) (rs ! i) (content (shards sh' ! i))))"
proof -
  have "runs_to f (content m) (Q (content m))" if "m \<in> set (shards sh)" for m
    using that inv run by (auto simp: sharded_inv_def in_set_conv_nth)
  then obtain rs ms where ms: "each_mutex f (shards sh) = (Done rs, ms)"
      "length rs = length (shards sh)" "length ms = length (shards sh)"
      "\<forall>i < length (shards sh). Q (content (shards sh ! i)) (rs ! i) (content (ms ! i))"
    using each_mutex_runs [of "shards sh" f Q] by blast
  have "sharded_inv ok bound view H b (sh\<lparr>shards := ms\<rparr>)"
    using ms(3,4) Q by (intro sharded_inv_replace [OF inv]) blast+
  with ms show ?thesis by (auto simp: each_shard_def intro!: runs_toI)
qed

text \<open>From the sharded collection to the cache, whose configuration does not change.\<close>

lemma cache_lift:
  assumes inv: "cache_inv ok bound view H c"
    and run: "runs_to f (sharded_inner c) (\<lambda>r sh. P r (sharded_view view H sh) \<and> sharded_inv ok bound view H
       (unat (per_shard_capacity (total_capacity c) (shard_count (total_capacity c)))) sh)"
    and mask: "\<And>r sh. f (sharded_inner c) = (r, sh) \<Longrightarrow> shard_mask sh = shard_mask (sharded_inner c)"
  shows "runs_to (on_shards f) c (\<lambda>r c'. P r (cache_view view H c') \<and> cache_inv ok bound view H c' \<and> same_config c c')"
  by (rule runs_to_mono [OF on_shards_runs [OF runs_to_conj [OF run mask]]])
    (use inv in \<open>auto simp: cache_view_def cache_inv_def same_config_capacity\<close>)

lemma sharded_new_inv:
  assumes "ok s" and "bound s = b" and "view s = Map.empty" and "0 < unat n"
  shows "sharded_inv ok bound view H b (from_factory n (\<lambda>_. s))"
    and "sharded_view view H (from_factory n (\<lambda>_. s)) = Map.empty"
proof -
  show inv: "sharded_inv ok bound view H b (from_factory n (\<lambda>_. s))"
    using assms Suc_unat_pred [of n] by (simp add: sharded_inv_def)
  show "sharded_view view H (from_factory n (\<lambda>_. s)) = Map.empty"
    using sharded_viewD(1) [OF inv] assms(3) by (simp add: sharded_view_def fun_eq_iff)
qed

lemma cache_new_inv:
  assumes "cap \<noteq> 0" and "total_capacity c = cap"
    and "sharded_inner c = from_factory (shard_count cap) (\<lambda>_. s)"
    and "ok s" and "bound s = unat (per_shard_capacity cap (shard_count cap))" and "view s = Map.empty"
  shows "cache_inv ok bound view H c" and "cache_view view H c = Map.empty"
  using assms sharded_new_inv [of _ s _ _ _ "shard_count cap" H] shard_count_bounds(1)
  by (auto simp: cache_inv_def cache_view_def)

text \<open>
  A resource of the shards (a clock) of which every critical section uses up at most one unit.
\<close>

definition used_le :: "('s \<Rightarrow> nat) \<Rightarrow> nat \<Rightarrow> 's sharded \<Rightarrow> bool" where
  "used_le used n sh \<longleftrightarrow> (\<forall>m \<in> set (shards sh). used (content m) \<le> n)"

definition uses_one :: "('s \<Rightarrow> nat) \<Rightarrow> ('s, 'a) exec \<Rightarrow> bool" where
  "uses_one used f \<longleftrightarrow> (\<forall>s. used (snd (f s)) \<le> Suc (used s))"

lemma used_le_Suc: "used_le used n sh \<Longrightarrow> used_le used (Suc n) sh"
  by (auto simp: used_le_def intro: le_SucI)

lemma locked_used:
  assumes "uses_one used f" and "used (content m) \<le> n"
  shows "used (content (snd (locked f m))) \<le> Suc n"
proof -
  have "content (snd (locked f m)) = snd (f (content m))"
    by (simp add: locked_def split: prod.split)
  then show ?thesis using assms le_trans by (fastforce simp: uses_one_def)
qed

lemma used_le_update:
  assumes "used_le used n sh" and "used (content m) \<le> Suc n"
  shows "used_le used (Suc n) (sh\<lparr>shards := (shards sh)[i := m]\<rparr>)"
  using assms by (auto simp: used_le_def dest!: subsetD [OF set_update_subset_insert] intro: le_SucI)

lemma with_shard_used:
  assumes "used_le used n sh" and "uses_one used f"
  shows "used_le used (Suc n) (snd (with_shard H k f sh))"
proof (cases "shard_index H sh k < length (shards sh)")
  case True
  then have "used (content (shards sh ! shard_index H sh k)) \<le> n" using assms(1) by (simp add: used_le_def)
  from used_le_update [OF assms(1) locked_used [OF assms(2) this]] True show ?thesis
    by (simp add: with_shard_def Let_def split: prod.split) (metis snd_conv)
next
  case False
  then show ?thesis using used_le_Suc [OF assms(1)] by (simp add: with_shard_def Let_def)
qed

lemma each_mutex_used:
  assumes "uses_one used f" and "\<forall>m \<in> set ms. used (content m) \<le> n"
  shows "\<forall>m \<in> set (snd (each_mutex f ms)). used (content m) \<le> Suc n"
  using assms(2)
proof (induction ms)
  case (Cons m ms)
  then show ?case
    using locked_used [OF assms(1), of m n] by (auto split: prod.splits outcome.splits intro: le_SucI)
qed simp

lemma each_shard_used:
  "used_le used n sh \<Longrightarrow> uses_one used f \<Longrightarrow> used_le used (Suc n) (snd (each_shard f sh))"
  using each_mutex_used [of used f "shards sh" n]
  by (auto simp: used_le_def each_shard_def split: prod.splits)

subsection \<open>The contract of a shard\<close>

locale shard_contract =
  fixes ok :: "'s \<Rightarrow> bool"
    and ready :: "'s \<Rightarrow> bool"
    and bound :: "'s \<Rightarrow> nat"
    and view :: "'s \<Rightarrow> 'k \<Rightarrow> 'v option"
    and get :: "'k \<Rightarrow> ('s, 'v option) exec"
    and insert :: "'k \<Rightarrow> 'v \<Rightarrow> ('s, 'v option) exec"
    and remove :: "'k \<Rightarrow> ('s, 'v option) exec"
    and contains :: "'k \<Rightarrow> ('s, bool) exec"
    and len :: "('s, nat) exec"
    and clear :: "('s, unit) exec"
  assumes get_law: "ok s \<Longrightarrow> ready s \<Longrightarrow>
      runs_to (get k) s (\<lambda>r s'. r = view s k \<and> ok s' \<and> bound s' = bound s \<and> view s' = view s)"
    and insert_law: "ok s \<Longrightarrow> ready s \<Longrightarrow>
      runs_to (insert k v) s (\<lambda>r s'. r = view s k \<and> ok s' \<and> bound s' = bound s \<and>
        (\<forall>j. j \<noteq> k \<longrightarrow> view s' j = view s j \<or> view s' j = None) \<and>
        (view s' k = Some v \<or> view s' k = None))"
    and remove_law: "ok s \<Longrightarrow>
      runs_to (remove k) s (\<lambda>r s'. (\<forall>v. view s k = Some v \<longrightarrow> r = Some v) \<and>
        ok s' \<and> bound s' = bound s \<and> view s' = (view s)(k := None))"
    and contains_law: "ok s \<Longrightarrow>
      runs_to (contains k) s (\<lambda>r s'. r = (view s k \<noteq> None) \<and>
        ok s' \<and> bound s' = bound s \<and> view s' = view s)"
    and len_law: "ok s \<Longrightarrow>
      runs_to len s (\<lambda>n s'. n = card (dom (view s)) \<and> n \<le> bound s \<and>
        ok s' \<and> bound s' = bound s \<and> view s' = view s)"
    and clear_law: "ok s \<Longrightarrow>
      runs_to clear s (\<lambda>_ s'. ok s' \<and> bound s' = bound s \<and> view s' = Map.empty)"
    and finite_view: "ok s \<Longrightarrow> finite (dom (view s))"
begin

lemma shards_readyD:
  "shards_ready ready sh \<Longrightarrow> sharded_inv ok bound view H b sh \<Longrightarrow>
    ready (content (shards sh ! shard_index H sh k))"
  using sharded_viewD(1) [of ok bound view H b sh k] by (simp add: shards_ready_def)

lemma sharded_get:
  assumes inv: "sharded_inv ok bound view H b sh" and "shards_ready ready sh"
  shows "runs_to (with_shard H k (get k)) sh (\<lambda>r sh'. r = sharded_view view H sh k \<and>
      sharded_inv ok bound view H b sh' \<and> sharded_view view H sh' = sharded_view view H sh)"
  using sharded_viewD [OF inv, of k] shards_readyD [OF assms(2,1), of k]
  by (intro runs_to_mono [OF with_shard_law [OF inv get_law]]) (auto simp: sharded_view_same fun_eq_iff)

lemma sharded_insert:
  assumes inv: "sharded_inv ok bound view H b sh" and "shards_ready ready sh"
  shows "runs_to (with_shard H k (insert k v)) sh (\<lambda>r sh'. r = sharded_view view H sh k \<and>
      sharded_inv ok bound view H b sh' \<and>
      (\<forall>j. j \<noteq> k \<longrightarrow> sharded_view view H sh' j = sharded_view view H sh j \<or>
                     sharded_view view H sh' j = None \<and> shard_index H sh j = shard_index H sh k) \<and>
      (sharded_view view H sh' k = Some v \<or> sharded_view view H sh' k = None))"
proof -
  let ?s = "content (shards sh ! shard_index H sh k)"
  let ?Q = "\<lambda>r s'. r = view ?s k \<and> ok s' \<and> bound s' = bound ?s \<and>
      (\<forall>j. j \<noteq> k \<longrightarrow> view s' j = view ?s j \<or> view s' j = None) \<and>
      (view s' k = Some v \<or> view s' k = None)"
  have run: "runs_to (insert k v) ?s ?Q"
    using insert_law sharded_viewD(2) [OF inv] shards_readyD [OF assms(2,1)] by blast
  have eq: "shard_index H sh j = shard_index H sh k \<Longrightarrow> view ?s j = sharded_view view H sh j" for j
    by (rule sharded_view_same)
  show ?thesis
  proof (rule runs_to_mono [OF with_shard_law [OF inv run]])
    fix r s' assume "?Q r s'"
    then show "ok s' \<and> bound s' = b \<and> (\<forall>j. j \<noteq> k \<longrightarrow> view s' j = view ?s j \<or> view s' j = None)"
      using sharded_viewD(3) [OF inv] by simp
  next
    fix r sh' assume "sharded_inv ok bound view H b sh' \<and> (\<exists>s'. ?Q r s' \<and> sharded_view view H sh' =
        (\<lambda>j. if shard_index H sh j = shard_index H sh k then view s' j else sharded_view view H sh j))"
    then obtain s' where sh': "sharded_inv ok bound view H b sh'" "?Q r s'"
      "sharded_view view H sh' =
        (\<lambda>j. if shard_index H sh j = shard_index H sh k then view s' j else sharded_view view H sh j)"
      by blast
    have "sharded_view view H sh' j = sharded_view view H sh j \<or>
        sharded_view view H sh' j = None \<and> shard_index H sh j = shard_index H sh k" if "j \<noteq> k" for j
      using that sh'(2,3) eq [of j] by (cases "shard_index H sh j = shard_index H sh k") auto
    then show "r = sharded_view view H sh k \<and> sharded_inv ok bound view H b sh' \<and>
      (\<forall>j. j \<noteq> k \<longrightarrow> sharded_view view H sh' j = sharded_view view H sh j \<or>
                     sharded_view view H sh' j = None \<and> shard_index H sh j = shard_index H sh k) \<and>
      (sharded_view view H sh' k = Some v \<or> sharded_view view H sh' k = None)"
      using sh' eq [of k] by simp
  qed
qed

lemma sharded_remove:
  assumes inv: "sharded_inv ok bound view H b sh"
  shows "runs_to (with_shard H k (remove k)) sh (\<lambda>r sh'.
      (\<forall>v. sharded_view view H sh k = Some v \<longrightarrow> r = Some v) \<and>
      sharded_inv ok bound view H b sh' \<and>
      sharded_view view H sh' = (sharded_view view H sh)(k := None))"
  using sharded_viewD [OF inv, of k]
  by (intro runs_to_mono [OF with_shard_law [OF inv remove_law]]) (auto simp: sharded_view_same fun_eq_iff)

lemma sharded_contains:
  assumes inv: "sharded_inv ok bound view H b sh"
  shows "runs_to (with_shard H k (contains k)) sh (\<lambda>r sh'. r = (sharded_view view H sh k \<noteq> None) \<and>
      sharded_inv ok bound view H b sh' \<and> sharded_view view H sh' = sharded_view view H sh)"
  using sharded_viewD [OF inv, of k]
  by (intro runs_to_mono [OF with_shard_law [OF inv contains_law]]) (auto simp: sharded_view_same fun_eq_iff)

text \<open>
  The loops over all shards. Every key of the cache lives in the one shard it is routed to, so
  the shards' sizes add up to the number of keys.
\<close>

lemma card_sharded_view:
  assumes inv: "sharded_inv ok bound view H b sh"
  shows "card (dom (sharded_view view H sh)) =
    (\<Sum>i < length (shards sh). card (dom (view (content (shards sh ! i)))))"
proof -
  have lt: "shard_index H sh k < length (shards sh)" for k by (rule sharded_viewD [OF inv])
  have "card {k. k \<in> dom (view (content (shards sh ! shard_index H sh k)))} =
      (\<Sum>i < length (shards sh). card (dom (view (content (shards sh ! i)))))"
    using inv finite_view by (intro card_routed lt) (auto simp: sharded_inv_def)
  then show ?thesis by (simp add: sharded_view_def dom_def)
qed

lemma sharded_len:
  assumes inv: "sharded_inv ok bound view H b sh"
  shows "runs_to (each_shard len) sh (\<lambda>ns sh'.
      sum_list ns = card (dom (sharded_view view H sh)) \<and>
      sum_list ns \<le> length (shards sh) * b \<and>
      sharded_inv ok bound view H b sh' \<and> sharded_view view H sh' = sharded_view view H sh)"
proof (rule runs_to_mono)
  let ?Q = "\<lambda>s n s'. n = card (dom (view s)) \<and> n \<le> b \<and> ok s' \<and> bound s' = b \<and> view s' = view s"
  show "runs_to (each_shard len) sh (\<lambda>rs sh'. sharded_inv ok bound view H b sh' \<and>
      length rs = length (shards sh) \<and> shard_mask sh' = shard_mask sh \<and>
      (\<forall>i < length (shards sh). ?Q (content (shards sh ! i)) (rs ! i) (content (shards sh' ! i))))"
    using len_law by (intro each_shard_law [OF inv, of len ?Q]) auto
next
  fix ns sh'
  assume *: "sharded_inv ok bound view H b sh' \<and>
      length ns = length (shards sh) \<and> shard_mask sh' = shard_mask sh \<and>
      (\<forall>i < length (shards sh). ns ! i = card (dom (view (content (shards sh ! i)))) \<and> ns ! i \<le> b \<and>
         ok (content (shards sh' ! i)) \<and> bound (content (shards sh' ! i)) = b \<and>
         view (content (shards sh' ! i)) = view (content (shards sh ! i)))"
  have "sum_list ns = card (dom (sharded_view view H sh))"
    using * by (simp add: card_sharded_view [OF inv] sum_list_sum_nth atLeast0LessThan)
  moreover have "sum_list ns \<le> length (shards sh) * b"
  proof -
    have "(\<Sum>i < length (shards sh). ns ! i) \<le> of_nat (card {..<length (shards sh)}) * b"
      using * by (intro sum_bounded_above) (metis lessThan_iff)
    then show ?thesis using * by (simp add: sum_list_sum_nth atLeast0LessThan)
  qed
  moreover have "sharded_view view H sh' = sharded_view view H sh"
  proof
    fix k
    have "shard_index H sh' k = shard_index H sh k" using * by (simp add: shard_index_def)
    then show "sharded_view view H sh' k = sharded_view view H sh k"
      using * sharded_viewD(1) [OF inv, of k] by (simp add: sharded_view_def)
  qed
  ultimately show "sum_list ns = card (dom (sharded_view view H sh)) \<and>
      sum_list ns \<le> length (shards sh) * b \<and>
      sharded_inv ok bound view H b sh' \<and> sharded_view view H sh' = sharded_view view H sh"
    using * by simp
qed

lemma sharded_clear:
  assumes inv: "sharded_inv ok bound view H b sh"
  shows "runs_to (each_shard clear) sh (\<lambda>_ sh'.
      sharded_inv ok bound view H b sh' \<and> sharded_view view H sh' = Map.empty)"
proof (rule runs_to_mono)
  let ?Q = "\<lambda>s (_ :: unit) s'. ok s' \<and> bound s' = b \<and> view s' = Map.empty"
  show "runs_to (each_shard clear) sh (\<lambda>rs sh'. sharded_inv ok bound view H b sh' \<and>
      length rs = length (shards sh) \<and> shard_mask sh' = shard_mask sh \<and>
      (\<forall>i < length (shards sh). ?Q (content (shards sh ! i)) (rs ! i) (content (shards sh' ! i))))"
    using clear_law by (intro each_shard_law [OF inv, of clear ?Q]) auto
next
  fix rs :: "unit list" and sh'
  assume *: "sharded_inv ok bound view H b sh' \<and>
      length rs = length (shards sh) \<and> shard_mask sh' = shard_mask sh \<and>
      (\<forall>i < length (shards sh). ok (content (shards sh' ! i)) \<and> bound (content (shards sh' ! i)) = b \<and>
         view (content (shards sh' ! i)) = Map.empty)"
  have "shard_index H sh' k = shard_index H sh k" for k using * by (simp add: shard_index_def)
  then have "sharded_view view H sh' = Map.empty"
    using * sharded_viewD(1) [OF inv] by (auto simp: sharded_view_def fun_eq_iff)
  with * show "sharded_inv ok bound view H b sh' \<and> sharded_view view H sh' = Map.empty" by simp
qed

lemma cache_get:
  assumes inv: "cache_inv ok bound view H c" and ready: "cache_ready ready c"
  shows "runs_to (on_shards (with_shard H k (get k))) c (\<lambda>r c'. (r = cache_view view H c k \<and>
      cache_view view H c' = cache_view view H c) \<and> cache_inv ok bound view H c' \<and> same_config c c')"
  using inv ready
  by (intro cache_lift [OF inv] runs_to_mono [OF sharded_get])
    (auto simp: cache_inv_def cache_ready_def cache_view_def dest: with_shard_mask)

lemma cache_insert:
  assumes inv: "cache_inv ok bound view H c" and ready: "cache_ready ready c"
  shows "runs_to (on_shards (with_shard H k (insert k v))) c (\<lambda>r c'. (r = cache_view view H c k \<and>
      (\<forall>j. j \<noteq> k \<longrightarrow> cache_view view H c' j = cache_view view H c j \<or>
         cache_view view H c' j = None \<and>
         shard_index H (sharded_inner c) j = shard_index H (sharded_inner c) k) \<and>
      (cache_view view H c' k = Some v \<or> cache_view view H c' k = None)) \<and>
      cache_inv ok bound view H c' \<and> same_config c c')"
  using inv ready
  by (intro cache_lift [OF inv] runs_to_mono [OF sharded_insert])
    (auto simp: cache_inv_def cache_ready_def cache_view_def dest: with_shard_mask)

lemma cache_remove:
  assumes inv: "cache_inv ok bound view H c"
  shows "runs_to (on_shards (with_shard H k (remove k))) c (\<lambda>r c'.
      ((\<forall>v. cache_view view H c k = Some v \<longrightarrow> r = Some v) \<and>
       cache_view view H c' = (cache_view view H c)(k := None)) \<and>
      cache_inv ok bound view H c' \<and> same_config c c')"
  using inv
  by (intro cache_lift [OF inv] runs_to_mono [OF sharded_remove])
    (auto simp: cache_inv_def cache_view_def dest: with_shard_mask)

lemma cache_contains:
  assumes inv: "cache_inv ok bound view H c"
  shows "runs_to (on_shards (with_shard H k (contains k))) c (\<lambda>r c'.
      (r = (cache_view view H c k \<noteq> None) \<and> cache_view view H c' = cache_view view H c) \<and>
      cache_inv ok bound view H c' \<and> same_config c c')"
  using inv
  by (intro cache_lift [OF inv] runs_to_mono [OF sharded_contains])
    (auto simp: cache_inv_def cache_view_def dest: with_shard_mask)

lemma cache_len:
  assumes inv: "cache_inv ok bound view H c"
  shows "runs_to (bind_exec (on_shards (each_shard len)) (\<lambda>ns. ret (sum_list ns))) c (\<lambda>n c'.
      (n = card (dom (cache_view view H c)) \<and> n \<le> unat (total_capacity c) \<and>
       cache_view view H c' = cache_view view H c) \<and>
      cache_inv ok bound view H c' \<and> same_config c c')"
proof -
  let ?b = "unat (per_shard_capacity (total_capacity c) (shard_count (total_capacity c)))"
  have sh: "sharded_inv ok bound view H ?b (sharded_inner c)" using inv by (simp add: cache_inv_def)
  have "length (shards (sharded_inner c)) = unat (shard_count (total_capacity c))"
    using inv Suc_unat_pred [OF shard_count_bounds(1)] by (simp add: cache_inv_def sharded_inv_def)
  then have cap: "length (shards (sharded_inner c)) * ?b \<le> unat (total_capacity c)"
    using inv total_capacity_bound by (simp add: cache_inv_def)
  have "runs_to (on_shards (each_shard len)) c (\<lambda>ns c'.
      (sum_list ns = card (dom (cache_view view H c)) \<and> sum_list ns \<le> unat (total_capacity c) \<and>
       cache_view view H c' = cache_view view H c) \<and>
      cache_inv ok bound view H c' \<and> same_config c c')"
    using cap
    by (intro cache_lift [OF inv] runs_to_mono [OF sharded_len [OF sh]])
      (auto simp: cache_view_def dest: each_shard_mask)
  then show ?thesis by (auto simp: runs_to_def bind_exec_def)
qed

lemma cache_is_empty:
  assumes inv: "cache_inv ok bound view H c"
  shows "runs_to (is_empty_of (bind_exec (on_shards (each_shard len)) (\<lambda>ns. ret (sum_list ns)))) c
    (\<lambda>r c'. r = (cache_view view H c = Map.empty) \<and> cache_view view H c' = cache_view view H c)"
proof -
  have sh: "sharded_inv ok bound view H
      (unat (per_shard_capacity (total_capacity c) (shard_count (total_capacity c)))) (sharded_inner c)"
    using inv by (simp add: cache_inv_def)
  have "finite (dom (cache_view view H c))"
    unfolding cache_view_def
    by (rule finite_sharded_view [OF _ sharded_viewD(1) [OF sh]]) (use sh finite_view in \<open>auto simp: sharded_inv_def\<close>)
  then show ?thesis
    by (intro runs_to_mono [OF is_empty_runs [OF runs_to_mono [OF cache_len [OF inv]]]]) auto
qed

lemma cache_clear:
  assumes inv: "cache_inv ok bound view H c"
  shows "runs_to (bind_exec (on_shards (each_shard clear)) (\<lambda>_. ret ())) c (\<lambda>_ c'.
      cache_view view H c' = Map.empty \<and> cache_inv ok bound view H c' \<and> same_config c c')"
proof -
  have "runs_to (on_shards (each_shard clear)) c (\<lambda>_ c'.
      cache_view view H c' = Map.empty \<and> cache_inv ok bound view H c' \<and> same_config c c')"
    using inv
    by (intro cache_lift [OF inv] runs_to_mono [OF sharded_clear])
      (auto simp: cache_inv_def cache_view_def dest: each_shard_mask)
  then show ?thesis by (auto simp: runs_to_def bind_exec_def)
qed

lemmas cache_new = cache_new_inv [where ok = ok and bound = bound and view = view]

text \<open>
  Any sequence of calls: no panic, the invariant and the configuration hold afterwards, and the
  content is part of the map that the same calls would have built without a capacity. A cache may
  forget an entry but never invents one or returns a value that has been replaced or removed.
\<close>

lemma perform_law:
  assumes inv: "cache_inv ok bound view H c" and ready: "cache_ready ready c"
    and le: "cache_view view H c \<subseteq>\<^sub>m m"
  shows "runs_to (perform (\<lambda>k. on_shards (with_shard H k (get k)))
        (\<lambda>k v. on_shards (with_shard H k (insert k v))) (\<lambda>k. on_shards (with_shard H k (remove k)))
        (\<lambda>k. on_shards (with_shard H k (contains k)))
        (bind_exec (on_shards (each_shard len)) (\<lambda>ns. ret (sum_list ns)))
        (bind_exec (on_shards (each_shard clear)) (\<lambda>_. ret ())) call) c
      (\<lambda>_ c'. cache_inv ok bound view H c' \<and> same_config c c' \<and> cache_view view H c' \<subseteq>\<^sub>m latest call m)"
proof (cases call)
  case (Call_get k)
  show ?thesis unfolding Call_get perform.simps latest.simps
    by (rule runs_to_seq_ret, rule runs_to_mono [OF cache_get [OF inv ready]]) (use le in auto)
next
  case (Call_insert k v)
  show ?thesis unfolding Call_insert perform.simps latest.simps
  proof (rule runs_to_seq_ret, rule runs_to_mono [OF cache_insert [OF inv ready, of k v]])
    fix r c'
    assume *: "(r = cache_view view H c k \<and>
      (\<forall>j. j \<noteq> k \<longrightarrow> cache_view view H c' j = cache_view view H c j \<or>
         cache_view view H c' j = None \<and>
         shard_index H (sharded_inner c) j = shard_index H (sharded_inner c) k) \<and>
      (cache_view view H c' k = Some v \<or> cache_view view H c' k = None)) \<and>
      cache_inv ok bound view H c' \<and> same_config c c'"
    have "cache_view view H c' j = (m(k \<mapsto> v)) j" if "cache_view view H c' j \<noteq> None" for j
    proof (cases "j = k")
      case True
      with * that show ?thesis by auto
    next
      case False
      with * that have "cache_view view H c' j = cache_view view H c j" by metis
      moreover have "cache_view view H c j = m j"
        using le that \<open>cache_view view H c' j = cache_view view H c j\<close>
        unfolding map_le_def by (metis domIff)
      ultimately show ?thesis using False by simp
    qed
    then have "cache_view view H c' \<subseteq>\<^sub>m m(k \<mapsto> v)" unfolding map_le_def by (metis domIff)
    with * show "cache_inv ok bound view H c' \<and> same_config c c' \<and> cache_view view H c' \<subseteq>\<^sub>m m(k \<mapsto> v)"
      by blast
  qed
next
  case (Call_remove k)
  show ?thesis unfolding Call_remove perform.simps latest.simps
    by (rule runs_to_seq_ret, rule runs_to_mono [OF cache_remove [OF inv]])
      (use le in \<open>auto simp: map_le_def\<close>)
next
  case (Call_contains_key k)
  show ?thesis unfolding Call_contains_key perform.simps latest.simps
    by (rule runs_to_seq_ret, rule runs_to_mono [OF cache_contains [OF inv]]) (use le in auto)
next
  case Call_len
  show ?thesis unfolding Call_len perform.simps latest.simps
    by (rule runs_to_seq_ret, rule runs_to_mono [OF cache_len [OF inv]]) (use le in auto)
next
  case Call_clear
  show ?thesis unfolding Call_clear perform.simps latest.simps
    by (rule runs_to_mono [OF cache_clear [OF inv]]) (use le in auto)
qed

lemma run_calls_law:
  fixes H :: "'k hashing" and c :: "('s, 'z) cache_scheme"
  defines "step \<equiv> perform (\<lambda>k. on_shards (with_shard H k (get k)))
        (\<lambda>k v. on_shards (with_shard H k (insert k v))) (\<lambda>k. on_shards (with_shard H k (remove k)))
        (\<lambda>k. on_shards (with_shard H k (contains k)))
        (bind_exec (on_shards (each_shard len)) (\<lambda>ns. ret (sum_list ns)))
        (bind_exec (on_shards (each_shard clear)) (\<lambda>_. ret ()))"
  assumes inv: "cache_inv ok bound view H c" and le: "cache_view view H c \<subseteq>\<^sub>m m"
    and ready: "\<And>ps qs (c' :: ('s, 'z) cache_scheme).
      cs = ps @ qs \<Longrightarrow> run_calls step ps c = (Done (), c') \<Longrightarrow> cache_ready ready c'"
  shows "runs_to (run_calls step cs) c (\<lambda>_ c'. cache_inv ok bound view H c' \<and> same_config c c' \<and>
           cache_view view H c' \<subseteq>\<^sub>m fold latest cs m)"
  using inv le ready
proof (induction cs arbitrary: c m)
  case Nil
  then show ?case by (auto intro: runs_toI)
next
  case (Cons call cs)
  have "cache_ready ready c" using Cons.prems(3) [of "[]"] by simp
  with perform_law [OF Cons.prems(1) _ Cons.prems(2), of call] obtain c1
    where c1: "step call c = (Done (), c1)" "cache_inv ok bound view H c1" "same_config c c1"
      "cache_view view H c1 \<subseteq>\<^sub>m latest call m"
    unfolding step_def by (auto elim: runs_toE)
  have "cache_ready ready c'" if "cs = ps @ qs" "run_calls step ps c1 = (Done (), c')" for ps qs c'
    using that c1(1) Cons.prems(3) [of "call # ps" qs c'] by (simp add: seq_exec_def bind_exec_def)
  with Cons.IH [OF c1(2,4)] obtain c2 where "run_calls step cs c1 = (Done (), c2)"
      "cache_inv ok bound view H c2" "same_config c1 c2"
      "cache_view view H c2 \<subseteq>\<^sub>m fold latest cs (latest call m)"
    by (auto elim: runs_toE)
  with c1 show ?case
    by (auto simp: seq_exec_def bind_exec_def intro!: runs_toI intro: same_config_trans)
qed

end

text \<open>
  A policy that never refuses an entry: what was just inserted is there.
\<close>

locale storing_contract = shard_contract +
  assumes insert_stores: "ok s \<Longrightarrow> ready s \<Longrightarrow> runs_to (insert k v) s (\<lambda>_ s'. view s' k = Some v)"
begin

lemma cache_insert_stores:
  assumes inv: "cache_inv ok bound view H c" and ready: "cache_ready ready c"
  shows "runs_to (on_shards (with_shard H k (insert k v))) c (\<lambda>_ c'. cache_view view H c' k = Some v)"
proof -
  let ?sh = "sharded_inner c"
  let ?i = "shard_index H ?sh k"
  have sh: "sharded_inv ok bound view H
      (unat (per_shard_capacity (total_capacity c) (shard_count (total_capacity c)))) ?sh"
    using inv by (simp add: cache_inv_def)
  note i = sharded_viewD [OF sh, of k]
  have "ready (content (shards ?sh ! ?i))"
    using ready sh by (intro shards_readyD) (auto simp: cache_ready_def)
  with i obtain r s' where run: "insert k v (content (shards ?sh ! ?i)) = (Done r, s')" "view s' k = Some v"
    using insert_stores by (blast elim: runs_toE)
  show ?thesis
    using with_shard_Done [of H ?sh k "insert k v" r s', OF i(1) run(1)] run(2) i(1)
    by (auto simp: runs_to_def on_shards_def cache_view_def sharded_view_def)
qed

end

end
