(* ===== verification/Interleaving.thy ===== *)
theory Interleaving
  imports Cache_Contract
begin

section \<open>Threads on one cache\<close>

text \<open>
  A sharded cache is shared by threads. Each method holds one mutex at a time: the single-key methods
  the mutex of the key's shard for their whole body, \<open>len\<close> and \<open>clear\<close> the mutex of one shard after
  the other. A critical section under a mutex is one atomic step here, and any thread may take its next
  step at any time, so another thread's steps fall between two shards of a \<open>len\<close> or \<open>clear\<close>. The
  history lists what the critical sections returned, in the order in which they ran.
\<close>

subsection \<open>The step relation\<close>

record ('s, 'k, 'v) shard_ops =
  do_get :: "'k \<Rightarrow> ('s, 'v option) exec"
  do_insert :: "'k \<Rightarrow> 'v \<Rightarrow> ('s, 'v option) exec"
  do_remove :: "'k \<Rightarrow> ('s, 'v option) exec"
  do_contains :: "'k \<Rightarrow> ('s, bool) exec"
  do_len :: "('s, nat) exec"
  do_clear :: "('s, unit) exec"

datatype activity = Idle | Counting nat nat | Clearing nat | Crashed panic

record ('k, 'v) thread =
  program :: "('k, 'v) call list"
  activity :: activity
  lens :: "nat list"

datatype ('k, 'v) event =
  Got 'k "'v option" | Inserted 'k 'v "'v option" | Removed 'k "'v option" | Contained 'k bool | Cleared nat

record ('s, 'k, 'v) system =
  shared :: "'s sharded"
  threads :: "('k, 'v) thread list"
  history :: "('k, 'v) event list"

text \<open>The critical section of the \<open>i\<close>-th iteration of a loop over the shards.\<close>

definition at_shard :: "nat \<Rightarrow> ('s, 'a) exec \<Rightarrow> ('s sharded, 'a) exec" where
  "at_shard i f sh =
     (if i < length (shards sh)
      then case locked f (shards sh ! i) of (r, m) \<Rightarrow> (r, sh\<lparr>shards := (shards sh)[i := m]\<rparr>)
      else (Panicked IndexOutOfBounds, sh))"

lemma with_shard_at: "with_shard H k f sh = at_shard (shard_index H sh k) f sh"
  by (simp add: with_shard_def at_shard_def Let_def)

type_synonym ('s, 'k, 'v) outcome_of_step = "('k, 'v) thread \<times> 's sharded \<times> ('k, 'v) event list"

text \<open>Run a critical section; a panic ends the thread and leaves the shard to the others.\<close>

definition section_step ::
  "('s sharded, 'a) exec \<Rightarrow> ('k, 'v) thread \<Rightarrow> ('a \<Rightarrow> ('k, 'v) thread \<times> ('k, 'v) event list) \<Rightarrow> 's sharded \<Rightarrow>
   ('s, 'k, 'v) outcome_of_step" where
  "section_step f t next sh = (case f sh of
     (Done a, sh') \<Rightarrow> (fst (next a), sh', snd (next a))
   | (Panicked p, sh') \<Rightarrow> (t\<lparr>program := [], activity := Crashed p\<rparr>, sh', []))"

fun call_step ::
  "('s, 'k, 'v) shard_ops \<Rightarrow> 'k hashing \<Rightarrow> ('k, 'v) thread \<Rightarrow> ('k, 'v) call \<Rightarrow> ('k, 'v) call list \<Rightarrow> 's sharded \<Rightarrow>
   ('s, 'k, 'v) outcome_of_step" where
  "call_step ops H t (Call_get k) cs = section_step (with_shard H k (do_get ops k)) t
     (\<lambda>r. (t\<lparr>program := cs\<rparr>, [Got k r]))"
| "call_step ops H t (Call_insert k v) cs = section_step (with_shard H k (do_insert ops k v)) t
     (\<lambda>r. (t\<lparr>program := cs\<rparr>, [Inserted k v r]))"
| "call_step ops H t (Call_remove k) cs = section_step (with_shard H k (do_remove ops k)) t
     (\<lambda>r. (t\<lparr>program := cs\<rparr>, [Removed k r]))"
| "call_step ops H t (Call_contains_key k) cs = section_step (with_shard H k (do_contains ops k)) t
     (\<lambda>b. (t\<lparr>program := cs\<rparr>, [Contained k b]))"
| "call_step ops H t Call_len cs = (\<lambda>sh. (t\<lparr>program := cs, activity := Counting 0 0\<rparr>, sh, []))"
| "call_step ops H t Call_clear cs = (\<lambda>sh. (t\<lparr>program := cs, activity := Clearing 0\<rparr>, sh, []))"

definition thread_step ::
  "('s, 'k, 'v) shard_ops \<Rightarrow> 'k hashing \<Rightarrow> ('k, 'v) thread \<Rightarrow> 's sharded \<Rightarrow> ('s, 'k, 'v) outcome_of_step option" where
  "thread_step ops H t sh = (case activity t of
     Crashed p \<Rightarrow> None
   | Idle \<Rightarrow> (case program t of [] \<Rightarrow> None | c # cs \<Rightarrow> Some (call_step ops H t c cs sh))
   | Counting i n \<Rightarrow>
       if i < length (shards sh)
       then Some (section_step (at_shard i (do_len ops)) t (\<lambda>m. (t\<lparr>activity := Counting (Suc i) (n + m)\<rparr>, [])) sh)
       else Some (t\<lparr>activity := Idle, lens := lens t @ [n]\<rparr>, sh, [])
   | Clearing i \<Rightarrow>
       if i < length (shards sh)
       then Some (section_step (at_shard i (do_clear ops)) t (\<lambda>_. (t\<lparr>activity := Clearing (Suc i)\<rparr>, [Cleared i])) sh)
       else Some (t\<lparr>activity := Idle\<rparr>, sh, []))"

text \<open>
  What a step does may depend on its environment \<open>e\<close>, which is chosen anew for every step (whether a
  user's \<open>Clone\<close> panics, for instance): \<open>ops e\<close> are the critical sections in environment \<open>e\<close>.
\<close>

inductive system_step ::
  "('e \<Rightarrow> ('s, 'k, 'v) shard_ops) \<Rightarrow> 'k hashing \<Rightarrow> ('s, 'k, 'v) system \<Rightarrow> ('s, 'k, 'v) system \<Rightarrow> bool"
  for ops H where
  step: "i < length (threads S) \<Longrightarrow> thread_step (ops e) H (threads S ! i) (shared S) = Some (t, sh, es) \<Longrightarrow>
    system_step ops H S
      (S\<lparr>shared := sh, threads := (threads S)[i := t], history := history S @ es\<rparr>)"

inductive system_run ::
  "('e \<Rightarrow> ('s, 'k, 'v) shard_ops) \<Rightarrow> 'k hashing \<Rightarrow> ('s, 'k, 'v) system \<Rightarrow> nat \<Rightarrow> ('s, 'k, 'v) system \<Rightarrow> bool"
  for ops H S where
  start: "system_run ops H S 0 S"
| more: "system_run ops H S n T \<Longrightarrow> system_step ops H T U \<Longrightarrow> system_run ops H S (Suc n) U"

inductive_cases system_stepE: "system_step ops H S T"

definition start_system :: "'s sharded \<Rightarrow> ('k, 'v) call list list \<Rightarrow> ('s, 'k, 'v) system" where
  "start_system sh ps =
     \<lparr>shared = sh, threads = map (\<lambda>p. \<lparr>program = p, activity = Idle, lens = []\<rparr>) ps, history = []\<rparr>"

definition finished :: "('k, 'v) thread \<Rightarrow> bool" where
  "finished t \<longleftrightarrow> program t = [] \<and> activity t = Idle"

subsection \<open>Histories\<close>

text \<open>
  The map without a capacity that the events of a history would have built, and the histories that a
  cache may produce: a value is returned only if it is the one that map holds; a cache may have
  forgotten it, but never returns another.
\<close>

fun replay :: "('k \<Rightarrow> nat) \<Rightarrow> ('k, 'v) event \<Rightarrow> ('k \<rightharpoonup> 'v) \<Rightarrow> ('k \<rightharpoonup> 'v)" where
  "replay idx (Inserted k v r) m = m(k \<mapsto> v)"
| "replay idx (Removed k r) m = m(k := None)"
| "replay idx (Cleared i) m = (\<lambda>k. if idx k = i then None else m k)"
| "replay idx (Got k r) m = m"
| "replay idx (Contained k b) m = m"

fun allowed :: "('k, 'v) event \<Rightarrow> ('k \<rightharpoonup> 'v) \<Rightarrow> bool" where
  "allowed (Got k r) m = (r = None \<or> r = m k)"
| "allowed (Inserted k v r) m = (r = None \<or> r = m k)"
| "allowed (Removed k r) m = (r = None \<or> r = m k)"
| "allowed (Contained k b) m = (b \<longrightarrow> m k \<noteq> None)"
| "allowed (Cleared i) m = True"

fun legal_from :: "('k \<Rightarrow> nat) \<Rightarrow> ('k \<rightharpoonup> 'v) \<Rightarrow> ('k, 'v) event list \<Rightarrow> bool" where
  "legal_from idx m [] = True"
| "legal_from idx m (e # es) = (allowed e m \<and> legal_from idx (replay idx e m) es)"

lemma legal_append:
  "legal_from idx m (es @ fs) \<longleftrightarrow> legal_from idx m es \<and> legal_from idx (fold (replay idx) es m) fs"
  by (induction es arbitrary: m) simp_all

subsection \<open>Every schedule ends\<close>

text \<open>The number of steps a thread can still take on \<open>n\<close> shards.\<close>

fun call_weight :: "nat \<Rightarrow> ('k, 'v) call \<Rightarrow> nat" where
  "call_weight n Call_len = n + 2"
| "call_weight n Call_clear = n + 2"
| "call_weight n c = 1"

fun activity_weight :: "nat \<Rightarrow> activity \<Rightarrow> nat" where
  "activity_weight n (Counting i m) = n - i + 1"
| "activity_weight n (Clearing i) = n - i + 1"
| "activity_weight n a = 0"

definition thread_weight :: "nat \<Rightarrow> ('k, 'v) thread \<Rightarrow> nat" where
  "thread_weight n t = sum_list (map (call_weight n) (program t)) + activity_weight n (activity t)"

definition system_weight :: "('s, 'k, 'v) system \<Rightarrow> nat" where
  "system_weight S = sum_list (map (thread_weight (length (shards (shared S)))) (threads S))"

lemma with_shard_length: "with_shard H k f sh = (r, sh') \<Longrightarrow> length (shards sh') = length (shards sh)"
  by (auto simp: with_shard_def Let_def split: if_splits prod.splits)

lemma at_shard_length: "at_shard i f sh = (r, sh') \<Longrightarrow> length (shards sh') = length (shards sh)"
  by (auto simp: at_shard_def split: if_splits prod.splits)

lemma section_step_cases:
  assumes "section_step f t next sh = (t', sh', es)"
  obtains a where "f sh = (Done a, sh')" and "t' = fst (next a)" and "es = snd (next a)"
    | p where "f sh = (Panicked p, sh')" and "t' = t\<lparr>program := [], activity := Crashed p\<rparr>" and "es = []"
  using assms by (auto simp: section_step_def split: prod.splits outcome.splits)

lemma call_weight_pos: "0 < call_weight n c"
  by (cases c) simp_all

lemma thread_step_weight:
  assumes "thread_step ops H t sh = Some (t', sh', es)"
  shows "length (shards sh') = length (shards sh)"
    and "thread_weight (length (shards sh)) t' < thread_weight (length (shards sh)) t"
proof -
  have "length (shards sh') = length (shards sh) \<and>
      thread_weight (length (shards sh)) t' < thread_weight (length (shards sh)) t"
  proof (cases "activity t")
    case Idle
    with assms obtain c cs where "program t = c # cs" "call_step ops H t c cs sh = (t', sh', es)"
      by (auto simp: thread_step_def split: list.splits)
    with Idle show ?thesis
      by (cases c) (auto simp: thread_weight_def call_weight_pos
          elim!: section_step_cases dest: with_shard_length)
  next
    case (Counting i n)
    with assms show ?thesis
      by (auto simp: thread_step_def thread_weight_def split: if_splits elim!: section_step_cases dest: at_shard_length)
  next
    case (Clearing i)
    with assms show ?thesis
      by (auto simp: thread_step_def thread_weight_def split: if_splits elim!: section_step_cases dest: at_shard_length)
  next
    case (Crashed p)
    with assms show ?thesis by (simp add: thread_step_def)
  qed
  then show "length (shards sh') = length (shards sh)"
    and "thread_weight (length (shards sh)) t' < thread_weight (length (shards sh)) t" by blast+
qed

lemma sum_list_update_less:
  fixes f :: "'a \<Rightarrow> nat"
  assumes "i < length xs" and "f y < f (xs ! i)"
  shows "sum_list (map f (xs[i := y])) < sum_list (map f xs)"
  using assms by (induction xs arbitrary: i) (auto split: nat.splits)

lemma system_step_weight: "system_step ops H S T \<Longrightarrow> system_weight T < system_weight S"
  by (erule system_stepE) (auto simp: system_weight_def thread_step_weight(1) intro!: sum_list_update_less thread_step_weight(2))

lemma system_run_weight: "system_run ops H S n T \<Longrightarrow> n + system_weight T \<le> system_weight S"
  by (induction rule: system_run.induct) (auto dest: system_step_weight)

lemma system_step_length: "system_step ops H S T \<Longrightarrow> length (shards (shared T)) = length (shards (shared S))"
  by (erule system_stepE) (simp add: thread_step_weight(1))

lemma system_run_length: "system_run ops H S n T \<Longrightarrow> length (shards (shared T)) = length (shards (shared S))"
  by (induction rule: system_run.induct) (simp_all add: system_step_length)

lemma stuck_thread: "thread_step ops H t sh = None \<Longrightarrow> finished t \<or> (\<exists>p. activity t = Crashed p)"
  by (auto simp: thread_step_def finished_def split: activity.splits list.splits if_splits)

lemma stuck_system:
  assumes "\<forall>T. \<not> system_step ops H S T" and "t \<in> set (threads S)"
  shows "finished t \<or> (\<exists>p. activity t = Crashed p)"
proof -
  obtain i where i: "i < length (threads S)" "t = threads S ! i"
    using assms(2) by (auto simp: in_set_conv_nth)
  have "thread_step (ops undefined) H t (shared S) = None"
  proof (rule ccontr)
    assume "thread_step (ops undefined) H t (shared S) \<noteq> None"
    then obtain t' sh es where "thread_step (ops undefined) H (threads S ! i) (shared S) = Some (t', sh, es)"
      using i(2) by auto
    from system_step.step [of i S ops undefined H, OF i(1) this] assms(1) show False by blast
  qed
  then show ?thesis by (rule stuck_thread)
qed

end
