(* ===== verification/Schedules.thy ===== *)
theory Schedules
  imports Interleaving
begin

section \<open>What holds in every schedule\<close>

text \<open>
  The contract of a shared shard, \<open>atomic_contract\<close>: what one critical section owes to the others. It
  asks less than \<open>shard_contract\<close>: a section may forget entries, may depend on the environment of its
  step, and may panic, as long as it leaves a well-formed shard that binds no key to anything but its
  latest value. From it follow, for every number of threads, program and schedule, the legality of the
  history and the capacity bounds. \<open>atomic_shard\<close> is the case of a shard that meets \<open>shard_contract\<close>.
\<close>

definition thread_ok :: "panic set \<Rightarrow> nat \<Rightarrow> nat \<Rightarrow> ('k, 'v) thread \<Rightarrow> bool" where
  "thread_ok panics n b t \<longleftrightarrow> (case activity t of
       Crashed p \<Rightarrow> p \<in> panics | Counting i m \<Rightarrow> i \<le> n \<and> m \<le> i * b | _ \<Rightarrow> True) \<and>
     (\<forall>m \<in> set (lens t). m \<le> n * b)"

definition system_inv ::
  "('s \<Rightarrow> bool) \<Rightarrow> ('s \<Rightarrow> nat) \<Rightarrow> ('s \<Rightarrow> 'k \<Rightarrow> 'v option) \<Rightarrow> panic set \<Rightarrow> 'k hashing \<Rightarrow> nat \<Rightarrow> ('k \<Rightarrow> nat) \<Rightarrow>
   ('s, 'k, 'v) system \<Rightarrow> bool" where
  "system_inv ok bound view panics H b idx S \<longleftrightarrow>
     sharded_inv ok bound view H b (shared S) \<and> (\<forall>k. shard_index H (shared S) k = idx k) \<and>
     sharded_view view H (shared S) \<subseteq>\<^sub>m fold (replay idx) (history S) Map.empty \<and>
     legal_from idx Map.empty (history S) \<and>
     (\<forall>t \<in> set (threads S). thread_ok panics (length (shards (shared S))) b t)"

lemma shard_index_mask: "shard_mask sh' = shard_mask sh \<Longrightarrow> shard_index H sh' k = shard_index H sh k"
  by (simp add: shard_index_def)

lemma at_shard_mask: "at_shard i f sh = (r, sh') \<Longrightarrow> shard_mask sh' = shard_mask sh"
  by (auto simp: at_shard_def split: if_splits prod.splits)

text \<open>A shard exchanged for a well-formed one, and what that does to the content of the cache.\<close>

lemma at_shard_section:
  assumes inv: "sharded_inv ok bound view H b sh" and i: "i < length (shards sh)"
    and run: "f (content (shards sh ! i)) = (r, s')" and s': "ok s'" "bound s' = b"
    and routed: "\<And>k. view s' k \<noteq> None \<Longrightarrow> shard_index H sh k = i"
  obtains sh' where "at_shard i f sh = (r, sh')" and "sharded_inv ok bound view H b sh'"
    and "\<And>k. shard_index H sh' k = shard_index H sh k"
    and "sharded_view view H sh' = (\<lambda>k. if shard_index H sh k = i then view s' k else sharded_view view H sh k)"
proof -
  let ?m = "\<lparr>content = s', poisoned = poisoned (shards sh ! i) \<or> panicked r\<rparr>"
  let ?sh = "sh\<lparr>shards := (shards sh)[i := ?m]\<rparr>"
  have "at_shard i f sh = (r, ?sh)" using i run by (simp add: at_shard_def locked_def)
  moreover have "sharded_inv ok bound view H b ?sh"
    using inv s' routed i by (auto simp: sharded_inv_def nth_list_update split: if_splits)
  moreover have "sharded_view view H ?sh = (\<lambda>k. if shard_index H sh k = i then view s' k else sharded_view view H sh k)"
    using i by (auto simp: sharded_view_def fun_eq_iff)
  ultimately show ?thesis by (intro that) simp_all
qed

lemma map_leD: "V \<subseteq>\<^sub>m m \<Longrightarrow> V k = None \<or> V k = m k"
  unfolding map_le_def by (metis domIff)

lemma upd_same_le: "V \<subseteq>\<^sub>m M(k := M k) \<Longrightarrow> M \<subseteq>\<^sub>m m \<Longrightarrow> V \<subseteq>\<^sub>m m"
  by (simp add: fun_upd_idem map_le_trans)

lemma upd_le: "V \<subseteq>\<^sub>m M(k := x) \<Longrightarrow> M \<subseteq>\<^sub>m m \<Longrightarrow> V \<subseteq>\<^sub>m m(k := x)"
  by (erule map_le_trans) (rule map_le_upd)

lemma inserted_le:
  assumes "V \<subseteq>\<^sub>m m" and "\<And>j. j \<noteq> k \<Longrightarrow> V' j = V j \<or> V' j = None" and "V' k = Some v \<or> V' k = None"
  shows "V' \<subseteq>\<^sub>m m(k \<mapsto> v)"
  unfolding map_le_def
proof
  fix j assume "j \<in> dom V'"
  then have j: "V' j \<noteq> None" by blast
  show "V' j = (m(k \<mapsto> v)) j"
  proof (cases "j = k")
    case True
    with assms(3) j show ?thesis by auto
  next
    case False
    have eq: "V' j = V j" using assms(2) [OF False] j by auto
    have "V j \<noteq> None" using j unfolding eq .
    then have "V j = m j" using map_leD [OF assms(1), of j] by auto
    then show ?thesis unfolding fun_upd_other [OF False] eq .
  qed
qed

text \<open>What a critical section may return: a value of which \<open>Q\<close> holds, or a panic out of \<open>P\<close>.\<close>

definition returns :: "panic set \<Rightarrow> ('a \<Rightarrow> bool) \<Rightarrow> 'a outcome \<Rightarrow> bool" where
  "returns P Q r = (case r of Done a \<Rightarrow> Q a | Panicked p \<Rightarrow> p \<in> P)"

lemma returns_simps [simp]: "returns P Q (Done a) = Q a" "returns P Q (Panicked p) = (p \<in> P)"
  by (simp_all add: returns_def)

text \<open>
  What a critical section that rebinds \<open>k\<close> to \<open>x\<close> may leave behind. One that panics has not rebound
  it; both may have forgotten entries.
\<close>

definition leaves ::
  "('s \<Rightarrow> bool) \<Rightarrow> ('s \<Rightarrow> nat) \<Rightarrow> ('s \<Rightarrow> 'k \<Rightarrow> 'v option) \<Rightarrow> 's \<Rightarrow> 'k \<Rightarrow> 'v option \<Rightarrow> 'a outcome \<Rightarrow> 's \<Rightarrow> bool" where
  "leaves ok bound view s k x r s' \<longleftrightarrow> ok s' \<and> bound s' = bound s \<and>
     (case r of Done _ \<Rightarrow> view s' \<subseteq>\<^sub>m (view s)(k := x) | Panicked _ \<Rightarrow> view s' \<subseteq>\<^sub>m view s)"

lemma leaves_same:
  "leaves ok bound view s k (view s k) r s' \<longleftrightarrow> ok s' \<and> bound s' = bound s \<and> view s' \<subseteq>\<^sub>m view s"
  by (simp add: leaves_def split: outcome.split)

lemma leaves_Done:
  "leaves ok bound view s k x (Done a) s' \<longleftrightarrow> ok s' \<and> bound s' = bound s \<and> view s' \<subseteq>\<^sub>m (view s)(k := x)"
  by (simp add: leaves_def)

text \<open>Such a section on the shard of \<open>k\<close> does to the cache what it does to the shard.\<close>

lemma with_shard_leaves:
  assumes inv: "sharded_inv ok bound view H b sh"
    and run: "f (content (shards sh ! shard_index H sh k)) = (r, s')"
    and law: "leaves ok bound view (content (shards sh ! shard_index H sh k)) k x r s'"
  obtains sh' where "with_shard H k f sh = (r, sh')" and "sharded_inv ok bound view H b sh'"
    and "\<And>j. shard_index H sh' j = shard_index H sh j"
    and "case r of Done _ \<Rightarrow> sharded_view view H sh' \<subseteq>\<^sub>m (sharded_view view H sh)(k := x)
         | Panicked _ \<Rightarrow> sharded_view view H sh' \<subseteq>\<^sub>m sharded_view view H sh"
proof -
  let ?i = "shard_index H sh k"
  let ?V = "view (content (shards sh ! ?i))"
  note i = sharded_viewD [OF inv, of k]
  have le: "view s' \<subseteq>\<^sub>m ?V(k := x) \<or> view s' \<subseteq>\<^sub>m ?V"
    using law by (auto simp: leaves_def split: outcome.splits)
  have routed: "shard_index H sh j = ?i" if "view s' j \<noteq> None" for j
  proof (cases "j = k")
    case False
    with le that have "?V j \<noteq> None" by (auto dest!: map_leD [of _ _ j])
    with inv i(1) show ?thesis by (simp add: sharded_inv_def)
  qed simp
  have at: "sharded_view view H sh j = ?V j" if "shard_index H sh j = ?i" for j
    using that by (simp add: sharded_view_def)
  obtain sh' where sh': "at_shard ?i f sh = (r, sh')" "sharded_inv ok bound view H b sh'"
      "\<And>j. shard_index H sh' j = shard_index H sh j"
      "sharded_view view H sh' = (\<lambda>j. if shard_index H sh j = ?i then view s' j else sharded_view view H sh j)"
    by (rule at_shard_section [where ok = ok and bound = bound and view = view and f = f, OF inv i(1) run _ _ routed])
      (use law i(3) in \<open>auto simp: leaves_def\<close>)
  have "case r of Done _ \<Rightarrow> sharded_view view H sh' \<subseteq>\<^sub>m (sharded_view view H sh)(k := x)
       | Panicked _ \<Rightarrow> sharded_view view H sh' \<subseteq>\<^sub>m sharded_view view H sh"
    using law at unfolding sh'(4) leaves_def map_le_def
    by (auto split: outcome.splits if_splits simp: dom_def)
  with sh'(1-3) show ?thesis by (intro that) (simp_all add: with_shard_at)
qed

text \<open>A resource of which every critical section uses up at most one unit of its shard's.\<close>

lemma section_step_used:
  assumes "section_step f t next sh = (t', sh', es)" and "used_le used (Suc n) (snd (f sh))"
  shows "used_le used (Suc n) sh'"
  using assms by (auto elim!: section_step_cases)

lemma at_shard_used:
  assumes "used_le used n sh" and "uses_one used f"
  shows "used_le used (Suc n) (snd (at_shard i f sh))"
proof (cases "i < length (shards sh)")
  case True
  then have "used (content (shards sh ! i)) \<le> n" using assms(1) by (simp add: used_le_def)
  from used_le_update [OF assms(1) locked_used [OF assms(2) this]] True show ?thesis
    by (simp add: at_shard_def split: prod.split) (metis snd_conv)
next
  case False
  then show ?thesis using used_le_Suc [OF assms(1)] by (simp add: at_shard_def)
qed

subsection \<open>The contract\<close>

locale atomic_contract =
  fixes ok :: "'s \<Rightarrow> bool" and bound :: "'s \<Rightarrow> nat" and view :: "'s \<Rightarrow> 'k \<Rightarrow> 'v option"
    and ops :: "'e \<Rightarrow> ('s, 'k, 'v) shard_ops" and panics :: "panic set"
    and used :: "'s \<Rightarrow> nat" and limit :: nat
  assumes get_leaves: "ok s \<Longrightarrow> used s < limit \<Longrightarrow> do_get (ops e) k s = (r, s') \<Longrightarrow>
      leaves ok bound view s k (view s k) r s' \<and> returns panics (\<lambda>x. x = None \<or> x = view s k) r"
    and insert_leaves: "ok s \<Longrightarrow> used s < limit \<Longrightarrow> do_insert (ops e) k v s = (r', s') \<Longrightarrow>
      leaves ok bound view s k (Some v) r' s' \<and> returns panics (\<lambda>x. x = None \<or> x = view s k) r'"
    and remove_leaves: "ok s \<Longrightarrow> used s < limit \<Longrightarrow> do_remove (ops e) k s = (r', s') \<Longrightarrow>
      leaves ok bound view s k None r' s' \<and> returns panics (\<lambda>x. x = None \<or> x = view s k) r'"
    and contains_leaves: "ok s \<Longrightarrow> used s < limit \<Longrightarrow> do_contains (ops e) k s = (rb, s') \<Longrightarrow>
      leaves ok bound view s k (view s k) rb s' \<and> returns panics (\<lambda>b. b \<longrightarrow> view s k \<noteq> None) rb"
    and len_leaves: "ok s \<Longrightarrow> used s < limit \<Longrightarrow> do_len (ops e) s = (rn, s') \<Longrightarrow>
      ok s' \<and> bound s' = bound s \<and> view s' \<subseteq>\<^sub>m view s \<and> returns panics (\<lambda>n. n \<le> bound s) rn"
    and clear_leaves: "ok s \<Longrightarrow> used s < limit \<Longrightarrow> do_clear (ops e) s = (ru, s') \<Longrightarrow>
      ok s' \<and> bound s' = bound s \<and> view s' \<subseteq>\<^sub>m view s \<and> returns panics (\<lambda>_. view s' = Map.empty) ru"
    and size_bound: "ok s \<Longrightarrow> finite (dom (view s)) \<and> card (dom (view s)) \<le> bound s"
    and ops_used: "uses_one used (do_get (ops e) k)" "uses_one used (do_insert (ops e) k v)"
      "uses_one used (do_remove (ops e) k)" "uses_one used (do_contains (ops e) k)"
      "uses_one used (do_len (ops e))" "uses_one used (do_clear (ops e))"
begin

lemma call_step_law:
  assumes inv: "sharded_inv ok bound view H b sh" and idx: "\<And>k. shard_index H sh k = idx k"
    and used: "\<And>k. used (content (shards sh ! shard_index H sh k)) < limit"
    and le: "sharded_view view H sh \<subseteq>\<^sub>m m"
    and step: "call_step (ops e) H t c cs sh = (t', sh', es)"
  shows "sharded_inv ok bound view H b sh' \<and> (\<forall>k. shard_index H sh' k = idx k) \<and>
    sharded_view view H sh' \<subseteq>\<^sub>m fold (replay idx) es m \<and> legal_from idx m es \<and>
    lens t' = lens t \<and> activity t' \<in> {activity t, Counting 0 0, Clearing 0} \<union> Crashed ` panics"
proof -
  note le' = map_leD [OF le]
  let ?s = "\<lambda>k. content (shards sh ! shard_index H sh k)"
  have view: "sharded_view view H sh k = view (?s k) k" for k by (simp add: sharded_view_def)
  note s = sharded_viewD(2) [OF inv] used
  have key: "sharded_inv ok bound view H b sh' \<and> (\<forall>k. shard_index H sh' k = idx k) \<and>
      ((\<exists>a. t' = fst (next a) \<and> es = snd (next a) \<and> Q a \<and>
          sharded_view view H sh' \<subseteq>\<^sub>m m(k := x) \<and> (x = view (?s k) k \<longrightarrow> sharded_view view H sh' \<subseteq>\<^sub>m m)) \<or>
       (\<exists>p \<in> panics. t' = t\<lparr>program := [], activity := Crashed p\<rparr> \<and> es = [] \<and> sharded_view view H sh' \<subseteq>\<^sub>m m))"
    if step: "section_step (with_shard H k f) t next sh = (t', sh', es)"
      and law: "\<And>r s'. f (?s k) = (r, s') \<Longrightarrow> leaves ok bound view (?s k) k x r s' \<and> returns panics Q r"
    for f :: "('s, 'r) exec" and k x Q "next"
  proof -
    obtain r s' where run: "f (?s k) = (r, s')" by fastforce
    from law [OF this] have lv: "leaves ok bound view (?s k) k x r s'" and ret: "returns panics Q r" by simp_all
    obtain sh1 where sh1: "with_shard H k f sh = (r, sh1)" "sharded_inv ok bound view H b sh1"
        "\<And>j. shard_index H sh1 j = shard_index H sh j"
        "case r of Done _ \<Rightarrow> sharded_view view H sh1 \<subseteq>\<^sub>m (sharded_view view H sh)(k := x)
         | Panicked _ \<Rightarrow> sharded_view view H sh1 \<subseteq>\<^sub>m sharded_view view H sh"
      by (rule with_shard_leaves [where ok = ok and bound = bound and view = view and f = f and k = k and x = x,
            OF inv run lv]) blast
    show ?thesis
      using step sh1 ret idx map_le_trans [OF _ le] upd_le [OF _ le] upd_same_le [OF _ le]
      by (cases r) (auto simp: section_step_def view)
  qed
  show ?thesis
  proof (cases c)
    case (Call_get k)
    with key [OF step [unfolded Call_get call_step.simps] get_leaves [where e = e, OF s]] le' [of k]
    show ?thesis by (auto simp: view)
  next
    case (Call_insert k v)
    with key [OF step [unfolded Call_insert call_step.simps] insert_leaves [where e = e and v = v, OF s]] le' [of k]
    show ?thesis by (auto simp: view)
  next
    case (Call_remove k)
    with key [OF step [unfolded Call_remove call_step.simps] remove_leaves [where e = e, OF s]] le' [of k]
    show ?thesis by (auto simp: view)
  next
    case (Call_contains_key k)
    with key [OF step [unfolded Call_contains_key call_step.simps] contains_leaves [where e = e, OF s]] le' [of k]
    show ?thesis by (auto simp: view) metis
  next
    case Call_len
    with step inv idx le show ?thesis by auto
  next
    case Call_clear
    with step inv idx le show ?thesis by auto
  qed
qed

lemma sharded_size:
  assumes inv: "sharded_inv ok bound view H b sh"
  shows "card (dom (sharded_view view H sh)) \<le> length (shards sh) * b"
proof -
  let ?D = "\<lambda>i. dom (view (content (shards sh ! i)))"
  have D: "finite (?D i)" "card (?D i) \<le> b" if "i < length (shards sh)" for i
    using size_bound [of "content (shards sh ! i)"] inv that by (simp_all add: sharded_inv_def)
  have "dom (sharded_view view H sh) = {k. k \<in> ?D (shard_index H sh k)}"
    by (auto simp: sharded_view_def)
  also have "card \<dots> = (\<Sum>i < length (shards sh). card (?D i))"
    by (rule card_routed [OF D(1) _ sharded_viewD(1) [OF inv]]) (use inv in \<open>auto simp: sharded_inv_def\<close>)
  also have "\<dots> \<le> of_nat (card {..<length (shards sh)}) * b"
    by (rule sum_bounded_above) (simp add: D(2))
  finally show ?thesis by simp
qed

lemma thread_step_law:
  assumes inv: "sharded_inv ok bound view H b sh" and idx: "\<And>k. shard_index H sh k = idx k"
    and used: "used_le used n sh" "n < limit" and le: "sharded_view view H sh \<subseteq>\<^sub>m m"
    and ok: "thread_ok panics (length (shards sh)) b t"
    and step: "thread_step (ops e) H t sh = Some (t', sh', es)"
  shows "sharded_inv ok bound view H b sh' \<and> (\<forall>k. shard_index H sh' k = idx k) \<and>
    sharded_view view H sh' \<subseteq>\<^sub>m fold (replay idx) es m \<and> legal_from idx m es \<and>
    thread_ok panics (length (shards sh)) b t'"
proof -
  let ?s = "\<lambda>i. content (shards sh ! i)"
  have lt: "used (?s i) < limit" if "i < length (shards sh)" for i
    using used that by (auto simp: used_le_def intro: le_less_trans)
  have s: "ok (?s i)" "bound (?s i) = b" "used (?s i) < limit" if "i < length (shards sh)" for i
    using inv lt [OF that] that by (simp_all add: sharded_inv_def)
  have at: "sharded_view view H sh k = view (?s (shard_index H sh k)) k" for k by (simp add: sharded_view_def)
  have here: "sharded_inv ok bound view H b sh' \<and> (\<forall>k. shard_index H sh' k = idx k) \<and>
      ((\<exists>a V. t' = fst (next a) \<and> es = snd (next a) \<and> Q a V \<and>
          sharded_view view H sh' = (\<lambda>k. if idx k = i then V k else sharded_view view H sh k)) \<or>
       (\<exists>p \<in> panics. t' = t\<lparr>program := [], activity := Crashed p\<rparr> \<and> es = [])) \<and>
      sharded_view view H sh' \<subseteq>\<^sub>m sharded_view view H sh"
    if step: "section_step (at_shard i f) t next sh = (t', sh', es)" and i: "i < length (shards sh)"
      and law: "\<And>r s'. f (?s i) = (r, s') \<Longrightarrow> ok s' \<and> bound s' = bound (?s i) \<and> view s' \<subseteq>\<^sub>m view (?s i) \<and>
        returns panics (\<lambda>a. Q a (view s')) r"
    for f :: "('s, 'r) exec" and i Q "next"
  proof -
    obtain r s' where run: "f (?s i) = (r, s')" by fastforce
    note lw = law [OF this]
    have sub: "view s' k = None \<or> view s' k = view (?s i) k" for k
      by (rule map_leD) (use lw in simp)
    have routed: "shard_index H sh k = i" if "view s' k \<noteq> None" for k
      using sub [of k] that inv i by (auto simp: sharded_inv_def)
    obtain sh1 where sh1: "at_shard i f sh = (r, sh1)" "sharded_inv ok bound view H b sh1"
        "\<And>j. shard_index H sh1 j = shard_index H sh j"
        "sharded_view view H sh1 = (\<lambda>k. if shard_index H sh k = i then view s' k else sharded_view view H sh k)"
      by (rule at_shard_section [where ok = ok and bound = bound and view = view and f = f, OF inv i run _ _ routed])
        (use lw s(2) [OF i] in auto)
    have "sharded_view view H sh1 \<subseteq>\<^sub>m sharded_view view H sh"
      unfolding map_le_def
    proof
      fix k assume "k \<in> dom (sharded_view view H sh1)"
      then show "sharded_view view H sh1 k = sharded_view view H sh k"
        using sub [of k] by (cases "shard_index H sh k = i") (auto simp: sh1(4) at)
    qed
    then show ?thesis
      using step sh1 lw idx by (cases r) (auto simp: section_step_def)
  qed
  show ?thesis
  proof (cases "activity t")
    case Idle
    with step obtain c cs where "call_step (ops e) H t c cs sh = (t', sh', es)"
      by (auto simp: thread_step_def split: list.splits)
    with call_step_law [OF inv idx s(3) [OF sharded_viewD(1) [OF inv]] le this] ok Idle
    show ?thesis by (auto simp: thread_ok_def)
  next
    case (Counting i n)
    show ?thesis
    proof (cases "i < length (shards sh)")
      case True
      with Counting step have "section_step (at_shard i (do_len (ops e))) t
          (\<lambda>m. (t\<lparr>activity := Counting (Suc i) (n + m)\<rparr>, [])) sh = (t', sh', es)"
        by (simp add: thread_step_def)
      from here [OF this True len_leaves [where e = e, OF s(1) [OF True] s(3) [OF True]]] s(2) [OF True]
      show ?thesis using ok Counting True map_le_trans [OF _ le] by (auto simp: thread_ok_def)
    next
      case False
      with ok Counting have "i = length (shards sh)" "n \<le> length (shards sh) * b"
        by (auto simp: thread_ok_def)
      with step inv idx le ok Counting False show ?thesis by (auto simp: thread_step_def thread_ok_def)
    qed
  next
    case (Clearing i)
    show ?thesis
    proof (cases "i < length (shards sh)")
      case True
      with Clearing step have "section_step (at_shard i (do_clear (ops e))) t
          (\<lambda>_. (t\<lparr>activity := Clearing (Suc i)\<rparr>, [Cleared i])) sh = (t', sh', es)"
        by (simp add: thread_step_def)
      note h = here [of i _ _ "\<lambda>_ V. V = Map.empty", OF this True clear_leaves [where e = e, OF s(1) [OF True] s(3) [OF True]]]
      have "(\<lambda>k. if idx k = i then None else sharded_view view H sh k) \<subseteq>\<^sub>m replay idx (Cleared i) m"
        using le by (auto simp: map_le_def)
      then show ?thesis using h ok Clearing map_le_trans [OF _ le] by (auto simp: thread_ok_def)
    next
      case False
      with step inv idx le ok Clearing show ?thesis by (auto simp: thread_step_def thread_ok_def)
    qed
  next
    case (Crashed p)
    with step show ?thesis by (simp add: thread_step_def)
  qed
qed

lemma thread_step_used:
  assumes "thread_step (ops e) H t sh = Some (t', sh', es)" and "used_le used n sh"
  shows "used_le used (Suc n) sh'"
proof -
  have call: "used_le used (Suc n) sh'" if "call_step (ops e) H t c cs sh = (t', sh', es)" for c cs
    using that used_le_Suc [OF assms(2)]
    by (cases c) (auto elim!: section_step_used intro: with_shard_used [OF assms(2)] ops_used)
  show ?thesis
    using assms(1) call used_le_Suc [OF assms(2)]
    by (auto simp: thread_step_def split: activity.splits list.splits if_splits
        elim!: section_step_used intro: at_shard_used [OF assms(2)] ops_used)
qed

lemma system_step_inv:
  assumes "system_step ops H S T" and "system_inv ok bound view panics H b idx S"
    and "used_le used n (shared S)" and "n < limit"
  shows "system_inv ok bound view panics H b idx T \<and> used_le used (Suc n) (shared T)"
proof -
  from assms(1) obtain i e t sh es
    where T: "T = S\<lparr>shared := sh, threads := (threads S)[i := t], history := history S @ es\<rparr>"
      and i: "i < length (threads S)" and st: "thread_step (ops e) H (threads S ! i) (shared S) = Some (t, sh, es)"
    by (rule system_stepE)
  have len: "length (shards sh) = length (shards (shared S))" by (rule thread_step_weight [OF st])
  have law: "sharded_inv ok bound view H b sh \<and> (\<forall>k. shard_index H sh k = idx k) \<and>
      sharded_view view H sh \<subseteq>\<^sub>m fold (replay idx) es (fold (replay idx) (history S) Map.empty) \<and>
      legal_from idx (fold (replay idx) (history S) Map.empty) es \<and>
      thread_ok panics (length (shards (shared S))) b t"
    using assms(2) i
    by (intro thread_step_law [OF _ _ assms(3,4) _ _ st]) (simp_all add: system_inv_def)
  then have "system_inv ok bound view panics H b idx T"
    using assms(2) i len unfolding T system_inv_def
    by (auto simp: legal_append dest!: subsetD [OF set_update_subset_insert])
  moreover have "used_le used (Suc n) (shared T)"
    using thread_step_used [OF st assms(3)] by (simp add: T)
  ultimately show ?thesis by blast
qed

lemma system_start_inv:
  assumes "sharded_inv ok bound view H b sh" and "sharded_view view H sh = Map.empty"
  shows "system_inv ok bound view panics H b (shard_index H sh) (start_system sh ps)"
  using assms by (auto simp: system_inv_def start_system_def thread_ok_def)

lemma system_run_inv:
  assumes "system_run ops H S n T" and "n \<le> limit"
    and "system_inv ok bound view panics H b idx S" and "used_le used 0 (shared S)"
  shows "system_inv ok bound view panics H b idx T \<and> used_le used n (shared T)"
  using assms
proof (induction rule: system_run.induct)
  case (more n T U)
  then show ?case using system_step_inv [of H T U b idx n] by simp
qed simp

text \<open>
  From a cache as its constructor built it: whatever the threads do and however they are scheduled,
  a thread has crashed only with one of the panics of its environment, the history is legal, and no
  \<open>len\<close> has returned more than the capacity.
\<close>

lemma every_schedule:
  assumes inv: "cache_inv ok bound view H c" and empty: "cache_view view H c = Map.empty"
    and fresh: "used_le used 0 (sharded_inner c)" and limit: "n \<le> limit"
    and run: "system_run ops H (start_system (sharded_inner c) ps) n S"
  shows "legal_from (shard_index H (sharded_inner c)) Map.empty (history S)"
    and "sharded_view view H (shared S) \<subseteq>\<^sub>m
           fold (replay (shard_index H (sharded_inner c))) (history S) Map.empty"
    and "card (dom (sharded_view view H (shared S))) \<le> unat (total_capacity c)"
    and "\<And>t. t \<in> set (threads S) \<Longrightarrow> (\<forall>p. activity t = Crashed p \<longrightarrow> p \<in> panics) \<and>
           (\<forall>m \<in> set (lens t). m \<le> unat (total_capacity c))"
proof -
  let ?b = "unat (per_shard_capacity (total_capacity c) (shard_count (total_capacity c)))"
  have sh: "sharded_inv ok bound view H ?b (sharded_inner c)" using inv by (simp add: cache_inv_def)
  have "used_le used 0 (shared (start_system (sharded_inner c) ps))"
    using fresh by (simp add: start_system_def)
  with system_run_inv [OF run limit] system_start_inv [OF sh] empty
  have inv': "system_inv ok bound view panics H ?b (shard_index H (sharded_inner c)) S"
    by (simp add: cache_view_def)
  then show "legal_from (shard_index H (sharded_inner c)) Map.empty (history S)"
    and "sharded_view view H (shared S) \<subseteq>\<^sub>m
           fold (replay (shard_index H (sharded_inner c))) (history S) Map.empty"
    by (simp_all add: system_inv_def)
  have n: "length (shards (sharded_inner c)) = unat (shard_count (total_capacity c))"
    using inv Suc_unat_pred [OF shard_count_bounds(1)] by (simp add: cache_inv_def sharded_inv_def)
  have "length (shards (shared S)) = length (shards (sharded_inner c))"
    using system_run_length [OF run] by (simp add: start_system_def)
  then have cap: "length (shards (shared S)) * ?b \<le> unat (total_capacity c)"
    using n inv total_capacity_bound by (simp add: cache_inv_def)
  have sh': "sharded_inv ok bound view H ?b (shared S)" using inv' by (simp add: system_inv_def)
  from sharded_size [OF this] cap show "card (dom (sharded_view view H (shared S))) \<le> unat (total_capacity c)"
    by simp
  show "(\<forall>p. activity t = Crashed p \<longrightarrow> p \<in> panics) \<and> (\<forall>m \<in> set (lens t). m \<le> unat (total_capacity c))"
    if "t \<in> set (threads S)" for t
  proof -
    have "thread_ok panics (length (shards (shared S))) ?b t" using inv' that by (simp add: system_inv_def)
    then have "\<forall>p. activity t = Crashed p \<longrightarrow> p \<in> panics" "\<forall>m \<in> set (lens t). m \<le> length (shards (shared S)) * ?b"
      by (auto simp: thread_ok_def)
    with cap show ?thesis using order_trans by blast
  qed
qed

end

subsection \<open>Shards that meet the contract of the Cache trait\<close>

text \<open>
  A shard whose removals return exactly what was there, and which is ready as long as a resource of
  which every critical section uses at most one unit lasts. \<open>get_in e\<close> is the \<open>get\<close> in environment
  \<open>e\<close>: it may panic with one of \<open>panics\<close>, and does to the content what \<open>get\<close> does.
\<close>

locale atomic_shard =
  shard_contract ok ready bound view get insert remove contains len clear
  for ok :: "'s \<Rightarrow> bool" and ready :: "'s \<Rightarrow> bool" and bound :: "'s \<Rightarrow> nat"
    and view :: "'s \<Rightarrow> 'k \<Rightarrow> 'v option"
    and get :: "'k \<Rightarrow> ('s, 'v option) exec" and insert :: "'k \<Rightarrow> 'v \<Rightarrow> ('s, 'v option) exec"
    and remove :: "'k \<Rightarrow> ('s, 'v option) exec" and contains :: "'k \<Rightarrow> ('s, bool) exec"
    and len :: "('s, nat) exec" and clear :: "('s, unit) exec" +
  fixes get_in :: "'e \<Rightarrow> 'k \<Rightarrow> ('s, 'v option) exec"
    and panics :: "panic set"
    and used :: "'s \<Rightarrow> nat"
    and limit :: nat
  assumes remove_exact: "ok s \<Longrightarrow> runs_to (remove k) s (\<lambda>r s'. r = view s k)"
    and get_in_law: "ok s \<Longrightarrow> ready s \<Longrightarrow> get_in e k s = (r, s') \<Longrightarrow>
      ok s' \<and> bound s' = bound s \<and> view s' = view s \<and> returns panics (\<lambda>x. x = view s k) r"
    and ready_used: "used s < limit \<Longrightarrow> ready s"
    and get_used: "uses_one used (get_in e k)"
    and insert_used: "uses_one used (insert k v)"
    and remove_used: "uses_one used (remove k)"
    and contains_used: "uses_one used (contains k)"
    and len_used: "uses_one used len"
    and clear_used: "uses_one used clear"

sublocale atomic_shard \<subseteq> atomic_contract ok bound view
  "\<lambda>e. \<lparr>do_get = get_in e, do_insert = insert, do_remove = remove, do_contains = contains,
     do_len = len, do_clear = clear\<rparr>" panics used limit
proof unfold_locales
  fix s :: 's and s' and k :: 'k and v :: 'v and e :: 'e
  assume ok: "ok s" and lt: "used s < limit"
  let ?ops = "\<lparr>do_get = get_in e, do_insert = insert, do_remove = remove, do_contains = contains,
     do_len = len, do_clear = clear\<rparr>"
  note ready = ready_used [OF lt]
  have by_law: "P r s'" if "f s = (r, s')" and "runs_to f s Q" and "\<And>a. Q a s' \<Longrightarrow> P (Done a) s'"
    for f :: "('s, 'r) exec" and r Q P
    using that by (auto simp: runs_to_def)
  show "leaves ok bound view s k (view s k) r s' \<and> returns panics (\<lambda>x. x = None \<or> x = view s k) r"
    if "do_get ?ops k s = (r, s')" for r
    using get_in_law [OF ok ready, of e k r s'] that by (simp add: leaves_same) (cases r; simp)
  show "leaves ok bound view s k (Some v) r s' \<and> returns panics (\<lambda>x. x = None \<or> x = view s k) r"
    if "do_insert ?ops k v s = (r, s')" for r
    by (rule by_law [OF _ insert_law [OF ok ready, of k v]])
      (use that in \<open>auto simp: leaves_Done intro!: inserted_le [OF map_le_refl]\<close>)
  show "leaves ok bound view s k None r s' \<and> returns panics (\<lambda>x. x = None \<or> x = view s k) r"
    if "do_remove ?ops k s = (r, s')" for r
    by (rule by_law [OF _ runs_to_both [OF remove_law [OF ok] remove_exact [OF ok], of k]])
      (use that in \<open>auto simp: leaves_Done\<close>)
  show "leaves ok bound view s k (view s k) r s' \<and> returns panics (\<lambda>b. b \<longrightarrow> view s k \<noteq> None) r"
    if "do_contains ?ops k s = (r, s')" for r
    by (rule by_law [OF _ contains_law [OF ok, of k]]) (use that in \<open>auto simp: leaves_same\<close>)
  show "ok s' \<and> bound s' = bound s \<and> view s' \<subseteq>\<^sub>m view s \<and> returns panics (\<lambda>n. n \<le> bound s) r"
    if "do_len ?ops s = (r, s')" for r
    by (rule by_law [OF _ len_law [OF ok]]) (use that in auto)
  show "ok s' \<and> bound s' = bound s \<and> view s' \<subseteq>\<^sub>m view s \<and> returns panics (\<lambda>_. view s' = Map.empty) r"
    if "do_clear ?ops s = (r, s')" for r
    by (rule by_law [OF _ clear_law [OF ok]]) (use that in auto)
next
  fix s assume "ok s"
  then show "finite (dom (view s)) \<and> card (dom (view s)) \<le> bound s"
    using len_law [of s] finite_view [of s] by (auto simp: runs_to_def)
qed (simp_all add: get_used insert_used remove_used contains_used len_used clear_used)

end
