(* ===== verification/Hash_Map.thy ===== *)
theory Hash_Map
  imports Prelude
begin

section \<open>The standard library's HashMap, as far as the caches use it\<close>

text \<open>
  Every cache keeps a \<open>std::collections::HashMap\<close>. It is modelled as an association list
  with distinct keys; the order of the list stands for the table's internal order, which
  no cache may rely on. What the caches do rely on is stated once, as the locale
  \<open>finite_map_contract\<close>: the entries as a multiset, and each operation as an equation on it.
\<close>

type_synonym ('k, 'v) hash_map = "('k \<times> 'v) list"

definition hm_empty :: "('k, 'v) hash_map" where
  "hm_empty = []"

definition hm_get :: "('k, 'v) hash_map \<Rightarrow> 'k \<Rightarrow> 'v option" where
  "hm_get m k = map_of m k"

definition hm_contains :: "('k, 'v) hash_map \<Rightarrow> 'k \<Rightarrow> bool" where
  "hm_contains m k = (hm_get m k \<noteq> None)"

definition hm_insert :: "'k \<Rightarrow> 'v \<Rightarrow> ('k, 'v) hash_map \<Rightarrow> ('k, 'v) hash_map" where
  "hm_insert k v m = AList.update k v m"

definition hm_remove :: "'k \<Rightarrow> ('k, 'v) hash_map \<Rightarrow> ('k, 'v) hash_map" where
  "hm_remove k m = AList.delete k m"

definition hm_len :: "('k, 'v) hash_map \<Rightarrow> nat" where
  "hm_len m = length m"

definition hm_ok :: "('k, 'v) hash_map \<Rightarrow> bool" where
  "hm_ok m = distinct (map fst m)"

subsection \<open>The contract\<close>

locale finite_map_contract =
  fixes empty :: "'m"
    and get :: "'m \<Rightarrow> 'k \<Rightarrow> 'v option"
    and insert :: "'k \<Rightarrow> 'v \<Rightarrow> 'm \<Rightarrow> 'm"
    and remove :: "'k \<Rightarrow> 'm \<Rightarrow> 'm"
    and len :: "'m \<Rightarrow> nat"
    and ok :: "'m \<Rightarrow> bool"
    and entries :: "'m \<Rightarrow> ('k \<times> 'v) multiset"
  assumes entries_empty: "entries empty = {#}"
    and entries_insert: "ok m \<Longrightarrow>
      entries (insert k v m) = add_mset (k, v) (filter_mset (\<lambda>e. fst e \<noteq> k) (entries m))"
    and entries_remove: "ok m \<Longrightarrow> entries (remove k m) = filter_mset (\<lambda>e. fst e \<noteq> k) (entries m)"
    and get_entry: "ok m \<Longrightarrow> get m k = Some v \<longleftrightarrow> (k, v) \<in># entries m"
    and len_entries: "len m = size (entries m)"
    and ok_empty: "ok empty"
    and ok_insert: "ok m \<Longrightarrow> ok (insert k v m)"
    and ok_remove: "ok m \<Longrightarrow> ok (remove k m)"
begin

lemma get_None: "ok m \<Longrightarrow> get m k = None \<longleftrightarrow> k \<notin> fst ` set_mset (entries m)"
  using get_entry [of m k] by (cases "get m k") force+

lemma get_empty: "get empty k = None"
  by (simp add: get_None [OF ok_empty] entries_empty)

lemma get_insert_eq: "ok m \<Longrightarrow> get (insert k v m) k = Some v"
  by (simp add: get_entry ok_insert entries_insert)

lemma get_insert_neq:
  assumes "ok m" and "j \<noteq> k"
  shows "get (insert k v m) j = get m j"
proof -
  have "get (insert k v m) j = Some w \<longleftrightarrow> get m j = Some w" for w
    using assms by (simp add: get_entry ok_insert entries_insert)
  then show ?thesis by (metis not_None_eq)
qed

lemma get_remove_eq: "ok m \<Longrightarrow> get (remove k m) k = None"
  by (auto simp: get_None ok_remove entries_remove)

lemma entries_absent: "ok m \<Longrightarrow> get m k = None \<Longrightarrow> filter_mset (\<lambda>e. fst e \<noteq> k) (entries m) = entries m"
  by (auto simp: get_None filter_mset_eq_conv image_iff)

lemma entries_insert_new: "ok m \<Longrightarrow> get m k = None \<Longrightarrow> entries (insert k v m) = add_mset (k, v) (entries m)"
  by (simp add: entries_insert entries_absent)

lemma len_insert_new: "ok m \<Longrightarrow> get m k = None \<Longrightarrow> len (insert k v m) = Suc (len m)"
  by (simp add: len_entries entries_insert_new)

lemma len_remove_le: "ok m \<Longrightarrow> len (remove k m) \<le> len m"
  by (simp add: len_entries entries_remove size_filter_mset_lesseq)

end

subsection \<open>The model meets the contract\<close>

lemma hm_remove_filter: "hm_remove k m = filter (\<lambda>e. fst e \<noteq> k) m"
  by (simp add: hm_remove_def AList.delete_eq case_prod_unfold) (metis)

lemma hm_insert_new: "k \<notin> fst ` set m \<Longrightarrow> hm_insert k v m = m @ [(k, v)]"
  unfolding hm_insert_def by (induction m) auto

lemma mset_hm_insert:
  "distinct (map fst m) \<Longrightarrow>
    mset (hm_insert k v m) = add_mset (k, v) (filter_mset (\<lambda>e. fst e \<noteq> k) (mset m))"
proof (induction m)
  case Nil
  then show ?case by (simp add: hm_insert_def)
next
  case (Cons e m)
  show ?case
  proof (cases "fst e = k")
    case True
    with Cons.prems have "filter_mset (\<lambda>e. fst e \<noteq> k) (mset m) = mset m"
      by (auto simp: filter_mset_eq_conv rev_image_eqI)
    with True show ?thesis by (cases e) (simp add: hm_insert_def)
  next
    case False
    with Cons show ?thesis by (cases e) (simp add: hm_insert_def)
  qed
qed

interpretation hm: finite_map_contract hm_empty hm_get hm_insert hm_remove hm_len hm_ok mset
proof unfold_locales
  fix m :: "('k, 'v) hash_map" and k :: 'k and v :: 'v
  show "mset (hm_empty :: ('k, 'v) hash_map) = {#}" by (simp add: hm_empty_def)
  show "hm_ok (hm_empty :: ('k, 'v) hash_map)" by (simp add: hm_empty_def hm_ok_def)
  show "hm_len m = size (mset m)" by (simp add: hm_len_def)
  assume ok: "hm_ok m"
  show "mset (hm_insert k v m) = add_mset (k, v) (filter_mset (\<lambda>e. fst e \<noteq> k) (mset m))"
    using ok by (simp add: hm_ok_def mset_hm_insert)
  show "mset (hm_remove k m) = filter_mset (\<lambda>e. fst e \<noteq> k) (mset m)"
    by (simp add: hm_remove_filter)
  show "(hm_get m k = Some v) = ((k, v) \<in># mset m)"
    using ok by (simp add: hm_get_def hm_ok_def)
  show "hm_ok (hm_insert k v m)"
    using ok by (simp add: hm_ok_def hm_insert_def distinct_update)
  show "hm_ok (hm_remove k m)"
    using ok by (simp add: hm_ok_def hm_remove_def distinct_delete)
qed

lemma hm_get_insert: "hm_get (hm_insert k v m) j = (if j = k then Some v else hm_get m j)"
  by (simp add: hm_get_def hm_insert_def update_conv')

lemma hm_get_remove: "hm_get (hm_remove k m) j = (if j = k then None else hm_get m j)"
  by (simp add: hm_get_def hm_remove_def delete_conv')

lemma hm_get_empty: "hm_get hm_empty k = None"
  by (simp add: hm_get_def hm_empty_def)

lemma hm_get_map_of: "hm_get m = map_of m"
  by (simp add: hm_get_def fun_eq_iff)

lemma hm_len_empty [simp]: "hm_len hm_empty = 0"
  by (simp add: hm_len_def hm_empty_def)

lemma hm_len_eq_card: "hm_ok m \<Longrightarrow> hm_len m = card (dom (hm_get m))"
  unfolding hm_len_def hm_ok_def
  using distinct_card [of "map fst m"] by (simp add: hm_get_map_of dom_map_of_conv_image_fst)

lemma finite_dom_hm_get: "finite (dom (hm_get m))"
  by (simp add: hm_get_map_of finite_dom_map_of)

lemmas hm_simps = hm_get_insert hm_get_remove hm_get_empty hm_contains_def

end
