(* ===== verification/Arena.thy ===== *)
theory Arena
  imports Hash_Map
begin

section \<open>The arena: a doubly linked list in a vector of slots\<close>

text \<open>
  \<open>LruCache\<close>, \<open>TinyLfuCache\<close> and \<open>SizedCache\<close> keep their entries in an arena: a vector of
  optional nodes with \<open>prev\<close>/\<open>next\<close> indices, a stack of free slots, the list's two ends and a
  hash map from key to slot. The three source files repeat the same text for \<open>alloc\<close>, \<open>dealloc\<close>,
  \<open>unlink\<close>, \<open>push_front\<close> and \<open>promote\<close>; the only differences are further fields of the node (the
  weight of a sized entry) and of \<open>Inner\<close> (capacity, sketch, total weight). Nodes and arenas are
  therefore extensible records here, and one definition of each helper serves the three.
  Indexing a slot out of bounds and the source's \<open>unreachable!()\<close> are panics.
\<close>

record ('k, 'v) node =
  node_key :: 'k
  node_value :: 'v
  node_prev :: "nat option"
  node_next :: "nat option"

record ('k, 'v, 'm) arena =
  nodes :: "('k, 'v, 'm) node_scheme option list"
  free :: "nat list"
  head :: "nat option"
  tail :: "nat option"
  key_map :: "('k, nat) hash_map"

subsection \<open>Vector access\<close>

definition vec_pop :: "'a list \<Rightarrow> ('a \<times> 'a list) option" where
  "vec_pop xs = (if xs = [] then None else Some (last xs, butlast xs))"

text \<open>\<open>self.nodes[idx]\<close>, read and written.\<close>

definition slot :: "nat \<Rightarrow> (('k, 'v, 'm, 'z) arena_scheme, ('k, 'v, 'm) node_scheme option) exec" where
  "slot idx s = (if idx < length (nodes s) then (Done (nodes s ! idx), s)
                 else (Panicked IndexOutOfBounds, s))"

definition put_slot :: "nat \<Rightarrow> ('k, 'v, 'm) node_scheme option \<Rightarrow> (('k, 'v, 'm, 'z) arena_scheme, unit) exec" where
  "put_slot idx x s = (if idx < length (nodes s) then (Done (), s\<lparr>nodes := (nodes s)[idx := x]\<rparr>)
                       else (Panicked IndexOutOfBounds, s))"

text \<open>\<open>.as_ref().unwrap_or_else(|| unreachable!())\<close>.\<close>

definition occupied :: "nat \<Rightarrow> (('k, 'v, 'm, 'z) arena_scheme, ('k, 'v, 'm) node_scheme) exec" where
  "occupied idx = bind_exec (slot idx)
     (\<lambda>x. case x of Some n \<Rightarrow> ret n | None \<Rightarrow> panic_with Unreachable)"

text \<open>\<open>.as_mut().unwrap_or_else(|| unreachable!())\<close> and an assignment through it.\<close>

definition mutate :: "nat \<Rightarrow> (('k, 'v, 'm) node_scheme \<Rightarrow> ('k, 'v, 'm) node_scheme) \<Rightarrow>
    (('k, 'v, 'm, 'z) arena_scheme, unit) exec" where
  "mutate idx f = bind_exec (occupied idx) (\<lambda>n. put_slot idx (Some (f n)))"

text \<open>\<open>if let Some(n) = self.nodes[idx].as_mut()\<close> and an assignment through it.\<close>

definition mutate_if :: "nat \<Rightarrow> (('k, 'v, 'm) node_scheme \<Rightarrow> ('k, 'v, 'm) node_scheme) \<Rightarrow>
    (('k, 'v, 'm, 'z) arena_scheme, unit) exec" where
  "mutate_if idx f = bind_exec (slot idx)
     (\<lambda>x. case x of Some n \<Rightarrow> put_slot idx (Some (f n)) | None \<Rightarrow> ret ())"

subsection \<open>The helpers of \<open>Inner\<close>\<close>

definition alloc :: "('k, 'v, 'm) node_scheme \<Rightarrow> (('k, 'v, 'm, 'z) arena_scheme, nat) exec" where
  "alloc node = bind_exec (gets (\<lambda>s. vec_pop (free s))) (\<lambda>popped. case popped of
      Some (idx, rest) \<Rightarrow>
        seq_exec (modify (\<lambda>s. s\<lparr>free := rest\<rparr>))
        (seq_exec (put_slot idx (Some node)) (ret idx))
    | None \<Rightarrow>
        seq_exec (modify (\<lambda>s. s\<lparr>nodes := nodes s @ [Some node]\<rparr>))
        (gets (\<lambda>s. length (nodes s) - 1)))"

definition dealloc :: "nat \<Rightarrow> (('k, 'v, 'm, 'z) arena_scheme, ('k, 'v, 'm) node_scheme) exec" where
  "dealloc idx = bind_exec (occupied idx) (\<lambda>node.
     seq_exec (put_slot idx None)
     (seq_exec (modify (\<lambda>s. s\<lparr>free := free s @ [idx]\<rparr>)) (ret node)))"

definition unlink :: "nat \<Rightarrow> (('k, 'v, 'm, 'z) arena_scheme, unit) exec" where
  "unlink idx = bind_exec (occupied idx) (\<lambda>n.
     let prv = node_prev n; nxt = node_next n in
     seq_exec (case prv of
         Some p \<Rightarrow> mutate p (\<lambda>m. m\<lparr>node_next := nxt\<rparr>)
       | None \<Rightarrow> modify (\<lambda>s. s\<lparr>head := nxt\<rparr>))
     (seq_exec (case nxt of
         Some q \<Rightarrow> mutate q (\<lambda>m. m\<lparr>node_prev := prv\<rparr>)
       | None \<Rightarrow> modify (\<lambda>s. s\<lparr>tail := prv\<rparr>))
     (mutate_if idx (\<lambda>m. m\<lparr>node_prev := None, node_next := None\<rparr>))))"

definition push_front :: "nat \<Rightarrow> (('k, 'v, 'm, 'z) arena_scheme, unit) exec" where
  "push_front idx = bind_exec (gets head) (\<lambda>old_head.
     seq_exec (mutate_if idx (\<lambda>m. m\<lparr>node_prev := None, node_next := old_head\<rparr>))
     (seq_exec (case old_head of
         Some h \<Rightarrow> mutate_if h (\<lambda>m. m\<lparr>node_prev := Some idx\<rparr>)
       | None \<Rightarrow> modify (\<lambda>s. s\<lparr>tail := Some idx\<rparr>))
     (modify (\<lambda>s. s\<lparr>head := Some idx\<rparr>))))"

definition promote :: "nat \<Rightarrow> (('k, 'v, 'm, 'z) arena_scheme, unit) exec" where
  "promote idx = bind_exec (gets head) (\<lambda>h.
     if h = Some idx then ret () else seq_exec (unlink idx) (push_front idx))"

text \<open>The part of \<open>clear\<close> that the three caches share.\<close>

definition clear_arena :: "('k, 'v, 'm, 'z) arena_scheme \<Rightarrow> ('k, 'v, 'm, 'z) arena_scheme" where
  "clear_arena s = s\<lparr>nodes := [], free := [], head := None, tail := None, key_map := hm_empty\<rparr>"

subsection \<open>Chains of nodes\<close>

definition first_of :: "'a list \<Rightarrow> 'a option \<Rightarrow> 'a option" where
  "first_of xs q = (case xs of [] \<Rightarrow> q | x # _ \<Rightarrow> Some x)"

definition last_of :: "'a option \<Rightarrow> 'a list \<Rightarrow> 'a option" where
  "last_of p xs = (if xs = [] then p else Some (last xs))"

lemma first_of_simps [simp]:
  "first_of [] q = q" "first_of (x # xs) q = Some x"
  "first_of (xs @ ys) q = first_of xs (first_of ys q)"
  by (simp_all add: first_of_def split: list.split)

lemma last_of_simps [simp]:
  "last_of p [] = p" "last_of p (x # xs) = last_of (Some x) xs"
  "last_of p (xs @ ys) = last_of (last_of p xs) ys"
  by (simp_all add: last_of_def)

text \<open>
  \<open>chain N p xs q\<close>: the slots \<open>xs\<close> are occupied and linked in this order, the first one's
  \<open>prev\<close> is \<open>p\<close> and the last one's \<open>next\<close> is \<open>q\<close>.
\<close>

fun chain :: "('k, 'v, 'm) node_scheme option list \<Rightarrow> nat option \<Rightarrow> nat list \<Rightarrow> nat option \<Rightarrow> bool" where
  "chain N p [] q = True"
| "chain N p (x # xs) q =
     (x < length N \<and>
      (case N ! x of None \<Rightarrow> False
       | Some n \<Rightarrow> node_prev n = p \<and> node_next n = first_of xs q) \<and>
      chain N (Some x) xs q)"

lemma chain_append [simp]:
  "chain N p (xs @ ys) q \<longleftrightarrow> chain N p xs (first_of ys q) \<and> chain N (last_of p xs) ys q"
  by (induction N p xs q rule: chain.induct) (auto split: option.splits)

lemma chain_set_other [simp]: "x \<notin> set xs \<Longrightarrow> chain (N[x := y]) p xs q = chain N p xs q"
  by (induction N p xs q rule: chain.induct) auto

lemma chain_grow: "chain N p xs q \<Longrightarrow> chain (N @ [y]) p xs q"
  by (induction N p xs q rule: chain.induct) (auto simp: nth_append)

lemma chain_occupied: "chain N p xs q \<Longrightarrow> x \<in> set xs \<Longrightarrow> x < length N \<and> (\<exists>n. N ! x = Some n)"
  by (induction N p xs q rule: chain.induct) (auto split: option.splits)

lemma chain_set_last:
  assumes "chain N p (xs @ [y]) q" and "y \<notin> set xs" and "N ! y = Some n"
  shows "chain (N[y := Some (n\<lparr>node_next := r\<rparr>)]) p (xs @ [y]) r"
  using assms by simp

lemma chain_set_first:
  assumes "chain N p (y # ys) q" and "y \<notin> set ys" and "N ! y = Some n"
  shows "chain (N[y := Some (n\<lparr>node_prev := r\<rparr>)]) r (y # ys) q"
  using assms by simp

definition dll :: "('k, 'v, 'm) node_scheme option list \<Rightarrow> nat option \<Rightarrow> nat option \<Rightarrow> nat list \<Rightarrow> bool" where
  "dll N h t xs \<longleftrightarrow> chain N None xs None \<and> distinct xs \<and> h = first_of xs None \<and> t = last_of None xs"

text \<open>What a node carries besides its links.\<close>

definition payload :: "('k, 'v, 'm) node_scheme \<Rightarrow> 'k \<times> 'v \<times> 'm" where
  "payload n = (node_key n, node_value n, node.more n)"

definition payloads :: "('k, 'v, 'm) node_scheme option list \<Rightarrow> ('k \<times> 'v \<times> 'm) option list" where
  "payloads N = map (map_option payload) N"

lemma length_payloads [simp]: "length (payloads N) = length N"
  by (simp add: payloads_def)

lemma payloads_relink:
  assumes "N ! i = Some n" and "payload m = payload n"
  shows "payloads (N[i := Some m]) = payloads N"
  using assms by (cases "i < length N")
    (auto simp: payloads_def map_update list_update_same_conv list_update_beyond)

lemma payload_links [simp]:
  "payload (n\<lparr>node_prev := p\<rparr>) = payload n"
  "payload (n\<lparr>node_next := p\<rparr>) = payload n"
  by (simp_all add: payload_def)

end
