(* ===== verification/Arena_Links.thy ===== *)
theory Arena_Links
  imports Arena
begin

section \<open>The list operations of the arena\<close>

text \<open>
  \<open>unlink\<close>, \<open>push_front\<close> and \<open>promote\<close> against the list they maintain: on a well linked arena
  none of them panics, each changes only the links and the two ends, and the order of the list
  changes as its name says. The result is given as an update of the arena's record, so every
  other field, those of the extensions included, is visibly untouched.
\<close>

lemmas exec_unfold = exec_defs seq_exec_def bind_exec_def
lemmas arena_unfold = occupied_def slot_def put_slot_def mutate_def mutate_if_def Let_def

lemma dll_node:
  assumes "dll N h t (ys @ x # zs)"
  obtains n where "x < length N" and "N ! x = Some n"
    and "node_prev n = last_of None ys" and "node_next n = first_of zs None"
  using assms by (auto simp: dll_def split: option.splits)

text \<open>
  The states a list operation may produce: \<open>relink s s'\<close> says that \<open>s'\<close> is \<open>s\<close> with other links,
  \<open>head\<close> and \<open>tail\<close>, and every node still carries the same key, value and extension.
\<close>

definition relink :: "('k, 'v, 'm, 'z) arena_scheme \<Rightarrow> ('k, 'v, 'm, 'z) arena_scheme \<Rightarrow> bool" where
  "relink s s' \<longleftrightarrow> s' = s\<lparr>nodes := nodes s', head := head s', tail := tail s'\<rparr> \<and>
     payloads (nodes s') = payloads (nodes s)"

abbreviation arena_dll :: "('k, 'v, 'm, 'z) arena_scheme \<Rightarrow> nat list \<Rightarrow> bool" where
  "arena_dll s xs \<equiv> dll (nodes s) (head s) (tail s) xs"

lemma relink_refl [simp]: "relink s s"
  by (simp add: relink_def)

lemma relink_trans: "relink s t \<Longrightarrow> relink t u \<Longrightarrow> relink s u"
  by (cases s; cases t; cases u) (simp add: relink_def)

lemma relink_nodes:
  "payloads N = payloads (nodes s) \<Longrightarrow> relink s (s\<lparr>nodes := N, head := h, tail := t\<rparr>)"
  by (cases s) (simp add: relink_def)

lemma relinkE:
  assumes "relink s s'"
  obtains N h t where "s' = s\<lparr>nodes := N, head := h, tail := t\<rparr>" and "payloads N = payloads (nodes s)"
  using assms by (auto simp: relink_def)

text \<open>One write to the links of an occupied slot, or to an end of the list.\<close>

lemma mutate_link:
  assumes "i < length (nodes s)" and "nodes s ! i = Some n" and "payload (f n) = payload n"
  shows "mutate i f s = (Done (), s\<lparr>nodes := (nodes s)[i := Some (f n)]\<rparr>)"
    and "mutate_if i f s = (Done (), s\<lparr>nodes := (nodes s)[i := Some (f n)]\<rparr>)"
    and "relink s (s\<lparr>nodes := (nodes s)[i := Some (f n)]\<rparr>)"
  using assms by (cases s; simp add: exec_unfold arena_unfold relink_def payloads_relink)+

lemma relink_ends [simp]: "relink s (s\<lparr>head := h\<rparr>)" "relink s (s\<lparr>tail := h\<rparr>)"
  by (cases s; simp add: relink_def)+

lemma unlink_prev:
  assumes "chain (nodes s) None (ys @ x # zs) None" and "distinct (ys @ x # zs)"
    and "head s = first_of (ys @ x # zs) None"
  shows "\<exists>s'. (case last_of None ys of
              Some p \<Rightarrow> mutate p (\<lambda>m. m\<lparr>node_next := first_of zs None\<rparr>)
            | None \<Rightarrow> modify (\<lambda>s. s\<lparr>head := first_of zs None\<rparr>)) s = (Done (), s') \<and>
           relink s s' \<and> chain (nodes s') None ys (first_of zs None) \<and>
           chain (nodes s') (last_of None ys) (x # zs) None \<and>
           head s' = first_of (ys @ zs) None \<and> tail s' = tail s"
proof (cases ys rule: rev_cases)
  case Nil
  with assms show ?thesis by simp
next
  case (snoc ys' p)
  with assms obtain n where "p < length (nodes s)" "nodes s ! p = Some n"
    using chain_occupied [of "nodes s" None "ys @ x # zs" None p] by auto
  with snoc assms mutate_link [of p s n "\<lambda>m. m\<lparr>node_next := first_of zs None\<rparr>"]
  show ?thesis by simp
qed

lemma unlink_next:
  assumes "chain (nodes s) None ys (first_of zs None)"
    and "chain (nodes s) (last_of None ys) (x # zs) None" and "distinct (ys @ x # zs)"
    and "tail s = last_of None (ys @ x # zs)"
  shows "\<exists>s'. (case first_of zs None of
              Some q \<Rightarrow> mutate q (\<lambda>m. m\<lparr>node_prev := last_of None ys\<rparr>)
            | None \<Rightarrow> modify (\<lambda>s. s\<lparr>tail := last_of None ys\<rparr>)) s = (Done (), s') \<and>
           relink s s' \<and> chain (nodes s') None (ys @ zs) None \<and>
           x < length (nodes s') \<and> (\<exists>n. nodes s' ! x = Some n) \<and>
           tail s' = last_of None (ys @ zs) \<and> head s' = head s"
proof (cases zs)
  case Nil
  with assms show ?thesis by (auto split: option.splits)
next
  case (Cons q zs')
  with assms obtain n where "q < length (nodes s)" "nodes s ! q = Some n"
    by (auto split: option.splits)
  with Cons assms mutate_link [of q s n "\<lambda>m. m\<lparr>node_prev := last_of None ys\<rparr>"]
  show ?thesis by (auto split: option.splits)
qed

lemma unlink_spec:
  assumes "arena_dll s (ys @ x # zs)"
  shows "\<exists>s'. unlink x s = (Done (), s') \<and> relink s s' \<and> arena_dll s' (ys @ zs)"
proof -
  from assms obtain n where n: "x < length (nodes s)" "nodes s ! x = Some n"
      "node_prev n = last_of None ys" "node_next n = first_of zs None"
    by (rule dll_node)
  from assms obtain s1 where s1: "(case last_of None ys of
          Some p \<Rightarrow> mutate p (\<lambda>m. m\<lparr>node_next := first_of zs None\<rparr>)
        | None \<Rightarrow> modify (\<lambda>s. s\<lparr>head := first_of zs None\<rparr>)) s = (Done (), s1)" "relink s s1"
      "chain (nodes s1) None ys (first_of zs None)"
      "chain (nodes s1) (last_of None ys) (x # zs) None"
      "head s1 = first_of (ys @ zs) None" "tail s1 = last_of None (ys @ x # zs)"
    using unlink_prev [of s ys x zs]
    unfolding dll_def by (metis)
  from s1 assms obtain s2 m where s2: "(case first_of zs None of
          Some q \<Rightarrow> mutate q (\<lambda>m. m\<lparr>node_prev := last_of None ys\<rparr>)
        | None \<Rightarrow> modify (\<lambda>s. s\<lparr>tail := last_of None ys\<rparr>)) s1 = (Done (), s2)" "relink s1 s2"
      "chain (nodes s2) None (ys @ zs) None" "x < length (nodes s2)" "nodes s2 ! x = Some m"
      "tail s2 = last_of None (ys @ zs)" "head s2 = first_of (ys @ zs) None"
    using unlink_next [of s1 ys zs x] unfolding dll_def by metis
  let ?f = "\<lambda>m. m\<lparr>node_prev := None, node_next := None\<rparr>"
  note steps = s1(1) [folded n(3,4)] s2(1) [folded n(3,4)]
  have "unlink x s = mutate_if x ?f s2"
    using n(1,2) by (simp add: unlink_def occupied_def slot_def bind_exec_def Let_def
        seq_exec_def steps)
  moreover have "x \<notin> set (ys @ zs)" using assms by (simp add: dll_def)
  ultimately show ?thesis
    using s1(2) s2 assms mutate_link [of x s2 m ?f]
    by (auto simp: dll_def intro: relink_trans simp del: chain_append)
qed

lemma push_front_spec:
  assumes "arena_dll s xs" and "x \<notin> set xs" and "x < length (nodes s)" and "nodes s ! x = Some n"
  shows "\<exists>s'. push_front x s = (Done (), s') \<and> relink s s' \<and> arena_dll s' (x # xs)"
proof -
  let ?f = "\<lambda>m. m\<lparr>node_prev := None, node_next := head s\<rparr>"
  let ?s1 = "s\<lparr>nodes := (nodes s)[x := Some (?f n)]\<rparr>"
  have s1: "mutate_if x ?f s = (Done (), ?s1)" "relink s ?s1"
    using assms mutate_link [of x s n ?f] by simp_all
  show ?thesis
  proof (cases xs)
    case Nil
    have "head s = None" using assms Nil by (simp add: dll_def)
    then have "push_front x s = (Done (), ?s1\<lparr>tail := Some x, head := Some x\<rparr>)"
      using s1(1) by (simp add: push_front_def seq_exec_def bind_exec_def)
    moreover have "relink s (?s1\<lparr>tail := Some x, head := Some x\<rparr>)"
      using s1(2) relink_ends by (blast intro: relink_trans)
    moreover have "arena_dll (?s1\<lparr>tail := Some x, head := Some x\<rparr>) (x # xs)"
      using assms Nil by (simp add: dll_def)
    ultimately show ?thesis by blast
  next
    case (Cons h xs')
    with assms obtain m where m: "h < length (nodes ?s1)" "nodes ?s1 ! h = Some m"
      by (auto simp: dll_def split: option.splits)
    let ?g = "\<lambda>m. m\<lparr>node_prev := Some x\<rparr>"
    let ?s2 = "?s1\<lparr>nodes := (nodes ?s1)[h := Some (?g m)]\<rparr>"
    have s2: "mutate_if h ?g ?s1 = (Done (), ?s2)" "relink ?s1 ?s2"
      using m mutate_link [of h ?s1 m ?g] by simp_all
    have "head s = Some h" using assms Cons by (simp add: dll_def)
    then have "push_front x s = (Done (), ?s2\<lparr>head := Some x\<rparr>)"
      using s1(1) s2(1) by (simp add: push_front_def seq_exec_def bind_exec_def)
    moreover have "relink s (?s2\<lparr>head := Some x\<rparr>)"
      using s1(2) s2(2) relink_ends(1) by (blast intro: relink_trans)
    moreover have "arena_dll (?s2\<lparr>head := Some x\<rparr>) (x # xs)"
      using assms Cons m by (auto simp: dll_def split: option.splits)
    ultimately show ?thesis by blast
  qed
qed

lemma relink_length: "relink s s' \<Longrightarrow> length (nodes s') = length (nodes s)"
  by (metis relink_def length_payloads)

lemma relink_slot:
  assumes "relink s s'" and "i < length (nodes s)"
  shows "map_option payload (nodes s' ! i) = map_option payload (nodes s ! i)"
proof -
  have "payloads (nodes s') ! i = payloads (nodes s) ! i" using assms(1) by (simp add: relink_def)
  with assms relink_length [OF assms(1)] show ?thesis by (simp add: payloads_def)
qed

lemma relink_occupied:
  assumes "relink s s'" and "i < length (nodes s)" and "nodes s ! i = Some n"
  obtains m where "i < length (nodes s')" "nodes s' ! i = Some m" "payload m = payload n"
  using relink_slot [OF assms(1,2)] relink_length [OF assms(1)] assms(2,3) by auto

lemma promote_spec:
  assumes "arena_dll s (ys @ x # zs)"
  shows "\<exists>s'. promote x s = (Done (), s') \<and> relink s s' \<and> arena_dll s' (x # ys @ zs)"
proof (cases "head s = Some x")
  case True
  with assms have "ys = []" by (cases ys) (auto simp: dll_def)
  with True assms show ?thesis by (simp add: promote_def)
next
  case False
  from assms obtain s1 where s1: "unlink x s = (Done (), s1)" "relink s s1" "arena_dll s1 (ys @ zs)"
    using unlink_spec by blast
  from assms obtain n where "x < length (nodes s)" "nodes s ! x = Some n" by (rule dll_node)
  with s1(2) obtain m where m: "x < length (nodes s1)" "nodes s1 ! x = Some m"
    by (rule relink_occupied)
  have "x \<notin> set (ys @ zs)" using assms by (simp add: dll_def)
  with s1(3) m obtain s2 where "push_front x s1 = (Done (), s2)" "relink s1 s2"
      "arena_dll s2 (x # ys @ zs)"
    using push_front_spec by blast
  with False s1 show ?thesis
    by (auto simp: promote_def seq_exec_def bind_exec_def [of "unlink x"] intro: relink_trans)
qed

end
