(* ===== verification/Arena_Rep.thy ===== *)
theory Arena_Rep
  imports Arena_Links
begin

section \<open>What an arena represents\<close>

text \<open>
  \<open>arena_rep s xs\<close>: the slots \<open>xs\<close>, in this order, are the list from \<open>head\<close> to \<open>tail\<close>, and
  every other slot is on the free stack and empty. \<open>keys_rep s xs\<close>: the hash map holds exactly
  the keys of these slots, each with its own slot. \<open>entries s xs\<close> is the list of entries that
  the two describe, most recently used first. The lemmas say what \<open>alloc\<close> with \<open>push_front\<close>,
  \<open>unlink\<close> with \<open>dealloc\<close> and \<open>promote\<close> do to that list; none of them panics.
\<close>

definition arena_slots :: "('k, 'v, 'm, 'z) arena_scheme \<Rightarrow> nat list \<Rightarrow> bool" where
  "arena_slots s xs \<longleftrightarrow> distinct (free s @ xs) \<and> set (free s @ xs) = {..<length (nodes s)} \<and>
     (\<forall>i \<in> set (free s). payloads (nodes s) ! i = None)"

definition arena_rep :: "('k, 'v, 'm, 'z) arena_scheme \<Rightarrow> nat list \<Rightarrow> bool" where
  "arena_rep s xs \<longleftrightarrow> arena_dll s xs \<and> arena_slots s xs"

definition entry :: "('k, 'v, 'm) node_scheme option list \<Rightarrow> nat \<Rightarrow> 'k \<times> 'v \<times> 'm" where
  "entry N i = the (payloads N ! i)"

definition entries :: "('k, 'v, 'm, 'z) arena_scheme \<Rightarrow> nat list \<Rightarrow> ('k \<times> 'v \<times> 'm) list" where
  "entries s xs = map (entry (nodes s)) xs"

definition keys_rep :: "('k, 'v, 'm, 'z) arena_scheme \<Rightarrow> nat list \<Rightarrow> bool" where
  "keys_rep s xs \<longleftrightarrow> mset (key_map s) = mset (zip (map fst (entries s xs)) xs) \<and>
     distinct (map fst (entries s xs))"

text \<open>
  \<open>arena_frame s s'\<close>: only the slots, the free stack and the two ends differ; the hash map and
  whatever fields extend the arena are the same.
\<close>

definition arena_frame :: "('k, 'v, 'm, 'z) arena_scheme \<Rightarrow> ('k, 'v, 'm, 'z) arena_scheme \<Rightarrow> bool" where
  "arena_frame s s' \<longleftrightarrow>
     s' = s\<lparr>nodes := nodes s', free := free s', head := head s', tail := tail s'\<rparr>"

lemma arena_frame_refl [simp]: "arena_frame s s"
  by (simp add: arena_frame_def)

lemma arena_frame_trans: "arena_frame s t \<Longrightarrow> arena_frame t u \<Longrightarrow> arena_frame s u"
  by (cases s; cases t; cases u) (simp add: arena_frame_def)

lemma arena_frame_key_map: "arena_frame s s' \<Longrightarrow> key_map s' = key_map s"
  by (cases s; cases s') (simp add: arena_frame_def)

lemma arena_frame_more: "arena_frame s s' \<Longrightarrow> arena.more s' = arena.more s"
  by (cases s; cases s') (simp add: arena_frame_def)

lemma arena_frame_updates [simp]:
  "arena_frame s (s\<lparr>nodes := N\<rparr>)" "arena_frame s (s\<lparr>free := F\<rparr>)"
  "arena_frame s (s\<lparr>nodes := N, free := F\<rparr>)" "arena_frame s (s\<lparr>free := F, nodes := N\<rparr>)"
  by (cases s; simp add: arena_frame_def)+

lemma relink_frame: "relink s s' \<Longrightarrow> arena_frame s s'"
  by (cases s; cases s') (simp add: relink_def arena_frame_def)

lemma relink_free: "relink s s' \<Longrightarrow> free s' = free s"
  by (cases s; cases s') (simp add: relink_def)

lemma relink_slots: "relink s s' \<Longrightarrow> arena_slots s' xs = arena_slots s xs"
  by (simp add: arena_slots_def relink_free relink_length) (simp add: relink_def)

lemma relink_entries: "relink s s' \<Longrightarrow> entries s' xs = entries s xs"
  by (simp add: entries_def entry_def relink_def)

lemma relink_entry: "relink s s' \<Longrightarrow> entry (nodes s') = entry (nodes s)"
  by (simp add: fun_eq_iff entry_def relink_def)

lemma slots_perm: "mset xs = mset ys \<Longrightarrow> arena_slots s xs = arena_slots s ys"
  using mset_eq_setD [of xs ys] mset_eq_imp_distinct_iff [of xs ys]
  by (simp add: arena_slots_def)

lemma entry_node: "i < length N \<Longrightarrow> N ! i = Some n \<Longrightarrow> entry N i = payload n"
  by (simp add: entry_def payloads_def)

lemma arena_rep_slot:
  assumes "arena_rep s xs" and "x \<in> set xs"
  obtains n where "x < length (nodes s)" "nodes s ! x = Some n" "entry (nodes s) x = payload n"
  using assms chain_occupied [of "nodes s" None xs None x]
  by (auto simp: arena_rep_def dll_def entry_node)

lemma arena_rep_length: "arena_rep s xs \<Longrightarrow> length xs \<le> length (nodes s)"
  by (rule length_le_if_bounded) (auto simp: arena_rep_def arena_slots_def)

subsection \<open>Taking a slot\<close>

lemma alloc_spec:
  assumes rep: "arena_rep s xs"
  obtains i s' where "alloc n s = (Done i, s')" and "arena_frame s s'" and "i \<notin> set xs"
    and "i < length (nodes s')" and "nodes s' ! i = Some n"
    and "arena_dll s' xs" and "arena_slots s' (i # xs)" and "entries s' xs = entries s xs"
proof (cases "free s" rule: rev_cases)
  case Nil
  have fresh: "length (nodes s) \<notin> set xs"
    using rep by (auto simp: arena_rep_def arena_slots_def)
  let ?s = "s\<lparr>nodes := nodes s @ [Some n]\<rparr>"
  have all: "distinct xs" "set xs = {..<length (nodes s)}"
    using rep Nil by (simp_all add: arena_rep_def arena_slots_def)
  then have slots: "arena_slots ?s (length (nodes s) # xs)"
    using Nil fresh by (simp add: arena_slots_def lessThan_Suc)
  have "entries ?s xs = entries s xs"
    using rep by (auto simp: arena_rep_def arena_slots_def Nil entries_def entry_def payloads_def nth_append)
  moreover have "arena_dll ?s xs"
    using rep by (simp add: arena_rep_def dll_def chain_grow)
  moreover have "alloc n s = (Done (length (nodes s)), ?s)"
    using Nil by (simp add: alloc_def vec_pop_def)
  ultimately show ?thesis using that [of "length (nodes s)" ?s] fresh slots by simp
next
  case (snoc rest idx)
  let ?s = "s\<lparr>free := rest, nodes := (nodes s)[idx := Some n]\<rparr>"
  have idx: "idx < length (nodes s)" "idx \<notin> set xs" "idx \<notin> set rest"
    using rep snoc by (auto simp: arena_rep_def arena_slots_def)
  have ne: "i \<in> set rest \<Longrightarrow> idx \<noteq> i" for i using idx by auto
  have slots: "arena_slots ?s (idx # xs)"
    using rep snoc ne by (auto simp: arena_rep_def arena_slots_def payloads_def map_update nth_list_update)
  have "entries ?s xs = entries s xs"
    using idx by (auto simp: entries_def entry_def payloads_def map_update nth_list_update)
  moreover have "arena_dll ?s xs"
    using rep idx by (simp add: arena_rep_def dll_def)
  moreover have "alloc n s = (Done idx, ?s)"
    using snoc idx by (simp add: alloc_def vec_pop_def put_slot_def seq_exec_def bind_exec_def)
  ultimately show ?thesis using that [of idx ?s] idx slots by simp
qed

lemma alloc_push_spec:
  assumes rep: "arena_rep s xs"
  obtains i s1 s' where "alloc n s = (Done i, s1)" and "push_front i s1 = (Done (), s')"
    and "arena_frame s s'" and "i \<notin> set xs" and "arena_rep s' (i # xs)"
    and "entries s' (i # xs) = payload n # entries s xs"
proof -
  from rep obtain i s1 where a: "alloc n s = (Done i, s1)" "arena_frame s s1" "i \<notin> set xs"
    "i < length (nodes s1)" "nodes s1 ! i = Some n" "arena_dll s1 xs" "arena_slots s1 (i # xs)"
    "entries s1 xs = entries s xs"
    by (rule alloc_spec)
  then obtain s' where p: "push_front i s1 = (Done (), s')" "relink s1 s'" "arena_dll s' (i # xs)"
    using push_front_spec by blast
  have "entries s' (i # xs) = entries s1 (i # xs)" using p(2) by (rule relink_entries)
  also have "\<dots> = payload n # entries s xs"
    using a by (simp add: entries_def entry_node)
  finally show ?thesis
    using that a p relink_slots [OF p(2)] relink_frame [OF p(2)]
    by (auto simp: arena_rep_def intro: arena_frame_trans)
qed

subsection \<open>Giving a slot back\<close>

lemma dealloc_spec:
  assumes "arena_dll s xs" and "arena_slots s (x # xs)" and "nodes s ! x = Some n"
  obtains s' where "dealloc x s = (Done n, s')" and "arena_frame s s'" and "arena_rep s' xs"
    and "entries s' xs = entries s xs"
proof -
  have x: "x < length (nodes s)" "x \<notin> set xs" "x \<notin> set (free s)"
    using assms(2) by (auto simp: arena_slots_def)
  let ?s = "s\<lparr>nodes := (nodes s)[x := None], free := free s @ [x]\<rparr>"
  have "dealloc x s = (Done n, ?s)"
    using assms(3) x by (simp add: dealloc_def arena_unfold exec_unfold)
  moreover have "arena_rep ?s xs"
    using assms x by (auto simp: arena_rep_def arena_slots_def dll_def payloads_def map_update nth_list_update)
  moreover have "entries ?s xs = entries s xs"
    using x by (auto simp: entries_def entry_def payloads_def map_update nth_list_update)
  ultimately show ?thesis using that by simp
qed

lemma unlink_dealloc_spec:
  assumes rep: "arena_rep s (ys @ x # zs)"
  obtains s1 s' n where "unlink x s = (Done (), s1)" and "relink s s1"
    and "dealloc x s1 = (Done n, s')"
    and "arena_frame s s'" and "payload n = entry (nodes s) x" and "arena_rep s' (ys @ zs)"
    and "entries s' (ys @ zs) = entries s (ys @ zs)"
proof -
  from rep obtain s1 where u: "unlink x s = (Done (), s1)" "relink s s1" "arena_dll s1 (ys @ zs)"
    using unlink_spec unfolding arena_rep_def by blast
  from rep obtain n where n: "x < length (nodes s)" "nodes s ! x = Some n"
      "entry (nodes s) x = payload n"
    using arena_rep_slot [OF rep, of x] by auto
  from u(2) n(1,2) obtain m where m: "nodes s1 ! x = Some m" "payload m = payload n"
    by (rule relink_occupied)
  have "arena_slots s1 (x # ys @ zs)"
    using rep slots_perm [of "ys @ x # zs" "x # ys @ zs" s] relink_slots [OF u(2)]
    by (simp add: arena_rep_def)
  with u(3) m(1) obtain s' where d: "dealloc x s1 = (Done m, s')" "arena_frame s1 s'"
      "arena_rep s' (ys @ zs)" "entries s' (ys @ zs) = entries s1 (ys @ zs)"
    by (metis dealloc_spec)
  show ?thesis
    using that [OF u(1,2) d(1)] d(2-) m(2) n(3) relink_frame [OF u(2)] relink_entries [OF u(2)]
    by (metis arena_frame_trans)
qed

lemma promote_rep:
  assumes rep: "arena_rep s (ys @ x # zs)"
  obtains s' where "promote x s = (Done (), s')" and "relink s s'" and "arena_rep s' (x # ys @ zs)"
    and "entries s' (x # ys @ zs) = entry (nodes s) x # entries s (ys @ zs)"
proof -
  from rep obtain s' where p: "promote x s = (Done (), s')" "relink s s'" "arena_dll s' (x # ys @ zs)"
    using promote_spec unfolding arena_rep_def by blast
  have "arena_slots s' (x # ys @ zs)"
    using rep slots_perm [of "ys @ x # zs" "x # ys @ zs" s] relink_slots [OF p(2)]
    by (simp add: arena_rep_def)
  moreover have "entries s' (x # ys @ zs) = entry (nodes s) x # entries s (ys @ zs)"
    using relink_entry [OF p(2)] by (simp add: entries_def)
  ultimately show ?thesis using that p by (simp add: arena_rep_def)
qed

text \<open>Writing to an occupied slot without touching its links.\<close>

lemma overwrite_rep:
  assumes rep: "arena_rep s (ys @ x # zs)" and n: "nodes s ! x = Some n"
    and m: "node_prev m = node_prev n" "node_next m = node_next n"
  defines "s' \<equiv> s\<lparr>nodes := (nodes s)[x := Some m]\<rparr>"
  shows "arena_rep s' (ys @ x # zs)" and "entry (nodes s') x = payload m"
    and "entries s' ys = entries s ys" and "entries s' zs = entries s zs"
proof -
  have x: "x < length (nodes s)" "x \<notin> set ys" "x \<notin> set zs" "x \<notin> set (free s)"
    using rep by (auto simp: arena_rep_def arena_slots_def)
  have ne: "j \<in> set (free s) \<Longrightarrow> x \<noteq> j" for j using x(4) by auto
  show "entry (nodes s') x = payload m" "entries s' ys = entries s ys" "entries s' zs = entries s zs"
    using x by (auto simp: s'_def entries_def entry_def payloads_def map_update nth_list_update)
  have "arena_dll s' (ys @ x # zs)"
    using rep x n m by (auto simp: s'_def arena_rep_def dll_def split: option.splits)
  moreover have "arena_slots s' (ys @ x # zs)"
    using rep ne by (auto simp: s'_def arena_rep_def arena_slots_def payloads_def map_update nth_list_update)
  ultimately show "arena_rep s' (ys @ x # zs)" by (simp add: arena_rep_def)
qed

text \<open>Every slot is either listed or free; a free one is empty.\<close>

lemma arena_slot_cases:
  assumes "arena_rep s xs" and "i < length (nodes s)"
  obtains (free) "nodes s ! i = None" "i \<notin> set xs"
    | (listed) ys zs n where "xs = ys @ i # zs" "nodes s ! i = Some n" "entry (nodes s) i = payload n"
proof (cases "i \<in> set xs")
  case True
  then obtain ys zs where "xs = ys @ i # zs" by (meson split_list)
  with True show ?thesis using listed arena_rep_slot [OF assms(1) True] by metis
next
  case False
  with assms have "i \<in> set (free s)" unfolding arena_rep_def arena_slots_def by auto
  with assms have "payloads (nodes s) ! i = None" by (simp add: arena_rep_def arena_slots_def)
  with False show ?thesis using free assms(2) by (simp add: payloads_def)
qed

end
