(* ===== verification/Arena_Keys.thy ===== *)
theory Arena_Keys
  imports Arena_Rep
begin

section \<open>The arena with its hash map\<close>

text \<open>
  \<open>order s\<close> follows the \<open>next\<close> links from \<open>head\<close>; an arena in good shape (\<open>arena_inv\<close>) is
  represented by exactly this list of slots, and \<open>contents s\<close> lists its entries, most recently
  used first. Each lemma below is one of the steps the caches are made of: look a key up, touch
  it, replace a value, evict the tail, remove a key, insert a new key at the front.
\<close>

fun walk :: "('k, 'v, 'm) node_scheme option list \<Rightarrow> nat \<Rightarrow> nat option \<Rightarrow> nat list" where
  "walk N 0 c = []"
| "walk N (Suc fuel) None = []"
| "walk N (Suc fuel) (Some i) =
     (if i < length N
      then case N ! i of None \<Rightarrow> [] | Some n \<Rightarrow> i # walk N fuel (node_next n)
      else [])"

definition order :: "('k, 'v, 'm, 'z) arena_scheme \<Rightarrow> nat list" where
  "order s = walk (nodes s) (length (nodes s)) (head s)"

definition arena_inv :: "('k, 'v, 'm, 'z) arena_scheme \<Rightarrow> bool" where
  "arena_inv s \<longleftrightarrow> arena_rep s (order s) \<and> keys_rep s (order s)"

definition contents :: "('k, 'v, 'm, 'z) arena_scheme \<Rightarrow> ('k \<times> 'v \<times> 'm) list" where
  "contents s = entries s (order s)"

lemma walk_chain:
  "chain N p xs None \<Longrightarrow> length xs \<le> fuel \<Longrightarrow> walk N fuel (first_of xs None) = xs"
proof (induction xs arbitrary: p fuel)
  case Nil
  then show ?case by (cases fuel) auto
next
  case (Cons x xs)
  then obtain f where "fuel = Suc f" by (cases fuel) auto
  with Cons show ?case by (auto split: option.splits)
qed

lemma order_rep: "arena_rep s xs \<Longrightarrow> order s = xs"
  using walk_chain [of "nodes s" None xs "length (nodes s)"] arena_rep_length [of s xs]
  by (simp add: order_def arena_rep_def dll_def)

lemma arena_invI:
  assumes "arena_rep s xs" and "keys_rep s xs"
  shows "arena_inv s" and "order s = xs" and "contents s = entries s xs"
  using assms order_rep [of s xs] by (simp_all add: arena_inv_def contents_def)

lemma arena_invD:
  assumes "arena_inv s"
  shows "arena_rep s (order s)" and "keys_rep s (order s)"
    and "length (contents s) = length (order s)" and "distinct (map fst (contents s))"
  using assms by (simp_all add: arena_inv_def contents_def entries_def keys_rep_def)

subsection \<open>The hash map holds the listed keys\<close>

lemma length_entries [simp]: "length (entries s xs) = length xs"
  by (simp add: entries_def)

lemma entries_simps [simp]:
  "entries s [] = []" "entries s (x # xs) = entry (nodes s) x # entries s xs"
  "entries s (xs @ ys) = entries s xs @ entries s ys"
  by (simp_all add: entries_def)

lemma in_zip_keys: "(k, i) \<in> set (zip (map fst (entries s xs)) xs) \<longleftrightarrow>
    i \<in> set xs \<and> fst (entry (nodes s) i) = k"
  by (auto simp: entries_def zip_map1 zip_same_conv_map)

lemma keys_rep_ok:
  assumes "keys_rep s xs"
  shows "hm_ok (key_map s)"
proof -
  have "mset (map fst (key_map s)) = image_mset fst (mset (zip (map fst (entries s xs)) xs))"
    using assms by (simp only: mset_map keys_rep_def)
  also have "\<dots> = mset (map fst (zip (map fst (entries s xs)) xs))" by (simp only: mset_map)
  also have "\<dots> = mset (map fst (entries s xs))" by (simp only: map_fst_zip length_map length_entries)
  finally show ?thesis
    using assms mset_eq_imp_distinct_iff unfolding hm_ok_def keys_rep_def by blast
qed

lemma keys_rep_get:
  assumes "keys_rep s xs"
  shows "hm_get (key_map s) k = Some i \<longleftrightarrow> i \<in> set xs \<and> fst (entry (nodes s) i) = k"
proof -
  have "hm_get (key_map s) k = Some i \<longleftrightarrow> (k, i) \<in># mset (zip (map fst (entries s xs)) xs)"
    using assms hm.get_entry [OF keys_rep_ok [OF assms]] by (simp add: keys_rep_def)
  also have "\<dots> \<longleftrightarrow> i \<in> set xs \<and> fst (entry (nodes s) i) = k"
    by (simp add: in_zip_keys)
  finally show ?thesis .
qed

lemma keys_rep_len:
  assumes "keys_rep s xs"
  shows "hm_len (key_map s) = length xs"
proof -
  have "size (mset (key_map s)) = size (mset (zip (map fst (entries s xs)) xs))"
    using assms by (simp only: keys_rep_def)
  then show ?thesis by (simp add: hm_len_def)
qed

lemma keys_rep_split:
  assumes "keys_rep s xs" and "hm_get (key_map s) k = Some i"
  obtains ys zs where "xs = ys @ i # zs" and "fst (entry (nodes s) i) = k"
  using assms by (auto simp: keys_rep_get dest: split_list)

lemma keys_rep_None:
  "keys_rep s xs \<Longrightarrow> hm_get (key_map s) k = None \<longleftrightarrow> k \<notin> fst ` set (entries s xs)"
  using keys_rep_get [of s xs k]
  by (cases "hm_get (key_map s) k") (auto simp: entries_def image_iff, metis fst_conv)

text \<open>The three ways in which the map and the list change together.\<close>

lemma keys_rep_move:
  assumes "keys_rep s (ys @ x # zs)" and "key_map s' = key_map s"
    and "entries s' (x # ys @ zs) = entry (nodes s) x # entries s (ys @ zs)"
  shows "keys_rep s' (x # ys @ zs)"
  using assms by (auto simp: keys_rep_def)

lemma keys_rep_drop:
  assumes "keys_rep s (ys @ x # zs)" and "key_map s' = hm_remove (fst (entry (nodes s) x)) (key_map s)"
    and "entries s' (ys @ zs) = entries s (ys @ zs)"
  shows "keys_rep s' (ys @ zs)"
proof -
  let ?k = "fst (entry (nodes s) x)"
  let ?z = "\<lambda>us. mset (zip (map fst (entries s us)) us)"
  have d: "distinct (map fst (entries s (ys @ zs)))" "?k \<notin> fst ` set (entries s (ys @ zs))"
    and m: "mset (key_map s) = add_mset (?k, x) (?z (ys @ zs))"
    using assms(1) by (simp_all add: keys_rep_def image_Un)
  have "fst e \<noteq> ?k" if "e \<in># ?z (ys @ zs)" for e
  proof -
    have "fst e \<in> set (map fst (entries s (ys @ zs)))"
      using that set_zip_leftD [of "fst e" "snd e" "map fst (entries s (ys @ zs))" "ys @ zs"]
      by (simp del: entries_simps set_map)
    with d(2) show ?thesis by (metis set_map)
  qed
  then have "filter_mset (\<lambda>e. fst e \<noteq> ?k) (?z (ys @ zs)) = ?z (ys @ zs)"
    by (simp only: filter_mset_eq_conv, intro conjI subset_mset.order_refl) (auto simp del: entries_simps)
  then have "mset (hm_remove ?k (key_map s)) = ?z (ys @ zs)"
    using hm.entries_remove [OF keys_rep_ok [OF assms(1)]] m by simp
  with assms(2,3) d(1) show ?thesis by (simp only: keys_rep_def)
qed

lemma keys_rep_insert:
  assumes "keys_rep s xs" and "hm_get (key_map s) k = None"
    and "key_map s' = hm_insert k i (key_map s)"
    and "entries s' (i # xs) = (k, v, m) # entries s xs"
  shows "keys_rep s' (i # xs)"
proof -
  have "mset (key_map s') = add_mset (k, i) (mset (key_map s))"
    unfolding assms(3) by (rule hm.entries_insert_new [OF keys_rep_ok [OF assms(1)] assms(2)])
  moreover have "k \<notin> fst ` set (entries s xs)"
    using keys_rep_None [OF assms(1)] assms(2) by simp
  moreover have "mset (key_map s) = mset (zip (map fst (entries s xs)) xs)"
    and "distinct (map fst (entries s xs))"
    using assms(1) by (simp_all only: keys_rep_def)
  ultimately show ?thesis
    unfolding keys_rep_def assms(4) by (simp only: list.map zip_Cons_Cons mset.simps distinct.simps fst_conv set_map
      simp_thms)
qed

end
