(* ===== verification/Recency.thy ===== *)
theory Recency
  imports Prelude
begin

section \<open>Recency lists: the specification of the arena caches\<close>

text \<open>
  The abstract view of an LRU-ordered store: the entries as a list, most recently used first,
  each a key with its value and whatever else the entry carries. Touching a key moves its entry
  to the front, putting a key drops the old entry and adds the new one in front, and the
  candidate for eviction is the last entry.
\<close>

type_synonym ('k, 'p) mru = "('k \<times> 'p) list"

definition mru_drop :: "'k \<Rightarrow> ('k, 'p) mru \<Rightarrow> ('k, 'p) mru" where
  "mru_drop k E = filter (\<lambda>e. fst e \<noteq> k) E"

definition mru_put :: "'k \<Rightarrow> 'p \<Rightarrow> ('k, 'p) mru \<Rightarrow> ('k, 'p) mru" where
  "mru_put k p E = (k, p) # mru_drop k E"

definition mru_touch :: "'k \<Rightarrow> ('k, 'p) mru \<Rightarrow> ('k, 'p) mru" where
  "mru_touch k E = (case map_of E k of None \<Rightarrow> E | Some p \<Rightarrow> mru_put k p E)"

lemma mru_drop_split:
  assumes "distinct (map fst (E1 @ (k, p) # E2))"
  shows "mru_drop k (E1 @ (k, p) # E2) = E1 @ E2"
    and "map_of (E1 @ (k, p) # E2) k = Some p"
    and "mru_touch k (E1 @ (k, p) # E2) = (k, p) # E1 @ E2"
proof -
  have k: "k \<notin> fst ` set E1" "k \<notin> fst ` set E2" using assms by auto
  then have "fst e \<noteq> k" if "e \<in> set E1 \<union> set E2" for e using that by auto
  then show drop: "mru_drop k (E1 @ (k, p) # E2) = E1 @ E2"
    by (auto simp: mru_drop_def filter_id_conv)
  show look: "map_of (E1 @ (k, p) # E2) k = Some p"
    using k by (simp add: map_add_Some_iff map_of_eq_None_iff)
  show "mru_touch k (E1 @ (k, p) # E2) = (k, p) # E1 @ E2"
    using drop look by (simp add: mru_touch_def mru_put_def)
qed

lemma map_of_mru_drop [simp]: "map_of (mru_drop k E) j = (if j = k then None else map_of E j)"
  by (induction E) (auto simp: mru_drop_def)

lemma map_of_mru_put [simp]: "map_of (mru_put k p E) j = (if j = k then Some p else map_of E j)"
  by (simp add: mru_put_def)

lemma map_of_mru_touch [simp]: "map_of (mru_touch k E) = map_of E"
  by (auto simp: mru_touch_def fun_eq_iff split: option.split)

lemma set_mru_drop [simp]: "set (mru_drop k E) = {e \<in> set E. fst e \<noteq> k}"
  by (simp add: mru_drop_def)

lemma distinct_mru_drop: "distinct (map fst E) \<Longrightarrow> distinct (map fst (mru_drop k E))"
  by (simp add: mru_drop_def distinct_map_filter)

lemma length_mru_drop_le: "length (mru_drop k E) \<le> length E"
  by (simp add: mru_drop_def)

lemma mru_drop_absent: "map_of E k = None \<Longrightarrow> mru_drop k E = E"
  by (auto simp: mru_drop_def map_of_eq_None_iff filter_id_conv)

lemma length_mru_drop:
  assumes "distinct (map fst E)" and "map_of E k = Some p"
  shows "Suc (length (mru_drop k E)) = length E"
proof -
  from assms(2) obtain E1 E2 where "E = E1 @ (k, p) # E2"
    by (meson map_of_SomeD split_list)
  with assms(1) show ?thesis by (simp add: mru_drop_split(1))
qed

lemma length_mru_touch: "distinct (map fst E) \<Longrightarrow> length (mru_touch k E) = length E"
  by (auto simp: mru_touch_def mru_put_def length_mru_drop split: option.split)

lemma distinct_mru_touch: "distinct (map fst E) \<Longrightarrow> distinct (map fst (mru_touch k E))"
  by (auto simp: mru_touch_def mru_put_def distinct_mru_drop split: option.split)

lemma set_mru_touch: "distinct (map fst E) \<Longrightarrow> set (mru_touch k E) = set E"
  by (auto simp: mru_touch_def mru_put_def dest: map_of_SomeD eq_key_imp_eq_value split: option.split)

text \<open>Forgetting part of what the entries carry commutes with every operation.\<close>

lemma map_of_apsnd: "map_of (map (apsnd f) E) k = map_option f (map_of E k)"
  by (induction E) auto

lemma mru_drop_apsnd: "mru_drop k (map (apsnd f) E) = map (apsnd f) (mru_drop k E)"
  by (simp add: mru_drop_def filter_map comp_def)

lemma mru_touch_apsnd: "mru_touch k (map (apsnd f) E) = map (apsnd f) (mru_touch k E)"
  by (auto simp: mru_touch_def mru_put_def map_of_apsnd mru_drop_apsnd split: option.split)

lemma map_fst_apsnd [simp]: "map fst (map (apsnd f) E) = map fst E"
  by simp

text \<open>The same for a change of what the entries carry that depends on the key.\<close>

lemma map_of_keyed: "map_of (map (\<lambda>(k, p). (k, h k p)) E) k = map_option (h k) (map_of E k)"
  by (induction E) auto

lemma mru_drop_keyed: "mru_drop k (map (\<lambda>(k, p). (k, h k p)) E) = map (\<lambda>(k, p). (k, h k p)) (mru_drop k E)"
  by (induction E) (auto simp: mru_drop_def)

lemma mru_touch_keyed: "mru_touch k (map (\<lambda>(k, p). (k, h k p)) E) = map (\<lambda>(k, p). (k, h k p)) (mru_touch k E)"
  by (auto simp: mru_touch_def mru_put_def map_of_keyed mru_drop_keyed split: option.split)

lemma map_fst_keyed [simp]: "map fst (map (\<lambda>(k, p). (k, h k p)) E) = map fst E"
  by auto

subsection \<open>The LRU policy\<close>

text \<open>
  What a bounded LRU store promises, on recency lists: a read touches its key; an insert of a
  present key replaces its value and makes it the most recent; an insert of a new key first
  drops the least recent entry if the store is full; a removal leaves the order of the others.
\<close>

definition lru_spec_get :: "'k \<Rightarrow> ('k, 'v) mru \<Rightarrow> 'v option \<times> ('k, 'v) mru" where
  "lru_spec_get k E = (map_of E k, mru_touch k E)"

definition lru_spec_insert :: "nat \<Rightarrow> 'k \<Rightarrow> 'v \<Rightarrow> ('k, 'v) mru \<Rightarrow> 'v option \<times> ('k, 'v) mru" where
  "lru_spec_insert cap k v E =
     (case map_of E k of
        Some old \<Rightarrow> (Some old, mru_put k v E)
      | None \<Rightarrow> (None, (k, v) # (if cap \<le> length E then butlast E else E)))"

definition lru_spec_remove :: "'k \<Rightarrow> ('k, 'v) mru \<Rightarrow> 'v option \<times> ('k, 'v) mru" where
  "lru_spec_remove k E = (map_of E k, mru_drop k E)"

lemma map_of_butlast:
  assumes "distinct (map fst E)"
  shows "map_of (butlast E) j = map_of E j \<or> map_of (butlast E) j = None"
proof (cases E rule: rev_cases)
  case (snoc E' e)
  with assms show ?thesis by (cases e) (auto simp: map_add_def split: option.split)
qed simp

end
