(* ===== verification/Arena_Steps.thy ===== *)
theory Arena_Steps
  imports Arena_Keys Recency
begin

section \<open>The steps of the arena caches, on recency lists\<close>

text \<open>
  One lemma per step the three caches take on an arena in good shape: the calls of the helpers
  all return, and the arena they leave is again in good shape and represents the recency list
  that \<open>Recency\<close> specifies.
\<close>

lemma arena_rep_key_map [simp]:
  "arena_rep (s\<lparr>key_map := M\<rparr>) xs = arena_rep s xs"
  "entries (s\<lparr>key_map := M\<rparr>) xs = entries s xs"
  "order (s\<lparr>key_map := M\<rparr>) = order s"
  "contents (s\<lparr>key_map := M\<rparr>) = contents s"
  by (simp_all add: arena_rep_def arena_slots_def entries_def order_def contents_def)

lemma arena_inv_len: "arena_inv s \<Longrightarrow> hm_len (key_map s) = length (contents s)"
  by (simp add: arena_inv_def keys_rep_len contents_def)

lemma arena_inv_lookup_None:
  "arena_inv s \<Longrightarrow> hm_get (key_map s) k = None \<longleftrightarrow> map_of (contents s) k = None"
  by (simp add: arena_inv_def keys_rep_None contents_def map_of_eq_None_iff)

text \<open>A key that the map knows splits the list at its entry.\<close>

lemma arena_inv_split:
  assumes "arena_inv s" and "hm_get (key_map s) k = Some i"
  obtains ys zs n where "order s = ys @ i # zs"
    and "contents s = entries s ys @ (k, node_value n, node.more n) # entries s zs"
    and "i < length (nodes s)" and "nodes s ! i = Some n" and "node_key n = k"
    and "entry (nodes s) i = payload n"
proof -
  have rep: "arena_rep s (order s)" and keys: "keys_rep s (order s)"
    using assms(1) by (simp_all add: arena_inv_def)
  from keys assms(2) obtain ys zs where split: "order s = ys @ i # zs"
      and k: "fst (entry (nodes s) i) = k" by (rule keys_rep_split)
  from rep obtain n where n: "i < length (nodes s)" "nodes s ! i = Some n"
      "entry (nodes s) i = payload n"
    using split arena_rep_slot [of s "order s" i] by auto
  with k have "node_key n = k" by (simp add: payload_def)
  with that split n show ?thesis by (auto simp: contents_def payload_def)
qed

lemma touch_step:
  assumes inv: "arena_inv s" and get: "hm_get (key_map s) k = Some i"
  obtains s' n where "promote i s = (Done (), s')" and "relink s s'" and "arena_inv s'"
    and "contents s' = mru_touch k (contents s)" and "i < length (nodes s')"
    and "nodes s' ! i = Some n" and "map_of (contents s) k = Some (node_value n, node.more n)"
proof -
  from inv get obtain ys zs n where split: "order s = ys @ i # zs"
      and c: "contents s = entries s ys @ (k, node_value n, node.more n) # entries s zs"
      and n: "i < length (nodes s)" "nodes s ! i = Some n" "node_key n = k"
        "entry (nodes s) i = payload n"
    by (rule arena_inv_split)
  have rep: "arena_rep s (ys @ i # zs)" and keys: "keys_rep s (ys @ i # zs)"
    using inv split by (simp_all add: arena_inv_def)
  from rep obtain s' where p: "promote i s = (Done (), s')" "relink s s'"
      "arena_rep s' (i # ys @ zs)" "entries s' (i # ys @ zs) = entry (nodes s) i # entries s (ys @ zs)"
    by (rule promote_rep)
  have keys': "keys_rep s' (i # ys @ zs)"
    using p(4) arena_frame_key_map [OF relink_frame [OF p(2)]] by (intro keys_rep_move [OF keys])
  have inv': "arena_inv s'" "contents s' = entries s' (i # ys @ zs)"
    using arena_invI [OF p(3) keys'] by simp_all
  have d: "distinct (map fst (contents s))" using inv by (rule arena_invD)
  have "contents s' = mru_touch k (contents s)"
    using inv'(2) p(4) d n by (simp add: c mru_drop_split(3) payload_def)
  moreover have "map_of (contents s) k = Some (node_value n, node.more n)"
    using d unfolding c by (rule mru_drop_split(2))
  moreover obtain m where "i < length (nodes s')" "nodes s' ! i = Some m" "payload m = payload n"
    using p(2) n(1,2) by (rule relink_occupied)
  ultimately show ?thesis using that p(1,2) inv'(1) by (simp add: payload_def)
qed

text \<open>Overwrite what an entry carries, links and key aside.\<close>

lemma overwrite_step:
  assumes inv: "arena_inv s" and get: "hm_get (key_map s) k = Some i"
    and f: "\<And>n. node_key (f n) = node_key n" "\<And>n. node_prev (f n) = node_prev n"
      "\<And>n. node_next (f n) = node_next n"
  obtains n where "i < length (nodes s)" and "nodes s ! i = Some n"
    and "mutate i f s = (Done (), s\<lparr>nodes := (nodes s)[i := Some (f n)]\<rparr>)"
    and "arena_inv (s\<lparr>nodes := (nodes s)[i := Some (f n)]\<rparr>)"
    and "mru_drop k (contents (s\<lparr>nodes := (nodes s)[i := Some (f n)]\<rparr>)) = mru_drop k (contents s)"
    and "map_of (contents (s\<lparr>nodes := (nodes s)[i := Some (f n)]\<rparr>)) k =
           Some (node_value (f n), node.more (f n))"
    and "map_of (contents s) k = Some (node_value n, node.more n)"
proof -
  from inv get obtain ys zs n where split: "order s = ys @ i # zs"
      and c: "contents s = entries s ys @ (k, node_value n, node.more n) # entries s zs"
      and n: "i < length (nodes s)" "nodes s ! i = Some n" "node_key n = k"
        "entry (nodes s) i = payload n"
    by (rule arena_inv_split)
  let ?s = "s\<lparr>nodes := (nodes s)[i := Some (f n)]\<rparr>"
  have rep: "arena_rep s (ys @ i # zs)" and keys: "keys_rep s (ys @ i # zs)"
    using inv split by (simp_all add: arena_inv_def)
  from overwrite_rep [OF rep n(2) f(2,3)]
  have rep': "arena_rep ?s (ys @ i # zs)"
    and e: "entries ?s ys = entries s ys" "entries ?s zs = entries s zs"
      "entry (nodes ?s) i = payload (f n)"
    by simp_all
  have keys': "keys_rep ?s (ys @ i # zs)"
    using keys e n f by (simp add: keys_rep_def payload_def)
  have inv': "arena_inv ?s" and c': "contents ?s = entries ?s (ys @ i # zs)"
    using arena_invI [OF rep' keys'] by simp_all
  have c'': "contents ?s = entries s ys @ (k, node_value (f n), node.more (f n)) # entries s zs"
    using c' e n(3) f by (simp add: payload_def)
  have d: "distinct (map fst (contents s))" "distinct (map fst (contents ?s))"
    using inv inv' by (simp_all only: arena_invD)
  have "mutate i f s = (Done (), ?s)"
    using n by (simp add: arena_unfold exec_unfold)
  then show ?thesis
    using that n(1,2) inv' mru_drop_split [OF d(1) [unfolded c]] mru_drop_split [OF d(2) [unfolded c'']]
    by (simp add: c c'')
qed

text \<open>The same followed by a promotion: the entry is replaced and becomes the most recent one.\<close>

lemma replace_step:
  assumes inv: "arena_inv s" and get: "hm_get (key_map s) k = Some i"
    and f: "\<And>n. node_key (f n) = node_key n" "\<And>n. node_prev (f n) = node_prev n"
      "\<And>n. node_next (f n) = node_next n"
  obtains n s1 s2 where "occupied i s = (Done n, s)" and "mutate i f s = (Done (), s1)"
    and "promote i s1 = (Done (), s2)" and "arena_frame s s2" and "arena_inv s2"
    and "contents s2 = mru_put k (node_value (f n), node.more (f n)) (contents s)"
    and "map_of (contents s) k = Some (node_value n, node.more n)"
proof -
  from overwrite_step [OF inv get, of f] f obtain n where o: "i < length (nodes s)"
      "nodes s ! i = Some n" "mutate i f s = (Done (), s\<lparr>nodes := (nodes s)[i := Some (f n)]\<rparr>)"
      "arena_inv (s\<lparr>nodes := (nodes s)[i := Some (f n)]\<rparr>)"
      "mru_drop k (contents (s\<lparr>nodes := (nodes s)[i := Some (f n)]\<rparr>)) = mru_drop k (contents s)"
      "map_of (contents (s\<lparr>nodes := (nodes s)[i := Some (f n)]\<rparr>)) k =
         Some (node_value (f n), node.more (f n))"
      "map_of (contents s) k = Some (node_value n, node.more n)"
    by auto
  let ?s = "s\<lparr>nodes := (nodes s)[i := Some (f n)]\<rparr>"
  have "hm_get (key_map ?s) k = Some i" using get by simp
  with o(4) obtain s' m where t: "promote i ?s = (Done (), s')" "relink ?s s'" "arena_inv s'"
      "contents s' = mru_touch k (contents ?s)" "i < length (nodes s')" "nodes s' ! i = Some m"
      "map_of (contents ?s) k = Some (node_value m, node.more m)"
    by (rule touch_step)
  have occ: "occupied i s = (Done n, s)" using o(1,2) by (simp add: occupied_def slot_def bind_exec_def)
  have frame: "arena_frame s s'" by (rule arena_frame_trans [OF _ relink_frame [OF t(2)]]) simp
  have "contents s' = mru_put k (node_value (f n), node.more (f n)) (contents s)"
    using t(4) o(5,6) by (simp add: mru_touch_def mru_put_def)
  from that [OF occ o(3) t(1) frame t(3) this o(7)] show ?thesis .
qed

lemma tail_contents:
  assumes "arena_inv s"
  shows "tail s = None \<longleftrightarrow> contents s = []"
  using assms by (auto simp: arena_inv_def arena_rep_def dll_def last_of_def contents_def entries_def)

text \<open>Evicting the tail: \<open>unlink\<close>, \<open>dealloc\<close>, and the key's removal from the map.\<close>

lemma evict_step:
  assumes inv: "arena_inv s" and tail: "tail s = Some t"
  obtains s1 s2 n where "unlink t s = (Done (), s1)" and "relink s s1"
    and "dealloc t s1 = (Done n, s2)"
    and "arena_frame s s2" and "contents s = butlast (contents s) @ [payload n]"
    and "arena_inv (s2\<lparr>key_map := hm_remove (node_key n) (key_map s)\<rparr>)"
    and "contents s2 = butlast (contents s)"
    and "t < length (nodes s)" and "\<exists>m. nodes s ! t = Some m \<and> payload m = payload n"
proof -
  from inv tail have "order s \<noteq> []" and t: "t = last (order s)"
    by (auto simp: arena_inv_def arena_rep_def dll_def last_of_def split: if_splits)
  then obtain ys where split: "order s = ys @ [t]" by (metis append_butlast_last_id)
  have rep: "arena_rep s (ys @ t # [])" and keys: "keys_rep s (ys @ t # [])"
    using inv split by (simp_all add: arena_inv_def)
  from rep obtain s1 s2 n where u: "unlink t s = (Done (), s1)" "relink s s1"
      "dealloc t s1 = (Done n, s2)"
      "arena_frame s s2" "payload n = entry (nodes s) t" "arena_rep s2 (ys @ [])"
      "entries s2 (ys @ []) = entries s (ys @ [])"
    by (rule unlink_dealloc_spec)
  let ?s = "s2\<lparr>key_map := hm_remove (node_key n) (key_map s)\<rparr>"
  have k: "node_key n = fst (entry (nodes s) t)" using u(5) by (metis payload_def fst_conv)
  have keys': "keys_rep ?s (ys @ [])"
    using u(7) k by (intro keys_rep_drop [OF keys]) simp_all
  have rep': "arena_rep ?s (ys @ [])" using u(6) by simp
  note inv' = arena_invI(1,3) [OF rep' keys']
  have c: "contents s = entries s ys @ [payload n]" using split u(5) by (simp add: contents_def)
  have c2: "contents s2 = butlast (contents s)" unfolding c butlast_snoc using inv'(2) u(7) by simp
  from arena_rep_slot [OF rep, of t] obtain m
    where "t < length (nodes s)" "nodes s ! t = Some m" "entry (nodes s) t = payload m" by auto
  then have n: "t < length (nodes s)" "\<exists>m. nodes s ! t = Some m \<and> payload m = payload n"
    using u(5) by simp_all
  have "contents s = butlast (contents s) @ [payload n]" unfolding c butlast_snoc ..
  from that [OF u(1-4) this inv'(1) c2 n] show ?thesis .
qed

text \<open>Removing a key: the map first, then \<open>unlink\<close> and \<open>dealloc\<close>.\<close>

lemma remove_step:
  assumes inv: "arena_inv s" and get: "hm_get (key_map s) k = Some i"
  obtains s1 s2 n where "unlink i (s\<lparr>key_map := hm_remove k (key_map s)\<rparr>) = (Done (), s1)"
    and "dealloc i s1 = (Done n, s2)" and "arena_frame (s\<lparr>key_map := hm_remove k (key_map s)\<rparr>) s2"
    and "arena_inv s2" and "contents s2 = mru_drop k (contents s)"
    and "map_of (contents s) k = Some (node_value n, node.more n)"
proof -
  from inv get obtain ys zs n where split: "order s = ys @ i # zs"
      and c: "contents s = entries s ys @ (k, node_value n, node.more n) # entries s zs"
      and n: "i < length (nodes s)" "nodes s ! i = Some n" "node_key n = k"
        "entry (nodes s) i = payload n"
    by (rule arena_inv_split)
  let ?s = "s\<lparr>key_map := hm_remove k (key_map s)\<rparr>"
  have rep: "arena_rep ?s (ys @ i # zs)" and keys: "keys_rep s (ys @ i # zs)"
    using inv split by (simp_all add: arena_inv_def)
  from rep obtain s1 s2 m where u: "unlink i ?s = (Done (), s1)" "relink ?s s1"
      "dealloc i s1 = (Done m, s2)"
      "arena_frame ?s s2" "payload m = entry (nodes ?s) i" "arena_rep s2 (ys @ zs)"
      "entries s2 (ys @ zs) = entries ?s (ys @ zs)"
    by (rule unlink_dealloc_spec)
  have keys': "keys_rep s2 (ys @ zs)"
    using n arena_frame_key_map [OF u(4)] u(7)
    by (intro keys_rep_drop [OF keys]) (simp_all add: payload_def)
  note inv' = arena_invI(1,3) [OF u(6) keys']
  have d: "distinct (map fst (contents s))" using inv by (rule arena_invD)
  have m: "node_value m = node_value n" "node.more m = node.more n"
    using u(5) n(4) by (simp_all add: payload_def)
  show ?thesis
    using that [OF u(1,3,4) inv'(1)] inv'(2) u(7) m mru_drop_split [OF d [unfolded c]]
    by (simp add: c)
qed

text \<open>Inserting a key that is not there: a slot, the front of the list, the map.\<close>

lemma insert_step:
  assumes inv: "arena_inv s" and get: "hm_get (key_map s) (node_key n) = None"
  obtains i s1 s2 where "alloc n s = (Done i, s1)" and "push_front i s1 = (Done (), s2)"
    and "arena_frame s s2"
    and "arena_inv (s2\<lparr>key_map := hm_insert (node_key n) i (key_map s)\<rparr>)"
    and "contents (s2\<lparr>key_map := hm_insert (node_key n) i (key_map s)\<rparr>) = payload n # contents s"
proof -
  have rep: "arena_rep s (order s)" and keys: "keys_rep s (order s)"
    using inv by (simp_all add: arena_inv_def)
  from rep obtain i s1 s2 where a: "alloc n s = (Done i, s1)" "push_front i s1 = (Done (), s2)"
      "arena_frame s s2" "i \<notin> set (order s)" "arena_rep s2 (i # order s)"
      "entries s2 (i # order s) = payload n # entries s (order s)"
    by (rule alloc_push_spec)
  let ?s = "s2\<lparr>key_map := hm_insert (node_key n) i (key_map s)\<rparr>"
  have keys': "keys_rep ?s (i # order s)"
    using a(6) by (intro keys_rep_insert [OF keys get]) (simp_all add: payload_def)
  have rep': "arena_rep ?s (i # order s)" using a(5) by simp
  note inv' = arena_invI(1,3) [OF rep' keys']
  show ?thesis using that [OF a(1-3) inv'(1)] inv'(2) a(6) by (simp add: contents_def)
qed

lemma empty_step:
  assumes "nodes s = []" and "free s = []" and "head s = None" and "tail s = None"
    and "key_map s = hm_empty"
  shows "arena_inv s" and "contents s = []"
proof -
  have rep: "arena_rep s []" and keys: "keys_rep s []"
    using assms by (simp_all add: arena_rep_def arena_slots_def dll_def keys_rep_def hm_empty_def)
  show "arena_inv s" and "contents s = []" using arena_invI [OF rep keys] by simp_all
qed

lemma clear_arena_step:
  "arena_inv (clear_arena s)" "contents (clear_arena s) = []" "arena.more (clear_arena s) = arena.more s"
proof -
  show "arena_inv (clear_arena s)" "contents (clear_arena s) = []"
    by (rule empty_step; simp add: clear_arena_def)+
  show "arena.more (clear_arena s) = arena.more s"
    by (cases s) (simp add: clear_arena_def)
qed

text \<open>Evaluation of the arena operations on concrete states.\<close>

lemmas arena_eval = exec_apply arena_unfold alloc_def dealloc_def unlink_def push_front_def
  promote_def vec_pop_def clear_arena_def hm_get_def hm_insert_def hm_remove_def hm_len_def
  hm_empty_def hm_contains_def

lemmas contents_eval = contents_def entries_def entry_def order_def payloads_def payload_def

lemmas mru_eval = mru_touch_def mru_put_def mru_drop_def lru_spec_get_def lru_spec_insert_def
  lru_spec_remove_def

end
