(* ===== verification/Lru.thy ===== *)
theory Lru
  imports Arena_Steps Cache_Contract
begin

section \<open>LruCache\<close>

text \<open>
  \<open>src/lru.rs\<close>. A shard (\<open>Inner\<close>) is an arena with a capacity; the methods of \<open>Cache\<close> lock the
  shard of the key and run the bodies defined here. \<open>lru_list\<close> abstracts a shard to its recency
  list, and every method refines the operation of the LRU policy of \<open>Recency\<close>. With these facts
  the shard meets \<open>shard_contract\<close>, which carries the results over to the sharded cache.
\<close>

record ('k, 'v) lru_inner = "('k, 'v, unit) arena" +
  lru_capacity :: usize

type_synonym ('k, 'v) lru_cache = "('k, 'v) lru_inner cache"

definition lru_inner_with_capacity :: "usize \<Rightarrow> ('k, 'v) lru_inner" where
  "lru_inner_with_capacity cap =
     \<lparr>nodes = [], free = [], head = None, tail = None, key_map = hm_empty, lru_capacity = cap\<rparr>"

subsection \<open>The bodies of the methods, under the lock\<close>

definition lru_get_inner :: "'k \<Rightarrow> (('k, 'v) lru_inner, 'v option) exec" where
  "lru_get_inner key =
     bind_exec (gets (\<lambda>s. hm_get (key_map s) key)) (\<lambda>found. case found of
       None \<Rightarrow> ret None
     | Some idx \<Rightarrow>
         seq_exec (promote idx)
         (bind_exec (slot idx) (\<lambda>n. ret (map_option node_value n))))"

definition lru_make_room :: "(('k, 'v) lru_inner, unit) exec" where
  "lru_make_room =
     bind_exec (gets (\<lambda>s. unat (lru_capacity s) \<le> hm_len (key_map s))) (\<lambda>full.
       if full then
         bind_exec (gets tail) (\<lambda>t. case t of
           Some tail_idx \<Rightarrow>
             seq_exec (unlink tail_idx)
             (bind_exec (dealloc tail_idx) (\<lambda>evicted.
               modify (\<lambda>s. s\<lparr>key_map := hm_remove (node_key evicted) (key_map s)\<rparr>)))
         | None \<Rightarrow> ret ())
       else ret ())"

definition lru_insert_inner :: "'k \<Rightarrow> 'v \<Rightarrow> (('k, 'v) lru_inner, 'v option) exec" where
  "lru_insert_inner key value =
     bind_exec (gets (\<lambda>s. hm_get (key_map s) key)) (\<lambda>found. case found of
       Some idx \<Rightarrow>
         bind_exec (occupied idx) (\<lambda>old.
           seq_exec (mutate idx (\<lambda>n. n\<lparr>node_value := value\<rparr>))
           (seq_exec (promote idx)
           (ret (Some (node_value old)))))
     | None \<Rightarrow>
         seq_exec lru_make_room
         (bind_exec (alloc \<lparr>node_key = key, node_value = value, node_prev = None, node_next = None\<rparr>)
           (\<lambda>idx. seq_exec (push_front idx)
             (seq_exec (modify (\<lambda>s. s\<lparr>key_map := hm_insert key idx (key_map s)\<rparr>))
             (ret None)))))"

definition lru_remove_inner :: "'k \<Rightarrow> (('k, 'v) lru_inner, 'v option) exec" where
  "lru_remove_inner key =
     bind_exec (gets (\<lambda>s. hm_get (key_map s) key)) (\<lambda>found. case found of
       None \<Rightarrow> ret None
     | Some idx \<Rightarrow>
         seq_exec (modify (\<lambda>s. s\<lparr>key_map := hm_remove key (key_map s)\<rparr>))
         (seq_exec (unlink idx)
         (bind_exec (dealloc idx) (\<lambda>node. ret (Some (node_value node))))))"

definition lru_contains_inner :: "'k \<Rightarrow> (('k, 'v) lru_inner, bool) exec" where
  "lru_contains_inner key = gets (\<lambda>s. hm_contains (key_map s) key)"

definition lru_len_inner :: "(('k, 'v) lru_inner, nat) exec" where
  "lru_len_inner = gets (\<lambda>s. hm_len (key_map s))"

definition lru_clear_inner :: "(('k, 'v) lru_inner, unit) exec" where
  "lru_clear_inner = modify clear_arena"

subsection \<open>The cache\<close>

definition lru_with_capacity :: "usize \<Rightarrow> ('k, 'v) lru_cache" where
  "lru_with_capacity capacity =
     (let num_shards = shard_count capacity;
          per_shard = per_shard_capacity capacity num_shards
      in \<lparr>total_capacity = capacity,
          sharded_inner = from_factory num_shards (\<lambda>_. lru_inner_with_capacity per_shard)\<rparr>)"

definition lru_new :: "usize \<Rightarrow> cache_error + ('k, 'v) lru_cache" where
  "lru_new capacity =
     (case ok_or (nonzero_new capacity) InvalidCapacity of
        Inl e \<Rightarrow> Inl e
      | Inr cap \<Rightarrow> Inr (lru_with_capacity cap))"

definition lru_get :: "'k hashing \<Rightarrow> 'k \<Rightarrow> (('k, 'v) lru_cache, 'v option) exec" where
  "lru_get H key = on_shards (with_shard H key (lru_get_inner key))"

definition lru_insert :: "'k hashing \<Rightarrow> 'k \<Rightarrow> 'v \<Rightarrow> (('k, 'v) lru_cache, 'v option) exec" where
  "lru_insert H key value = on_shards (with_shard H key (lru_insert_inner key value))"

definition lru_remove :: "'k hashing \<Rightarrow> 'k \<Rightarrow> (('k, 'v) lru_cache, 'v option) exec" where
  "lru_remove H key = on_shards (with_shard H key (lru_remove_inner key))"

definition lru_contains_key :: "'k hashing \<Rightarrow> 'k \<Rightarrow> (('k, 'v) lru_cache, bool) exec" where
  "lru_contains_key H key = on_shards (with_shard H key (lru_contains_inner key))"

definition lru_len :: "(('k, 'v) lru_cache, nat) exec" where
  "lru_len = bind_exec (on_shards (each_shard lru_len_inner)) (\<lambda>ns. ret (sum_list ns))"

definition lru_clear :: "(('k, 'v) lru_cache, unit) exec" where
  "lru_clear = bind_exec (on_shards (each_shard lru_clear_inner)) (\<lambda>_. ret ())"

definition lru_capacity_of :: "('k, 'v) lru_cache \<Rightarrow> usize" where
  "lru_capacity_of c = total_capacity c"

definition lru_is_empty :: "(('k, 'v) lru_cache, bool) exec" where
  "lru_is_empty = is_empty_of lru_len"

subsection \<open>The shard against the LRU policy\<close>

definition lru_list :: "('k, 'v) lru_inner \<Rightarrow> ('k, 'v) mru" where
  "lru_list s = map (apsnd fst) (contents s)"

definition lru_ok :: "('k, 'v) lru_inner \<Rightarrow> bool" where
  "lru_ok s \<longleftrightarrow> arena_inv s \<and> 0 < unat (lru_capacity s) \<and> length (lru_list s) \<le> unat (lru_capacity s)"

lemma lru_capacity_frame:
  "arena.more s' = arena.more s \<Longrightarrow> lru_capacity (s' :: ('k, 'v) lru_inner) = lru_capacity s"
  by (cases s; cases s') simp

lemmas lru_frame = lru_capacity_frame [OF arena_frame_more]

lemma lru_okD:
  assumes "lru_ok s"
  shows "arena_inv s" and "distinct (map fst (lru_list s))"
    and "hm_len (key_map s) = length (lru_list s)"
    and "hm_get (key_map s) k = None \<longleftrightarrow> map_of (lru_list s) k = None"
  using assms by (simp_all add: lru_ok_def lru_list_def arena_invD arena_inv_len
      arena_inv_lookup_None map_of_apsnd)

lemma lru_get_refines:
  assumes "lru_ok s"
  shows "runs_to (lru_get_inner k) s (\<lambda>r s'. (r, lru_list s') = lru_spec_get k (lru_list s) \<and>
           lru_ok s' \<and> lru_capacity s' = lru_capacity s)"
proof (cases "hm_get (key_map s) k")
  case None
  then have "lru_get_inner k s = (Done None, s)" by (simp add: lru_get_inner_def)
  moreover have "map_of (lru_list s) k = None" using None lru_okD(4) [OF assms] by simp
  ultimately show ?thesis
    using assms by (auto simp: lru_spec_get_def mru_touch_def intro!: runs_toI)
next
  case (Some i)
  have inv: "arena_inv s" using assms by (rule lru_okD)
  from inv Some obtain s' n where t: "promote i s = (Done (), s')" "relink s s'" "arena_inv s'"
      "contents s' = mru_touch k (contents s)" "i < length (nodes s')" "nodes s' ! i = Some n"
      "map_of (contents s) k = Some (node_value n, node.more n)"
    by (rule touch_step)
  have cap: "lru_capacity s' = lru_capacity s" using t(2) by (intro lru_frame relink_frame)
  have list: "lru_list s' = mru_touch k (lru_list s)"
    using t(4) by (simp add: lru_list_def mru_touch_apsnd)
  have "lru_get_inner k s = (Done (Some (node_value n)), s')"
    using Some t by (simp add: lru_get_inner_def seq_exec_def bind_exec_def slot_def)
  moreover have "lru_ok s'"
    using assms t(3) list cap lru_okD(2) [OF assms] by (simp add: lru_ok_def length_mru_touch)
  ultimately show ?thesis
    using t(7) list cap by (auto simp: lru_spec_get_def lru_list_def map_of_apsnd intro!: runs_toI)
qed

lemma lru_make_room_refines:
  assumes "lru_ok s"
  shows "runs_to lru_make_room s (\<lambda>_ s'. arena_inv s' \<and> lru_capacity s' = lru_capacity s \<and>
           lru_list s' = (if unat (lru_capacity s) \<le> length (lru_list s) then butlast (lru_list s)
                          else lru_list s))"
proof (cases "unat (lru_capacity s) \<le> length (lru_list s)")
  case False
  with assms show ?thesis
    by (intro runs_toI [of _ _ "()" s]) (simp_all add: lru_make_room_def lru_okD)
next
  case True
  have inv: "arena_inv s" using assms by (rule lru_okD)
  have "contents s \<noteq> []" using True assms by (auto simp: lru_ok_def lru_list_def)
  then obtain t where tail: "tail s = Some t" using tail_contents [OF inv] by auto
  from inv tail obtain s1 s2 n where e: "unlink t s = (Done (), s1)" "relink s s1"
      "dealloc t s1 = (Done n, s2)" "arena_frame s s2"
      "contents s = butlast (contents s) @ [payload n]"
      "arena_inv (s2\<lparr>key_map := hm_remove (node_key n) (key_map s)\<rparr>)"
      "contents s2 = butlast (contents s)"
    by (rule evict_step)
  let ?s = "s2\<lparr>key_map := hm_remove (node_key n) (key_map s)\<rparr>"
  have "lru_make_room s = (Done (), ?s)"
    using True tail e assms arena_frame_key_map [OF e(4)]
    by (simp add: lru_make_room_def seq_exec_def bind_exec_def lru_okD)
  moreover have "lru_capacity ?s = lru_capacity s" using lru_frame [OF e(4)] by simp
  moreover have "lru_list ?s = butlast (lru_list s)"
    using e(7) by (simp add: lru_list_def map_butlast)
  ultimately show ?thesis using True e(6) by (auto intro!: runs_toI)
qed

lemma lru_insert_refines:
  assumes ok: "lru_ok s"
  shows "runs_to (lru_insert_inner k v) s (\<lambda>r s'.
           (r, lru_list s') = lru_spec_insert (unat (lru_capacity s)) k v (lru_list s) \<and>
           lru_ok s' \<and> lru_capacity s' = lru_capacity s)"
proof (cases "hm_get (key_map s) k")
  case (Some i)
  have inv: "arena_inv s" using ok by (rule lru_okD)
  let ?f = "\<lambda>n. n\<lparr>node_value := v\<rparr> :: ('a, 'b, unit) node_scheme"
  from replace_step [OF inv Some, of ?f] obtain n s1 s' where o: "occupied i s = (Done n, s)"
      "mutate i ?f s = (Done (), s1)" "promote i s1 = (Done (), s')" "arena_frame s s'" "arena_inv s'"
      "contents s' = mru_put k (v, ()) (contents s)" "map_of (contents s) k = Some (node_value n, ())"
    by auto
  have run: "lru_insert_inner k v s = (Done (Some (node_value n)), s')"
    using Some o(1-3) by (simp add: lru_insert_inner_def seq_exec_def bind_exec_def)
  have list: "lru_list s' = mru_put k v (lru_list s)"
    using o(6) by (simp add: lru_list_def mru_put_def mru_drop_apsnd)
  have old: "map_of (lru_list s) k = Some (node_value n)"
    using o(7) by (simp add: lru_list_def map_of_apsnd)
  have cap: "lru_capacity s' = lru_capacity s" using lru_frame [OF o(4)] by simp
  have "length (lru_list s') = length (lru_list s)"
    using list length_mru_drop [OF lru_okD(2) [OF ok] old] by (simp add: mru_put_def)
  with ok o(5) cap have "lru_ok s'" by (simp add: lru_ok_def)
  with run list old cap show ?thesis by (auto simp: lru_spec_insert_def intro!: runs_toI)
next
  case None
  from lru_make_room_refines [OF ok] obtain s1 where room: "lru_make_room s = (Done (), s1)"
      "arena_inv s1" "lru_capacity s1 = lru_capacity s"
      "lru_list s1 = (if unat (lru_capacity s) \<le> length (lru_list s) then butlast (lru_list s)
                      else lru_list s)"
    by (auto elim: runs_toE)
  have absent: "map_of (lru_list s) k = None" using None lru_okD(4) [OF ok] by simp
  then have "map_of (lru_list s1) k = None"
    using room(4) map_of_butlast [OF lru_okD(2) [OF ok], of k] by auto
  then have none: "hm_get (key_map s1) k = None"
    using arena_inv_lookup_None [OF room(2)] by (simp add: lru_list_def map_of_apsnd)
  let ?n = "\<lparr>node_key = k, node_value = v, node_prev = None, node_next = None\<rparr> :: ('a, 'b, unit) node_scheme"
  from insert_step [OF room(2), of ?n] none obtain i s2 s3 where a: "alloc ?n s1 = (Done i, s2)"
      "push_front i s2 = (Done (), s3)" "arena_frame s1 s3"
      "arena_inv (s3\<lparr>key_map := hm_insert k i (key_map s1)\<rparr>)"
      "contents (s3\<lparr>key_map := hm_insert k i (key_map s1)\<rparr>) = payload ?n # contents s1"
    by auto
  let ?s = "s3\<lparr>key_map := hm_insert k i (key_map s1)\<rparr>"
  have run: "lru_insert_inner k v s = (Done None, ?s)"
    using None room(1) a(1,2) arena_frame_key_map [OF a(3)]
    by (simp add: lru_insert_inner_def seq_exec_def bind_exec_def)
  have list: "lru_list ?s = (k, v) # lru_list s1"
    using a(5) by (simp add: lru_list_def payload_def)
  have cap: "lru_capacity ?s = lru_capacity s" using lru_frame [OF a(3)] room(3) by simp
  have "length (lru_list ?s) \<le> unat (lru_capacity s)"
    using ok list room(4) by (auto simp: lru_ok_def)
  with ok a(4) cap have "lru_ok ?s" by (simp add: lru_ok_def)
  with run list cap absent room(4) show ?thesis
    by (auto simp: lru_spec_insert_def intro!: runs_toI)
qed

lemma lru_remove_refines:
  assumes ok: "lru_ok s"
  shows "runs_to (lru_remove_inner k) s (\<lambda>r s'. (r, lru_list s') = lru_spec_remove k (lru_list s) \<and>
           lru_ok s' \<and> lru_capacity s' = lru_capacity s)"
proof (cases "hm_get (key_map s) k")
  case None
  then have "lru_remove_inner k s = (Done None, s)" by (simp add: lru_remove_inner_def)
  moreover have "map_of (lru_list s) k = None" using None lru_okD(4) [OF ok] by simp
  ultimately show ?thesis
    using ok by (auto simp: lru_spec_remove_def mru_drop_absent intro!: runs_toI)
next
  case (Some i)
  have inv: "arena_inv s" using ok by (rule lru_okD)
  from inv Some obtain s1 s2 n where d: "unlink i (s\<lparr>key_map := hm_remove k (key_map s)\<rparr>) = (Done (), s1)"
      "dealloc i s1 = (Done n, s2)" "arena_frame (s\<lparr>key_map := hm_remove k (key_map s)\<rparr>) s2"
      "arena_inv s2" "contents s2 = mru_drop k (contents s)"
      "map_of (contents s) k = Some (node_value n, node.more n)"
    by (rule remove_step)
  have run: "lru_remove_inner k s = (Done (Some (node_value n)), s2)"
    using Some d(1,2) by (simp add: lru_remove_inner_def seq_exec_def bind_exec_def)
  have cap: "lru_capacity s2 = lru_capacity s" using lru_frame [OF d(3)] by simp
  have list: "lru_list s2 = mru_drop k (lru_list s)"
    using d(5) by (simp add: lru_list_def mru_drop_apsnd)
  have "length (lru_list s2) \<le> length (lru_list s)" unfolding list by (rule length_mru_drop_le)
  with ok d(4) cap have "lru_ok s2" by (simp add: lru_ok_def)
  with run list cap d(6) show ?thesis
    by (auto simp: lru_spec_remove_def lru_list_def map_of_apsnd intro!: runs_toI)
qed

subsection \<open>The shard meets the contract\<close>

definition lru_bound :: "('k, 'v) lru_inner \<Rightarrow> nat" where
  "lru_bound s = unat (lru_capacity s)"

definition lru_view :: "('k, 'v) lru_inner \<Rightarrow> 'k \<Rightarrow> 'v option" where
  "lru_view s = map_of (lru_list s)"

lemma lru_ok_new:
  "lru_list (lru_inner_with_capacity cap :: ('k, 'v) lru_inner) = []"
  "lru_capacity (lru_inner_with_capacity cap :: ('k, 'v) lru_inner) = cap"
  "0 < unat cap \<Longrightarrow> lru_ok (lru_inner_with_capacity cap :: ('k, 'v) lru_inner)"
proof -
  have "arena_inv (lru_inner_with_capacity cap :: ('k, 'v) lru_inner)"
    and "contents (lru_inner_with_capacity cap :: ('k, 'v) lru_inner) = []"
    by (rule empty_step; simp add: lru_inner_with_capacity_def)+
  then show "lru_list (lru_inner_with_capacity cap :: ('k, 'v) lru_inner) = []"
    and "lru_capacity (lru_inner_with_capacity cap :: ('k, 'v) lru_inner) = cap"
    and "0 < unat cap \<Longrightarrow> lru_ok (lru_inner_with_capacity cap :: ('k, 'v) lru_inner)"
    by (simp_all add: lru_ok_def lru_list_def) (simp_all add: lru_inner_with_capacity_def)
qed

lemma card_dom_map_of: "distinct (map fst E) \<Longrightarrow> card (dom (map_of E)) = length E"
  using distinct_card [of "map fst E"] by (simp add: dom_map_of_conv_image_fst)

interpretation lru_shard: storing_contract lru_ok "\<lambda>_. True" lru_bound lru_view
  lru_get_inner lru_insert_inner lru_remove_inner lru_contains_inner lru_len_inner lru_clear_inner
proof unfold_locales
  fix s :: "('k, 'v) lru_inner" and k :: 'k and v :: 'v
  assume ok: "lru_ok s"
  have d: "distinct (map fst (lru_list s))" using ok by (rule lru_okD)
  show "runs_to (lru_get_inner k) s (\<lambda>r s'. r = lru_view s k \<and> lru_ok s' \<and>
      lru_bound s' = lru_bound s \<and> lru_view s' = lru_view s)"
    by (rule runs_to_mono [OF lru_get_refines [OF ok]])
      (auto simp: lru_spec_get_def lru_view_def lru_bound_def)
  show "runs_to (lru_insert_inner k v) s (\<lambda>r s'. r = lru_view s k \<and> lru_ok s' \<and>
      lru_bound s' = lru_bound s \<and>
      (\<forall>j. j \<noteq> k \<longrightarrow> lru_view s' j = lru_view s j \<or> lru_view s' j = None) \<and>
      (lru_view s' k = Some v \<or> lru_view s' k = None))"
    using map_of_butlast [OF d]
    by (intro runs_to_mono [OF lru_insert_refines [OF ok]])
      (auto simp: lru_spec_insert_def lru_view_def lru_bound_def split: option.splits)
  show "runs_to (lru_insert_inner k v) s (\<lambda>_ s'. lru_view s' k = Some v)"
    by (rule runs_to_mono [OF lru_insert_refines [OF ok]])
      (auto simp: lru_spec_insert_def lru_view_def split: option.splits)
  show "runs_to (lru_remove_inner k) s (\<lambda>r s'. (\<forall>v. lru_view s k = Some v \<longrightarrow> r = Some v) \<and>
      lru_ok s' \<and> lru_bound s' = lru_bound s \<and> lru_view s' = (lru_view s)(k := None))"
    by (rule runs_to_mono [OF lru_remove_refines [OF ok]])
      (auto simp: lru_spec_remove_def lru_view_def lru_bound_def fun_eq_iff)
  show "runs_to (lru_contains_inner k) s (\<lambda>r s'. r = (lru_view s k \<noteq> None) \<and>
      lru_ok s' \<and> lru_bound s' = lru_bound s \<and> lru_view s' = lru_view s)"
    using ok lru_okD(4) [OF ok, of k]
    by (intro runs_toI [where s' = s])
      (simp_all add: lru_contains_inner_def hm_contains_def lru_view_def del: not_None_eq)
  show "runs_to lru_len_inner s (\<lambda>n s'. n = card (dom (lru_view s)) \<and> n \<le> lru_bound s \<and>
      lru_ok s' \<and> lru_bound s' = lru_bound s \<and> lru_view s' = lru_view s)"
    using ok by (intro runs_toI [where s' = s])
      (auto simp: lru_len_inner_def lru_okD lru_view_def card_dom_map_of [OF d] lru_bound_def lru_ok_def)
  show "runs_to lru_clear_inner s (\<lambda>_ s'. lru_ok s' \<and> lru_bound s' = lru_bound s \<and> lru_view s' = Map.empty)"
    using ok clear_arena_step [of s] lru_capacity_frame [OF clear_arena_step(3) [of s]]
    by (intro runs_toI [where s' = "clear_arena s"])
      (auto simp: lru_clear_inner_def lru_ok_def lru_list_def lru_bound_def lru_view_def)
  show "finite (dom (lru_view s))" by (simp add: lru_view_def finite_dom_map_of)
qed

subsection \<open>The cache\<close>

abbreviation lru_cache_inv :: "'k hashing \<Rightarrow> ('k, 'v) lru_cache \<Rightarrow> bool" where
  "lru_cache_inv \<equiv> cache_inv lru_ok lru_bound lru_view"

abbreviation lru_cache_view :: "'k hashing \<Rightarrow> ('k, 'v) lru_cache \<Rightarrow> 'k \<Rightarrow> 'v option" where
  "lru_cache_view \<equiv> cache_view lru_view"

definition lru_perform :: "'k hashing \<Rightarrow> ('k, 'v) call \<Rightarrow> (('k, 'v) lru_cache, unit) exec" where
  "lru_perform H = perform (lru_get H) (lru_insert H) (lru_remove H) (lru_contains_key H) lru_len lru_clear"

lemmas lru_methods = lru_get_def lru_insert_def lru_remove_def lru_contains_key_def lru_len_def
  lru_clear_def

lemma cache_ready_True [simp]: "cache_ready (\<lambda>_. True) c"
  by (simp add: cache_ready_def shards_ready_def)

lemma lru_new_inv:
  fixes H :: "'k hashing"
  assumes "cap \<noteq> 0"
  shows "lru_cache_inv H (lru_with_capacity cap :: ('k, 'v) lru_cache)"
    and "lru_cache_view H (lru_with_capacity cap :: ('k, 'v) lru_cache) = Map.empty"
    and "lru_new cap = Inr (lru_with_capacity cap :: ('k, 'v) lru_cache)"
    and "total_capacity (lru_with_capacity cap :: ('k, 'v) lru_cache) = cap"
proof -
  have ok: "lru_ok (lru_inner_with_capacity (per_shard_capacity cap (shard_count cap)) :: ('k, 'v) lru_inner)"
    by (rule lru_ok_new) (rule per_shard_pos)
  show "lru_cache_inv H (lru_with_capacity cap :: ('k, 'v) lru_cache)"
    and "lru_cache_view H (lru_with_capacity cap :: ('k, 'v) lru_cache) = Map.empty"
    by (rule lru_shard.cache_new [OF assms _ _ ok];
        simp add: lru_with_capacity_def Let_def lru_bound_def lru_view_def lru_ok_new)+
  show "lru_new cap = Inr (lru_with_capacity cap :: ('k, 'v) lru_cache)"
    using assms by (simp add: lru_new_def)
  show "total_capacity (lru_with_capacity cap :: ('k, 'v) lru_cache) = cap"
    by (simp add: lru_with_capacity_def Let_def)
qed

lemma lru_laws:
  assumes "lru_cache_inv H c"
  shows "runs_to (lru_get H k) c (\<lambda>r c'. (r = lru_cache_view H c k \<and>
      lru_cache_view H c' = lru_cache_view H c) \<and> lru_cache_inv H c' \<and> same_config c c')"
    and "runs_to (lru_remove H k) c (\<lambda>r c'. ((\<forall>v. lru_cache_view H c k = Some v \<longrightarrow> r = Some v) \<and>
      lru_cache_view H c' = (lru_cache_view H c)(k := None)) \<and> lru_cache_inv H c' \<and> same_config c c')"
    and "runs_to (lru_contains_key H k) c (\<lambda>r c'. (r = (lru_cache_view H c k \<noteq> None) \<and>
      lru_cache_view H c' = lru_cache_view H c) \<and> lru_cache_inv H c' \<and> same_config c c')"
  unfolding lru_methods
  by (rule lru_shard.cache_get lru_shard.cache_remove lru_shard.cache_contains,
      rule assms, (rule cache_ready_True)?)+

lemma lru_run_calls:
  assumes "lru_cache_inv H c" and "lru_cache_view H c \<subseteq>\<^sub>m m"
  shows "runs_to (run_calls (lru_perform H) cs) c (\<lambda>_ c'. lru_cache_inv H c' \<and> same_config c c' \<and>
           lru_cache_view H c' \<subseteq>\<^sub>m fold latest cs m)"
  unfolding lru_perform_def lru_methods
  by (rule lru_shard.run_calls_law [OF assms]) simp

subsection \<open>Properties\<close>

text \<open>
  \<^bold>\<open>C1.\<close> The pointer machinery of a shard implements the LRU policy. From any well-formed
  shard, \<open>get\<close>, \<open>insert\<close> and \<open>remove\<close> return without panicking, give the value and the recency
  list that the policy prescribes (a full shard loses exactly its least recently used entry),
  and leave a well-formed shard of the same capacity.
\<close>

theorem lru_shard_refines_policy:
  assumes "lru_ok s"
  shows "runs_to (lru_get_inner k) s (\<lambda>r s'. (r, lru_list s') = lru_spec_get k (lru_list s) \<and>
           lru_ok s' \<and> lru_capacity s' = lru_capacity s) \<and>
         runs_to (lru_insert_inner k v) s (\<lambda>r s'.
           (r, lru_list s') = lru_spec_insert (unat (lru_capacity s)) k v (lru_list s) \<and>
           lru_ok s' \<and> lru_capacity s' = lru_capacity s) \<and>
         runs_to (lru_remove_inner k) s (\<lambda>r s'. (r, lru_list s') = lru_spec_remove k (lru_list s) \<and>
           lru_ok s' \<and> lru_capacity s' = lru_capacity s)"
  by (intro conjI lru_get_refines lru_insert_refines lru_remove_refines assms)

text \<open>A shard of capacity 2 that has seen keys 1 and 2, in that order.\<close>

definition lru_example :: "(nat, nat) lru_inner" where
  "lru_example = snd (lru_insert_inner 2 20 (snd (lru_insert_inner 1 10 (lru_inner_with_capacity 2))))"

lemma lru_example_eq:
  "lru_example = \<lparr>nodes = [Some \<lparr>node_key = 1, node_value = 10, node_prev = Some 1, node_next = None\<rparr>,
       Some \<lparr>node_key = 2, node_value = 20, node_prev = None, node_next = Some 0\<rparr>],
     free = [], head = Some 1, tail = Some 0, key_map = [(1, 0), (2, 1)], lru_capacity = 2\<rparr>"
  by (simp add: lru_example_def lru_insert_inner_def lru_make_room_def lru_inner_with_capacity_def
      arena_eval)

lemma lru_example_list: "lru_list lru_example = [(2, 20), (1, 10)]"
  by (simp add: lru_example_eq lru_list_def contents_eval numeral_2_eq_2)

lemma lru_insert_ok: "lru_ok s \<Longrightarrow> lru_ok (snd (lru_insert_inner k v s))"
  by (drule lru_insert_refines [where k = k and v = v]) (auto simp: runs_to_def)

lemma lru_example_ok: "lru_ok lru_example"
  unfolding lru_example_def by (intro lru_insert_ok lru_ok_new) simp

theorem lru_shard_refines_policy_witness:
  "lru_spec_insert 2 3 30 (lru_list lru_example) = (None, [(3, 30), (2, 20)]) \<and>
   runs_to (lru_insert_inner 3 30) lru_example (\<lambda>r s'. r = None \<and> lru_list s' = [(3, 30), (2, 20)] \<and> lru_ok s')"
proof -
  have spec: "lru_spec_insert 2 3 30 (lru_list lru_example) = (None, [(3, 30), (2, 20)])"
    by (simp add: lru_example_list mru_eval)
  have "unat (lru_capacity lru_example) = 2" by (simp add: lru_example_eq)
  then have "runs_to (lru_insert_inner 3 30) lru_example (\<lambda>r s'.
      (r, lru_list s') = (None, [(3, 30), (2, 20)]) \<and> lru_ok s' \<and> lru_capacity s' = lru_capacity lru_example)"
    using lru_shard_refines_policy [OF lru_example_ok, of 3 30] spec by simp
  then show ?thesis using spec by (auto elim: runs_to_mono)
qed

text \<open>
  \<^bold>\<open>C31.\<close> Strict global LRU for small caches. With a capacity below 32 the whole cache, seen
  through its public \<open>get\<close> and \<open>insert\<close>, is one recency list of the requested capacity: the
  entry evicted on overflow is the globally least recently used one, whatever the hasher.
\<close>

theorem lru_small_cache_is_global:
  assumes "lru_cache_inv H c" and "unat (total_capacity c) < 32"
  shows "runs_to (lru_get H k) c (\<lambda>r c'.
           (r, lru_list (only_shard c')) = lru_spec_get k (lru_list (only_shard c)) \<and>
           lru_cache_inv H c' \<and> same_config c c') \<and>
         runs_to (lru_insert H k v) c (\<lambda>r c'. (r, lru_list (only_shard c')) =
             lru_spec_insert (unat (total_capacity c)) k v (lru_list (only_shard c)) \<and>
           lru_cache_inv H c' \<and> same_config c c')"
proof -
  note small = small_cache [OF assms]
  have cap: "unat (lru_capacity (only_shard c)) = unat (total_capacity c)"
    using small(4) by (simp add: lru_bound_def)
  have "runs_to (lru_get H k) c (\<lambda>r c'.
      (r, lru_list (only_shard c')) = lru_spec_get k (lru_list (only_shard c)))"
    unfolding lru_get_def
    by (rule runs_to_mono [OF small_cache_runs [OF small(1,2) lru_get_refines [OF small(3)]]]) simp
  moreover have "runs_to (lru_insert H k v) c (\<lambda>r c'. (r, lru_list (only_shard c')) =
      lru_spec_insert (unat (total_capacity c)) k v (lru_list (only_shard c)))"
    unfolding lru_insert_def cap [symmetric]
    by (rule runs_to_mono [OF small_cache_runs [OF small(1,2) lru_insert_refines [OF small(3)]]]) simp
  ultimately show ?thesis
    using lru_shard.cache_get [OF assms(1), of k] lru_shard.cache_insert [OF assms(1), of k v]
    by (auto simp: lru_get_def lru_insert_def runs_to_def)
qed

lemma lru_small_new:
  "0 < unat cap \<Longrightarrow> unat cap < 32 \<Longrightarrow> lru_list (only_shard (lru_with_capacity cap :: ('k, 'v) lru_cache)) = []"
  by (simp add: only_shard_def lru_with_capacity_def Let_def from_factory_def shard_count_eq
      word_less_nat_alt lru_ok_new)

theorem lru_small_cache_is_global_witness:
  "runs_to (lru_insert sample_hashing 1 (10 :: nat)) (lru_with_capacity 2)
     (\<lambda>r c'. (r, lru_list (only_shard c')) = (None, [(1, 10)]) \<and> lru_cache_inv sample_hashing c')"
proof -
  let ?c = "lru_with_capacity 2 :: (nat, nat) lru_cache"
  have cap: "total_capacity ?c = 2" by (rule lru_new_inv(4)) simp
  have inv: "lru_cache_inv sample_hashing ?c" by (rule lru_new_inv(1)) simp
  have list: "lru_list (only_shard ?c) = []" by (rule lru_small_new) simp_all
  show ?thesis
    using lru_small_cache_is_global [OF inv, of 1 10]
    by (auto simp: cap list mru_eval elim: runs_to_mono)
qed

text \<open>
  \<^bold>\<open>C11.\<close> Any client of an \<open>LruCache\<close>. For every non-zero capacity and every hasher the
  constructor returns a cache, and after any sequence of trait calls on it nothing has panicked,
  \<open>len\<close> returns the number of keys present and never more than the requested capacity, and every
  value present is the one most recently inserted for its key and not removed since.
\<close>

theorem lru_any_calls:
  fixes cs :: "('k, 'v) call list"
  assumes "cap \<noteq> 0"
  shows "\<exists>c. lru_new cap = Inr c \<and>
    runs_to (run_calls (lru_perform H) cs) c (\<lambda>_ c'.
      lru_cache_view H c' \<subseteq>\<^sub>m fold latest cs Map.empty \<and> lru_capacity_of c' = cap \<and>
      runs_to lru_len c' (\<lambda>n _. n = card (dom (lru_cache_view H c')) \<and> n \<le> unat cap))"
proof -
  let ?c = "lru_with_capacity cap :: ('k, 'v) lru_cache"
  have new: "lru_cache_inv H ?c" "lru_cache_view H ?c = Map.empty" "lru_new cap = Inr ?c"
      "total_capacity ?c = cap"
    using assms by (simp_all only: lru_new_inv not_False_eq_True)
  have "runs_to (run_calls (lru_perform H) cs) ?c (\<lambda>_ c'. lru_cache_inv H c' \<and> same_config ?c c' \<and>
      lru_cache_view H c' \<subseteq>\<^sub>m fold latest cs Map.empty)"
    using new(1,2) by (intro lru_run_calls) simp_all
  then have "runs_to (run_calls (lru_perform H) cs) ?c (\<lambda>_ c'.
      lru_cache_view H c' \<subseteq>\<^sub>m fold latest cs Map.empty \<and> lru_capacity_of c' = cap \<and>
      runs_to lru_len c' (\<lambda>n _. n = card (dom (lru_cache_view H c')) \<and> n \<le> unat cap))"
  proof (rule runs_to_mono)
    fix u c' assume *: "lru_cache_inv H c' \<and> same_config ?c c' \<and>
      lru_cache_view H c' \<subseteq>\<^sub>m fold latest cs Map.empty"
    then have "total_capacity c' = cap" using new(4) same_config_capacity by metis
    with * show "lru_cache_view H c' \<subseteq>\<^sub>m fold latest cs Map.empty \<and> lru_capacity_of c' = cap \<and>
      runs_to lru_len c' (\<lambda>n _. n = card (dom (lru_cache_view H c')) \<and> n \<le> unat cap)"
      using lru_shard.cache_len [of H c']
      by (auto simp: lru_len_def lru_capacity_of_def elim: runs_to_mono)
  qed
  with new(3) show ?thesis by blast
qed

theorem lru_any_calls_witness:
  "\<exists>c. lru_new 64 = Inr c \<and>
    runs_to (run_calls (lru_perform sample_hashing) [Call_insert 1 (10 :: nat), Call_insert 2 20, Call_remove 1]) c
      (\<lambda>_ c'. lru_cache_view sample_hashing c' \<subseteq>\<^sub>m [2 \<mapsto> 20])"
proof -
  have "fold latest [Call_insert (1 :: nat) (10 :: nat), Call_insert 2 20, Call_remove 1] Map.empty = [2 \<mapsto> 20]"
    by (simp add: fun_eq_iff)
  then show ?thesis
    using lru_any_calls [of 64 sample_hashing "[Call_insert 1 (10 :: nat), Call_insert 2 20, Call_remove 1]"]
    by (auto elim: runs_to_mono)
qed

text \<open>
  \<^bold>\<open>C35.\<close> Round trip: on any well-formed \<open>LruCache\<close>, of any size, a \<open>get\<close> right after an
  \<open>insert\<close> of the same key returns the inserted value, and after a further \<open>remove\<close> (which
  returns it too) the key is neither contained nor gettable.
\<close>

theorem lru_insert_get_remove:
  assumes "lru_cache_inv H c"
  shows "runs_to (seq_exec (lru_insert H k v)
      (bind_exec (lru_get H k) (\<lambda>got.
       bind_exec (lru_remove H k) (\<lambda>removed.
       bind_exec (lru_contains_key H k) (\<lambda>there.
       bind_exec (lru_get H k) (\<lambda>again. ret (got, removed, there, again))))))) c
    (\<lambda>r c'. r = (Some v, Some v, False, None) \<and> lru_cache_inv H c')"
proof -
  have ins: "runs_to (lru_insert H k v) c (\<lambda>_ c'. lru_cache_inv H c' \<and> lru_cache_view H c' k = Some v)"
    unfolding lru_insert_def
    by (rule runs_to_mono [OF runs_to_both [OF lru_shard.cache_insert [OF assms cache_ready_True]
          lru_shard.cache_insert_stores [OF assms cache_ready_True]]]) simp
  show ?thesis
    by (rule runs_to_seq [OF ins], elim conjE,
        rule runs_to_bind [OF lru_laws(1)], assumption, elim conjE,
        rule runs_to_bind [OF lru_laws(2)], assumption, elim conjE,
        rule runs_to_bind [OF lru_laws(3)], assumption, elim conjE,
        rule runs_to_bind [OF lru_laws(1)], assumption, elim conjE,
        rule runs_to_ret) simp
qed

theorem lru_insert_get_remove_witness:
  "runs_to (seq_exec (lru_insert sample_hashing 5 (50 :: nat))
      (bind_exec (lru_get sample_hashing 5) (\<lambda>got.
       bind_exec (lru_remove sample_hashing 5) (\<lambda>removed.
       bind_exec (lru_contains_key sample_hashing 5) (\<lambda>there.
       bind_exec (lru_get sample_hashing 5) (\<lambda>again. ret (got, removed, there, again))))))) (lru_with_capacity 64)
    (\<lambda>r c'. r = (Some 50, Some 50, False, None) \<and> lru_cache_inv sample_hashing c')"
  by (rule lru_insert_get_remove) (rule lru_new_inv(1), simp)

end
