(* ===== verification/Sized.thy ===== *)
theory Sized
  imports Arena_Steps Cache_Contract
begin

section \<open>SizedCache: the model\<close>

text \<open>
  \<open>src/sized.rs\<close>: one arena under one mutex, each node with its weight, and the running total.
  The node and the arena of \<open>Arena\<close> are extended by \<open>weight\<close> and \<open>total_weight\<close>; the helpers of
  \<open>Inner\<close> are the arena's, at these types. The two eviction loops of \<open>insert\<close> call \<open>evict_tail\<close>
  until the total fits or the list is empty; that they end is proved for every state, since each
  round empties an occupied slot.
\<close>

record ('k, 'v) sized_node = "('k, 'v) node" +
  weight :: usize

record ('k, 'v) sized_inner = "('k, 'v, unit sized_node_ext) arena" +
  total_weight :: usize

record ('k, 'v) sized_cache =
  max_weight :: usize
  weigher :: "'v \<Rightarrow> usize"
  sized_mutex :: "('k, 'v) sized_inner mutex"

definition sized_inner_new :: "('k, 'v) sized_inner" where
  "sized_inner_new =
     \<lparr>nodes = [], free = [], head = None, tail = None, key_map = hm_empty, total_weight = 0\<rparr>"

subsection \<open>The helpers of \<open>Inner\<close>\<close>

definition sized_alloc :: "('k, 'v) sized_node \<Rightarrow> (('k, 'v) sized_inner, nat) exec" where
  "sized_alloc = alloc"

definition sized_dealloc :: "nat \<Rightarrow> (('k, 'v) sized_inner, ('k, 'v) sized_node) exec" where
  "sized_dealloc = dealloc"

definition sized_unlink :: "nat \<Rightarrow> (('k, 'v) sized_inner, unit) exec" where
  "sized_unlink = unlink"

definition sized_push_front :: "nat \<Rightarrow> (('k, 'v) sized_inner, unit) exec" where
  "sized_push_front = push_front"

definition sized_promote :: "nat \<Rightarrow> (('k, 'v) sized_inner, unit) exec" where
  "sized_promote = promote"

lemmas sized_helpers = sized_alloc_def sized_dealloc_def sized_unlink_def sized_push_front_def
  sized_promote_def

definition evict_tail :: "(('k, 'v) sized_inner, ('k \<times> usize) option) exec" where
  "evict_tail =
     bind_exec (gets tail) (\<lambda>t. case t of
       None \<Rightarrow> ret None
     | Some tail_idx \<Rightarrow>
         seq_exec (sized_unlink tail_idx)
         (bind_exec (sized_dealloc tail_idx) (\<lambda>node.
           seq_exec (modify (\<lambda>s. s\<lparr>total_weight := sat_sub (total_weight s) (weight node)\<rparr>))
           (ret (Some (node_key node, weight node))))))"

subsection \<open>The eviction loops\<close>

text \<open>Which slots are occupied: no helper but \<open>alloc\<close> and \<open>dealloc\<close> changes it.\<close>

definition occupied_slots :: "('k, 'v, 'm, 'z) arena_scheme \<Rightarrow> nat set" where
  "occupied_slots s = {i. i < length (nodes s) \<and> nodes s ! i \<noteq> None}"

lemma finite_occupied [simp]: "finite (occupied_slots s)"
  by (rule finite_subset [of _ "{..<length (nodes s)}"]) (auto simp: occupied_slots_def)

lemma occupied_updates [simp]:
  "occupied_slots (s\<lparr>head := h\<rparr>) = occupied_slots s"
  "occupied_slots (s\<lparr>tail := h\<rparr>) = occupied_slots s"
  "occupied_slots (s\<lparr>free := F\<rparr>) = occupied_slots s"
  "occupied_slots (s\<lparr>key_map := M\<rparr>) = occupied_slots s"
  by (simp_all add: occupied_slots_def)

lemma mutate_occupied: "mutate i f s = (Done u, s') \<Longrightarrow> occupied_slots s' = occupied_slots s"
  by (auto simp: mutate_def occupied_def slot_def put_slot_def bind_exec_def occupied_slots_def
      nth_list_update split: if_splits option.splits)

lemma mutate_if_occupied: "mutate_if i f s = (Done u, s') \<Longrightarrow> occupied_slots s' = occupied_slots s"
  by (auto simp: mutate_if_def slot_def put_slot_def bind_exec_def occupied_slots_def
      nth_list_update split: if_splits option.splits)

lemma exec_DoneE:
  "bind_exec m f s = (Done b, s') \<Longrightarrow> \<exists>a s1. m s = (Done a, s1) \<and> f a s1 = (Done b, s')"
  "seq_exec m n s = (Done b, s') \<Longrightarrow> \<exists>a s1. m s = (Done a, s1) \<and> n s1 = (Done b, s')"
  by (auto simp: exec_apply split: prod.splits outcome.splits)

lemma relink_write_occupied:
  "(case x of Some p \<Rightarrow> mutate p f | None \<Rightarrow> modify (\<lambda>s. s\<lparr>head := h\<rparr>)) s = (Done u, s') \<Longrightarrow>
    occupied_slots s' = occupied_slots s"
  "(case x of Some p \<Rightarrow> mutate p f | None \<Rightarrow> modify (\<lambda>s. s\<lparr>tail := h\<rparr>)) s = (Done u, s') \<Longrightarrow>
    occupied_slots s' = occupied_slots s"
  by (auto split: option.splits dest: mutate_occupied)

lemma unlink_occupied:
  assumes "unlink i s = (Done u, s')"
  shows "occupied_slots s' = occupied_slots s"
proof -
  from assms obtain n s0 where n: "occupied i s = (Done n, s0)"
    and rest: "seq_exec (case node_prev n of Some p \<Rightarrow> mutate p (\<lambda>m. m\<lparr>node_next := node_next n\<rparr>)
         | None \<Rightarrow> modify (\<lambda>s. s\<lparr>head := node_next n\<rparr>))
       (seq_exec (case node_next n of Some q \<Rightarrow> mutate q (\<lambda>m. m\<lparr>node_prev := node_prev n\<rparr>)
         | None \<Rightarrow> modify (\<lambda>s. s\<lparr>tail := node_prev n\<rparr>))
       (mutate_if i (\<lambda>m. m\<lparr>node_prev := None, node_next := None\<rparr>))) s0 = (Done u, s')"
    unfolding unlink_def Let_def by (blast dest: exec_DoneE(1))
  have "s0 = s" using n by (auto simp: occupied_def slot_def exec_apply split: if_splits option.splits)
  with rest obtain a b s1 s2 where
    "(case node_prev n of Some p \<Rightarrow> mutate p (\<lambda>m. m\<lparr>node_next := node_next n\<rparr>)
         | None \<Rightarrow> modify (\<lambda>s. s\<lparr>head := node_next n\<rparr>)) s = (Done a, s1)"
    "(case node_next n of Some q \<Rightarrow> mutate q (\<lambda>m. m\<lparr>node_prev := node_prev n\<rparr>)
         | None \<Rightarrow> modify (\<lambda>s. s\<lparr>tail := node_prev n\<rparr>)) s1 = (Done b, s2)"
    "mutate_if i (\<lambda>m. m\<lparr>node_prev := None, node_next := None\<rparr>) s2 = (Done u, s')"
    by (blast dest: exec_DoneE(2))
  then show ?thesis
    using relink_write_occupied(1) relink_write_occupied(2) mutate_if_occupied by (metis (no_types))
qed

lemma dealloc_occupied:
  "dealloc i s = (Done n, s') \<Longrightarrow> occupied_slots s' = occupied_slots s - {i} \<and> i \<in> occupied_slots s"
  by (auto simp: dealloc_def occupied_def slot_def put_slot_def exec_apply occupied_slots_def
      nth_list_update split: if_splits option.splits)

lemma evict_tail_occupied:
  assumes "evict_tail s = (Done (Some e), s')"
  shows "card (occupied_slots s') < card (occupied_slots s)"
proof -
  have total: "occupied_slots (s\<lparr>total_weight := w\<rparr>) = occupied_slots s" for s :: "('k, 'v) sized_inner" and w
    by (simp add: occupied_slots_def)
  from assms obtain t s1 n s2 where "unlink t s = (Done (), s1)" "dealloc t s1 = (Done n, s2)"
      "occupied_slots s' = occupied_slots s2"
    unfolding evict_tail_def sized_helpers
    by (auto dest!: exec_DoneE simp: total split: option.splits)
  then have "occupied_slots s' = occupied_slots s - {t}" "t \<in> occupied_slots s"
    using unlink_occupied dealloc_occupied by blast+
  then show ?thesis by (metis card_Diff1_less finite_occupied)
qed

text \<open>
  \<open>while guard(total_weight) { match evict_tail() { Some((k, _)) => forget(k), None => break } }\<close>;
  the loop after a live update forgets nothing, the one before a new entry removes the key from
  the map.
\<close>

function evict_while ::
  "(usize \<Rightarrow> bool) \<Rightarrow> ('k \<Rightarrow> ('k, nat) hash_map \<Rightarrow> ('k, nat) hash_map) \<Rightarrow> (('k, 'v) sized_inner, unit) exec" where
  "evict_while guard forget s =
     (if guard (total_weight s)
      then case evict_tail s of
             (Panicked p, s') \<Rightarrow> (Panicked p, s')
           | (Done None, s') \<Rightarrow> (Done (), s')
           | (Done (Some (k, w)), s') \<Rightarrow> evict_while guard forget (s'\<lparr>key_map := forget k (key_map s')\<rparr>)
      else (Done (), s))"
  by pat_completeness auto
termination
  by (relation "measure (\<lambda>(g, f, s). card (occupied_slots s))")
    (auto dest: evict_tail_occupied [OF sym])

declare evict_while.simps [simp del]

subsection \<open>The bodies of the methods, under the lock\<close>

definition sized_get_inner :: "'k \<Rightarrow> (('k, 'v) sized_inner, 'v option) exec" where
  "sized_get_inner key =
     bind_exec (gets (\<lambda>s. hm_get (key_map s) key)) (\<lambda>found. case found of
       None \<Rightarrow> ret None
     | Some idx \<Rightarrow>
         seq_exec (sized_promote idx)
         (bind_exec (slot idx) (\<lambda>n. ret (map_option node_value n))))"

text \<open>\<open>while inner.total_weight > self.max_weight { if evict_tail().is_none() { break } }\<close>.\<close>

definition evict_overshoot :: "usize \<Rightarrow> (('k, 'v) sized_inner, unit) exec" where
  "evict_overshoot limit = evict_while (\<lambda>total. limit < total) (\<lambda>_ m. m)"

text \<open>\<open>while inner.total_weight.saturating_add(new_weight) > self.max_weight\<close>, removing evicted keys.\<close>

definition evict_to_fit :: "usize \<Rightarrow> usize \<Rightarrow> (('k, 'v) sized_inner, unit) exec" where
  "evict_to_fit limit new_weight = evict_while (\<lambda>total. limit < sat_add total new_weight) hm_remove"

definition sized_live_update :: "usize \<Rightarrow> usize \<Rightarrow> 'v \<Rightarrow> nat \<Rightarrow> (('k, 'v) sized_inner, 'v option) exec" where
  "sized_live_update limit new_weight value idx =
     bind_exec (occupied idx) (\<lambda>old.
     seq_exec (mutate idx (\<lambda>n. n\<lparr>node_value := value, weight := new_weight\<rparr>))
     (seq_exec (modify (\<lambda>s. s\<lparr>total_weight :=
         sat_sub (sat_add (total_weight s) new_weight) (weight old)\<rparr>))
     (seq_exec (sized_promote idx)
     (seq_exec (evict_overshoot limit)
     (ret (Some (node_value old)))))))"

definition sized_insert_inner :: "usize \<Rightarrow> usize \<Rightarrow> 'k \<Rightarrow> 'v \<Rightarrow> (('k, 'v) sized_inner, 'v option) exec" where
  "sized_insert_inner limit new_weight key value =
     bind_exec (gets (\<lambda>s. hm_get (key_map s) key)) (\<lambda>found. case found of
       Some idx \<Rightarrow> sized_live_update limit new_weight value idx
     | None \<Rightarrow>
         seq_exec (evict_to_fit limit new_weight)
         (bind_exec (sized_alloc \<lparr>node_key = key, node_value = value, node_prev = None,
             node_next = None, weight = new_weight\<rparr>) (\<lambda>idx.
           seq_exec (sized_push_front idx)
           (seq_exec (modify (\<lambda>s. s\<lparr>key_map := hm_insert key idx (key_map s)\<rparr>))
           (seq_exec (modify (\<lambda>s. s\<lparr>total_weight := sat_add (total_weight s) new_weight\<rparr>))
           (ret None))))))"

definition sized_remove_inner :: "'k \<Rightarrow> (('k, 'v) sized_inner, 'v option) exec" where
  "sized_remove_inner key =
     bind_exec (gets (\<lambda>s. hm_get (key_map s) key)) (\<lambda>found. case found of
       None \<Rightarrow> ret None
     | Some idx \<Rightarrow>
         seq_exec (modify (\<lambda>s. s\<lparr>key_map := hm_remove key (key_map s)\<rparr>))
         (seq_exec (sized_unlink idx)
         (bind_exec (sized_dealloc idx) (\<lambda>node.
           seq_exec (modify (\<lambda>s. s\<lparr>total_weight := sat_sub (total_weight s) (weight node)\<rparr>))
           (ret (Some (node_value node)))))))"

definition sized_clear_inner :: "(('k, 'v) sized_inner, unit) exec" where
  "sized_clear_inner = modify (\<lambda>s. (clear_arena s)\<lparr>total_weight := 0\<rparr>)"

subsection \<open>The cache\<close>

text \<open>\<open>self.inner.lock_recover()\<close> and the critical section that follows.\<close>

definition on_inner :: "(('k, 'v) sized_inner, 'a) exec \<Rightarrow> (('k, 'v) sized_cache, 'a) exec" where
  "on_inner f c = (case locked f (sized_mutex c) of (r, m) \<Rightarrow> (r, c\<lparr>sized_mutex := m\<rparr>))"

definition sized_new :: "usize \<Rightarrow> ('v \<Rightarrow> usize) \<Rightarrow> cache_error + ('k, 'v) sized_cache" where
  "sized_new limit w =
     (if limit = 0 then Inl InvalidCapacity
      else Inr \<lparr>max_weight = limit, weigher = w, sized_mutex = mutex_new sized_inner_new\<rparr>)"

definition sized_max_weight :: "('k, 'v) sized_cache \<Rightarrow> usize" where
  "sized_max_weight c = max_weight c"

definition sized_total_weight :: "(('k, 'v) sized_cache, usize) exec" where
  "sized_total_weight = on_inner (gets total_weight)"

definition sized_get :: "'k \<Rightarrow> (('k, 'v) sized_cache, 'v option) exec" where
  "sized_get key = on_inner (sized_get_inner key)"

definition sized_insert :: "'k \<Rightarrow> 'v \<Rightarrow> (('k, 'v) sized_cache, 'v option) exec" where
  "sized_insert key value c =
     (let new_weight = weigher c value
      in if max_weight c < new_weight then (Done None, c)
         else on_inner (sized_insert_inner (max_weight c) new_weight key value) c)"

definition sized_remove :: "'k \<Rightarrow> (('k, 'v) sized_cache, 'v option) exec" where
  "sized_remove key = on_inner (sized_remove_inner key)"

definition sized_contains_key :: "'k \<Rightarrow> (('k, 'v) sized_cache, bool) exec" where
  "sized_contains_key key = on_inner (gets (\<lambda>s. hm_contains (key_map s) key))"

definition sized_len :: "(('k, 'v) sized_cache, nat) exec" where
  "sized_len = on_inner (gets (\<lambda>s. hm_len (key_map s)))"

definition sized_clear :: "(('k, 'v) sized_cache, unit) exec" where
  "sized_clear = on_inner sized_clear_inner"

definition sized_capacity :: "('k, 'v) sized_cache \<Rightarrow> usize" where
  "sized_capacity c = max_weight c"

definition sized_is_empty :: "(('k, 'v) sized_cache, bool) exec" where
  "sized_is_empty = is_empty_of sized_len"

end
