(* ===== verification/Sized_Safety.thy ===== *)
theory Sized_Safety
  imports Sized
begin

section \<open>SizedCache: what holds of every call\<close>

text \<open>
  \<open>sized_list\<close> abstracts the arena to the recency list of keys, values and weights, and
  \<open>sized_rep\<close> is the invariant of the list alone: the links, the free stack, map entries that name
  existing slots, and a running total that never exceeds the listed weights. It says nothing on
  whether the hash map and the list agree, and every call keeps it together with the budget
  (\<open>sized_safe\<close>), also a call that panics. \<open>Sized_Policy\<close> has the invariant that adds the map.
\<close>

type_synonym ('k, 'v) weighted = "('k, 'v \<times> usize) mru"

definition ext_weight :: "'k \<Rightarrow> 'v \<times> unit sized_node_ext \<Rightarrow> 'v \<times> usize" where
  "ext_weight k p = (fst p,
     weight \<lparr>node_key = k, node_value = fst p, node_prev = None, node_next = None, \<dots> = snd p\<rparr>)"

definition sized_list :: "('k, 'v) sized_inner \<Rightarrow> ('k, 'v) weighted" where
  "sized_list s = map (\<lambda>(k, p). (k, ext_weight k p)) (contents s)"

definition weights :: "('k, 'v) weighted \<Rightarrow> nat" where
  "weights E = sum_list (map (\<lambda>(k, v, w). unat w) E)"

lemma weights_simps [simp]:
  "weights [] = 0" "weights ((k, v, w) # E) = unat w + weights E"
  "weights (E @ F) = weights E + weights F"
  by (simp_all add: weights_def)

lemma weights_Cons: "weights (e # E) = unat (snd (snd e)) + weights E"
  by (cases e) simp

lemma ext_weight_node [simp]: "ext_weight (node_key n) (node_value n, node.more n) = (node_value n, weight n)"
  by (cases n) (simp add: ext_weight_def)

lemma weights_split:
  "distinct (map fst E) \<Longrightarrow> map_of E k = Some (v, w) \<Longrightarrow> weights E = unat w + weights (mru_drop k E)"
proof -
  assume "distinct (map fst E)" "map_of E k = Some (v, w)"
  moreover from this(2) obtain E1 E2 where "E = E1 @ (k, v, w) # E2" by (meson map_of_SomeD split_list)
  ultimately show ?thesis using mru_drop_split(1) [of E1 k "(v, w)" E2] by simp
qed

lemma weights_touch: "distinct (map fst E) \<Longrightarrow> weights (mru_touch k E) = weights E"
  using weights_split [of E k] by (auto simp: mru_touch_def mru_put_def split: option.split)

subsection \<open>The list alone\<close>

definition sized_rep :: "('k, 'v) sized_inner \<Rightarrow> bool" where
  "sized_rep s \<longleftrightarrow> arena_rep s (order s) \<and> (\<forall>e \<in> set (key_map s). snd e < length (nodes s)) \<and>
     unat (total_weight s) \<le> weights (sized_list s)"

lemma total_weight_frame:
  "arena.more s' = arena.more s \<Longrightarrow> total_weight (s' :: ('k, 'v) sized_inner) = total_weight s"
  by (cases s; cases s') simp

lemma sized_list_entries: "arena_rep s xs \<Longrightarrow> sized_list s = map (\<lambda>(k, p). (k, ext_weight k p)) (entries s xs)"
  by (simp add: sized_list_def contents_def order_rep)

lemma entry_weight: "entry N i = payload n \<Longrightarrow> (case entry N i of (k, p) \<Rightarrow> (k, ext_weight k p)) = (node_key n, node_value n, weight n)"
  by (simp add: payload_def)

lemma arena_rep_total [simp]:
  "arena_rep (s\<lparr>total_weight := w\<rparr>) xs = arena_rep s xs"
  "entries (s\<lparr>total_weight := w\<rparr>) xs = entries s xs"
  "order (s\<lparr>total_weight := w\<rparr>) = order s"
  "contents (s\<lparr>total_weight := w\<rparr>) = contents s"
  "sized_list (s\<lparr>total_weight := w\<rparr>) = sized_list s"
  by (simp_all add: arena_rep_def arena_slots_def entries_def order_def contents_def sized_list_def)

lemma sized_list_key_map [simp]: "sized_list (s\<lparr>key_map := M\<rparr>) = sized_list s"
  by (simp add: sized_list_def)

lemma tail_None_rep: "arena_rep s (order s) \<Longrightarrow> tail s = None \<longleftrightarrow> order s = []"
  by (auto simp: arena_rep_def dll_def last_of_def)

text \<open>\<open>unlink\<close> and \<open>dealloc\<close> of a listed slot: its entry leaves the list.\<close>

lemma drop_slot_rep:
  fixes s :: "('k, 'v) sized_inner"
  assumes rep: "arena_rep s (order s)" and order: "order s = ys @ x # zs"
  obtains s1 s2 n where "unlink x s = (Done (), s1)" and "dealloc x s1 = (Done n, s2)"
    and "arena_rep s2 (order s2)" and "key_map s2 = key_map s" and "total_weight s2 = total_weight s"
    and "length (nodes s2) = length (nodes s)" and "order s2 = ys @ zs"
    and "entries s2 (ys @ zs) = entries s (ys @ zs)"
    and "sized_list s = map (\<lambda>(k, p). (k, ext_weight k p)) (entries s ys) @
           (node_key n, node_value n, weight n) # map (\<lambda>(k, p). (k, ext_weight k p)) (entries s zs)"
    and "sized_list s2 = map (\<lambda>(k, p). (k, ext_weight k p)) (entries s ys @ entries s zs)"
proof -
  from rep have rep': "arena_rep s (ys @ x # zs)" by (simp add: order)
  from rep' obtain s1 s2 n where u: "unlink x s = (Done (), s1)" "relink s s1" "dealloc x s1 = (Done n, s2)"
      "arena_frame s s2" "payload n = entry (nodes s) x" "arena_rep s2 (ys @ zs)"
      "entries s2 (ys @ zs) = entries s (ys @ zs)"
    by (rule unlink_dealloc_spec)
  have "length (nodes s2) = length (nodes s)"
    using u(2,3) relink_length [of s s1]
    by (auto simp: dealloc_def occupied_def slot_def put_slot_def exec_apply split: if_splits option.splits)
  moreover have "sized_list s2 = map (\<lambda>(k, p). (k, ext_weight k p)) (entries s ys @ entries s zs)"
    using sized_list_entries [OF u(6)] u(7) by simp
  moreover have "sized_list s = map (\<lambda>(k, p). (k, ext_weight k p)) (entries s ys) @
           (node_key n, node_value n, weight n) # map (\<lambda>(k, p). (k, ext_weight k p)) (entries s zs)"
    using sized_list_entries [OF rep'] entry_weight [OF u(5) [symmetric]] by simp
  ultimately show ?thesis
    using that [OF u(1,3)] u(6,7) order_rep [OF u(6)] arena_frame_key_map [OF u(4)]
      total_weight_frame [OF arena_frame_more [OF u(4)]] by simp
qed

lemma evict_tail_rep:
  assumes rep: "arena_rep s (order s)" and tail: "tail s = Some t"
  obtains s' k v w where "evict_tail s = (Done (Some (k, w)), s')" and "arena_rep s' (order s')"
    and "sized_list s = sized_list s' @ [(k, v, w)]" and "key_map s' = key_map s"
    and "total_weight s' = sat_sub (total_weight s) w" and "length (nodes s') = length (nodes s)"
    and "order s = order s' @ [t]" and "entries s' (order s') = entries s (order s')"
proof -
  have "order s \<noteq> []" and "t = last (order s)"
    using rep tail by (auto simp: arena_rep_def dll_def last_of_def split: if_splits)
  then have order: "order s = butlast (order s) @ t # []" by simp
  from rep order obtain s1 s2 n where d: "unlink t s = (Done (), s1)" "dealloc t s1 = (Done n, s2)"
    "arena_rep s2 (order s2)" "key_map s2 = key_map s" "total_weight s2 = total_weight s"
    "length (nodes s2) = length (nodes s)"
    "order s2 = butlast (order s) @ []" "entries s2 (butlast (order s) @ []) = entries s (butlast (order s) @ [])"
    "sized_list s = map (\<lambda>(k, p). (k, ext_weight k p)) (entries s (butlast (order s))) @
       (node_key n, node_value n, weight n) # map (\<lambda>(k, p). (k, ext_weight k p)) (entries s [])"
    "sized_list s2 = map (\<lambda>(k, p). (k, ext_weight k p)) (entries s (butlast (order s)) @ entries s [])"
    by (rule drop_slot_rep)
  let ?s = "s2\<lparr>total_weight := sat_sub (total_weight s2) (weight n)\<rparr>"
  have "evict_tail s = (Done (Some (node_key n, weight n)), ?s)"
    using tail d(1,2) by (simp add: evict_tail_def sized_helpers exec_apply)
  moreover have "order s = butlast (order s) @ [t]" using order by simp
  ultimately show ?thesis using d by (intro that [of "node_key n" "weight n" ?s "node_value n"]) simp_all
qed

lemma evict_tail_None:
  assumes "arena_rep s (order s)" and "tail s = None"
  shows "evict_tail s = (Done None, s)" and "sized_list s = []"
proof -
  have "order s = []" using assms tail_None_rep by blast
  then show "sized_list s = []" by (simp add: sized_list_def contents_def)
  show "evict_tail s = (Done None, s)" using assms(2) by (simp add: evict_tail_def)
qed

text \<open>
  The loop rule: an invariant that makes the tail evictable whenever the guard holds is kept, and
  the loop ends with the guard false. A total above zero means that there is a tail.
\<close>

lemma evict_while_rule:
  assumes step: "\<And>s. I s \<Longrightarrow> guard (total_weight s) \<Longrightarrow> \<exists>k w s'.
      evict_tail s = (Done (Some (k, w)), s') \<and> I (s'\<lparr>key_map := forget k (key_map s')\<rparr>)"
    and start: "I s"
  shows "runs_to (evict_while guard forget) s (\<lambda>_ s'. I s' \<and> \<not> guard (total_weight s'))"
  using start
proof (induction "card (occupied_slots s)" arbitrary: s rule: less_induct)
  case less
  show ?case
  proof (cases "guard (total_weight s)")
    case False
    with less.prems show ?thesis
      by (intro runs_toI [of _ _ "()" s]) (simp_all add: evict_while.simps)
  next
    case True
    from step [OF less.prems True] obtain k w s' where e: "evict_tail s = (Done (Some (k, w)), s')"
      "I (s'\<lparr>key_map := forget k (key_map s')\<rparr>)" by blast
    have "card (occupied_slots (s'\<lparr>key_map := forget k (key_map s')\<rparr>)) < card (occupied_slots s)"
      using evict_tail_occupied [OF e(1)] by simp
    from less.hyps [OF this e(2)] show ?thesis
      using True e(1) by (simp add: runs_to_def evict_while.simps [of guard forget s])
  qed
qed

lemma sized_rep_tail: "sized_rep s \<Longrightarrow> tail s = None \<Longrightarrow> total_weight s = 0"
  using evict_tail_None(2) [of s] by (simp add: sized_rep_def unat_eq_zero)

lemma evict_while_rep:
  assumes "sized_rep s" and zero: "\<not> guard 0" and forget: "\<And>k m. set (forget k m) \<subseteq> set m"
  shows "runs_to (evict_while guard forget) s (\<lambda>_ s'. sized_rep s' \<and> \<not> guard (total_weight s'))"
proof (rule evict_while_rule)
  fix s :: "('a, 'b) sized_inner" assume s: "sized_rep s" "guard (total_weight s)"
  have rep: "arena_rep s (order s)" using s by (simp add: sized_rep_def)
  from s zero sized_rep_tail obtain t where "tail s = Some t" by fastforce
  with rep obtain s' k v w where e: "evict_tail s = (Done (Some (k, w)), s')"
    "arena_rep s' (order s')" "sized_list s = sized_list s' @ [(k, v, w)]" "key_map s' = key_map s"
    "total_weight s' = sat_sub (total_weight s) w" "length (nodes s') = length (nodes s)"
    "order s = order s' @ [t]" "entries s' (order s') = entries s (order s')"
    by (rule evict_tail_rep)
  have "set (forget k (key_map s')) \<subseteq> set (key_map s)" using forget e(4) by simp
  then have "sized_rep (s'\<lparr>key_map := forget k (key_map s')\<rparr>)"
    using s(1) e by (auto simp: sized_rep_def sat_simps)
  with e(1) show "\<exists>k w s'. evict_tail s = (Done (Some (k, w)), s') \<and>
      sized_rep (s'\<lparr>key_map := forget k (key_map s')\<rparr>)" by blast
qed (rule assms)

subsection \<open>Every call keeps the list and the budget, also one that panics\<close>

definition sized_safe :: "usize \<Rightarrow> ('k, 'v) sized_inner \<Rightarrow> bool" where
  "sized_safe limit s \<longleftrightarrow> sized_rep s \<and> total_weight s \<le> limit"

text \<open>\<open>stays P f s\<close>: \<open>f\<close> returns or hits an \<open>unreachable!()\<close>, and leaves a state with \<open>P\<close>.\<close>

definition stays :: "('s \<Rightarrow> bool) \<Rightarrow> ('s, 'a) exec \<Rightarrow> 's \<Rightarrow> bool" where
  "stays P f s \<longleftrightarrow> P (snd (f s)) \<and> (\<forall>p. fst (f s) = Panicked p \<longrightarrow> p = Unreachable)"

lemma staysI: "f s = (Done a, s') \<Longrightarrow> P s' \<Longrightarrow> stays P f s"
  "f s = (Panicked Unreachable, s') \<Longrightarrow> P s' \<Longrightarrow> stays P f s"
  by (simp_all add: stays_def)

lemma stays_runs: "runs_to f s (\<lambda>_ s'. P s') \<Longrightarrow> stays P f s"
  by (auto simp: runs_to_def stays_def)

lemma sized_rep_key_map:
  "sized_rep s \<Longrightarrow> set M \<subseteq> set (key_map s) \<Longrightarrow> sized_rep (s\<lparr>key_map := M\<rparr>)"
  by (auto simp: sized_rep_def)

lemma set_hm_remove: "set (hm_remove k m) \<subseteq> set m"
  by (auto simp: hm_remove_filter)

text \<open>A key in the map names a slot; the slot is listed, or the helpers panic on it at once.\<close>

lemma sized_slot_cases:
  fixes s :: "('k, 'v) sized_inner"
  assumes rep: "sized_rep s" and get: "hm_get (key_map s) k = Some i"
  obtains (stale) "occupied i s = (Panicked Unreachable, s)" "unlink i s = (Panicked Unreachable, s)"
      "promote i s = (Panicked Unreachable, s)"
    | (listed) ys zs n where "order s = ys @ i # zs" "i < length (nodes s)" "nodes s ! i = Some n"
      "entry (nodes s) i = payload n"
proof -
  have r: "arena_rep s (order s)" using rep by (simp add: sized_rep_def)
  have i: "i < length (nodes s)"
    using rep get by (force simp: sized_rep_def hm_get_def dest: map_of_SomeD)
  from r i show ?thesis
  proof (cases rule: arena_slot_cases)
    case free
    then have o: "occupied i s = (Panicked Unreachable, s)"
      using i by (simp add: occupied_def slot_def exec_apply)
    then have u: "unlink i s = (Panicked Unreachable, s)" by (simp add: unlink_def bind_exec_def)
    have "head s \<noteq> Some i"
      using r free(2) by (cases "order s") (auto simp: arena_rep_def dll_def)
    with u have "promote i s = (Panicked Unreachable, s)" by (simp add: promote_def exec_apply)
    with o u show ?thesis by (rule stale)
  next
    case (listed ys zs n)
    with i that(2) show ?thesis by blast
  qed
qed

lemma sized_touch_rep:
  fixes s :: "('k, 'v) sized_inner"
  assumes rep: "sized_rep s" and order: "order s = ys @ i # zs" and i: "i < length (nodes s)"
  obtains s' m where "promote i s = (Done (), s')" and "sized_rep s'"
    and "total_weight s' = total_weight s" and "i < length (nodes s')" and "nodes s' ! i = Some m"
proof -
  let ?F = "map (\<lambda>(k, p). (k, ext_weight k p))"
  have r: "arena_rep s (ys @ i # zs)" using rep order by (simp add: sized_rep_def)
  then obtain s' where p: "promote i s = (Done (), s')" "relink s s'" "arena_rep s' (i # ys @ zs)"
      "entries s' (i # ys @ zs) = entry (nodes s) i # entries s (ys @ zs)"
    by (rule promote_rep)
  have total: "total_weight s' = total_weight s"
    using p(2) by (intro total_weight_frame arena_frame_more relink_frame)
  have "weights (sized_list s') = weights (sized_list s)"
    unfolding sized_list_entries [OF p(3)] sized_list_entries [OF r] p(4)
    by (cases "entry (nodes s) i") (simp add: weights_Cons)
  then have "sized_rep s'"
    using rep total p(3) order_rep [OF p(3)] arena_frame_key_map [OF relink_frame [OF p(2)]] relink_length [OF p(2)]
    by (simp add: sized_rep_def)
  moreover have "i < length (nodes s')" using i relink_length [OF p(2)] by simp
  moreover obtain m where "nodes s' ! i = Some m"
    using arena_rep_slot [OF p(3), of i] by auto
  ultimately show ?thesis using that p(1) total by blast
qed

lemma sized_get_safe: "sized_safe limit s \<Longrightarrow> stays (sized_safe limit) (sized_get_inner k) s"
proof (cases "hm_get (key_map s) k")
  case None
  assume "sized_safe limit s"
  with None show ?thesis by (intro staysI(1) [of _ _ None s]) (simp_all add: sized_get_inner_def)
next
  case (Some i)
  assume safe: "sized_safe limit s"
  then have rep: "sized_rep s" by (simp add: sized_safe_def)
  from rep Some show ?thesis
  proof (cases rule: sized_slot_cases)
    case stale
    then have "sized_get_inner k s = (Panicked Unreachable, s)"
      using Some by (simp add: sized_get_inner_def sized_helpers exec_apply)
    then show ?thesis using safe by (rule staysI(2))
  next
    case (listed ys zs n)
    with rep obtain s' m where "promote i s = (Done (), s')" "sized_rep s'"
      "total_weight s' = total_weight s" "i < length (nodes s')" "nodes s' ! i = Some m"
      by (metis sized_touch_rep)
    moreover from this Some have "sized_get_inner k s = (Done (Some (node_value m)), s')"
      by (simp add: sized_get_inner_def sized_helpers slot_def exec_apply)
    ultimately show ?thesis using safe by (simp add: stays_def sized_safe_def)
  qed
qed

lemma sized_drop_rep:
  fixes s :: "('k, 'v) sized_inner"
  assumes rep: "sized_rep s" and order: "order s = ys @ i # zs"
  obtains s1 s2 n where "unlink i s = (Done (), s1)" and "dealloc i s1 = (Done n, s2)"
    and "sized_rep (s2\<lparr>total_weight := sat_sub (total_weight s2) (weight n)\<rparr>)"
    and "total_weight s2 = total_weight s"
proof -
  have "arena_rep s (order s)" using rep by (simp add: sized_rep_def)
  from this order obtain s1 s2 n where d: "unlink i s = (Done (), s1)" "dealloc i s1 = (Done n, s2)"
    "arena_rep s2 (order s2)" "key_map s2 = key_map s" "total_weight s2 = total_weight s"
    "length (nodes s2) = length (nodes s)"
    "order s2 = ys @ zs" "entries s2 (ys @ zs) = entries s (ys @ zs)"
    "sized_list s = map (\<lambda>(k, p). (k, ext_weight k p)) (entries s ys) @
       (node_key n, node_value n, weight n) # map (\<lambda>(k, p). (k, ext_weight k p)) (entries s zs)"
    "sized_list s2 = map (\<lambda>(k, p). (k, ext_weight k p)) (entries s ys @ entries s zs)"
    by (rule drop_slot_rep)
  then show ?thesis
    using rep by (intro that [OF d(1,2)]) (auto simp: sized_rep_def sat_simps)
qed

lemma sized_safe_total: "sat_sub a b \<le> a"
  by (simp add: word_le_nat_alt sat_simps)

lemma sized_remove_safe:
  assumes safe: "sized_safe limit s"
  shows "stays (sized_safe limit) (sized_remove_inner k) s"
proof (cases "hm_get (key_map s) k")
  case None
  with safe show ?thesis by (intro staysI(1) [of _ _ None s]) (simp_all add: sized_remove_inner_def)
next
  case (Some i)
  let ?s = "s\<lparr>key_map := hm_remove k (key_map s)\<rparr>"
  have rep: "sized_rep s" and rep': "sized_rep ?s" and total: "total_weight s \<le> limit"
    using safe sized_rep_key_map [of s, OF _ set_hm_remove] by (simp_all add: sized_safe_def)
  from rep Some show ?thesis
  proof (cases rule: sized_slot_cases)
    case stale
    then have "unlink i ?s = (Panicked Unreachable, ?s)"
      by (auto simp: unlink_def occupied_def slot_def exec_apply split: if_splits option.splits prod.splits outcome.splits)
    then have "sized_remove_inner k s = (Panicked Unreachable, ?s)"
      using Some by (simp add: sized_remove_inner_def sized_helpers exec_apply)
    then show ?thesis using rep' total by (simp add: stays_def sized_safe_def)
  next
    case (listed ys zs n)
    then have "order ?s = ys @ i # zs" by simp
    with rep' obtain s1 s2 m where d: "unlink i ?s = (Done (), s1)" "dealloc i s1 = (Done m, s2)"
      "sized_rep (s2\<lparr>total_weight := sat_sub (total_weight s2) (weight m)\<rparr>)"
      "total_weight s2 = total_weight ?s"
      by (rule sized_drop_rep)
    then have "sized_remove_inner k s =
        (Done (Some (node_value m)), s2\<lparr>total_weight := sat_sub (total_weight s2) (weight m)\<rparr>)"
      using Some by (simp add: sized_remove_inner_def sized_helpers exec_apply)
    moreover have "sat_sub (total_weight s2) (weight m) \<le> limit"
      using total d(4) sized_safe_total [of "total_weight s2" "weight m"] by simp
    ultimately show ?thesis using d(3) by (simp add: stays_def sized_safe_def)
  qed
qed

lemma sized_clear_safe: "stays (sized_safe limit) sized_clear_inner s"
proof -
  let ?s = "(clear_arena s)\<lparr>total_weight := 0\<rparr>"
  have "arena_inv ?s" by (rule empty_step; simp add: clear_arena_def)
  then have "sized_safe limit ?s"
    by (simp add: sized_safe_def sized_rep_def arena_inv_def clear_arena_def hm_empty_def)
  then show ?thesis by (intro staysI(1)) (simp_all add: sized_clear_inner_def)
qed

lemma sized_overwrite_rep:
  fixes s :: "('k, 'v) sized_inner" and v :: 'v and w :: usize
  assumes rep: "sized_rep s" and order: "order s = ys @ i # zs" and n: "nodes s ! i = Some n"
  defines "s' \<equiv> s\<lparr>nodes := (nodes s)[i := Some (n\<lparr>node_value := v, weight := w\<rparr>)],
      total_weight := sat_sub (sat_add (total_weight s) w) (weight n)\<rparr>"
  shows "sized_rep s'" and "order s' = ys @ i # zs"
proof -
  let ?F = "map (\<lambda>(k, p). (k, ext_weight k p))"
  let ?n = "n\<lparr>node_value := v, weight := w\<rparr>"
  let ?s = "s\<lparr>nodes := (nodes s)[i := Some ?n]\<rparr>"
  have r: "arena_rep s (ys @ i # zs)" using rep order by (simp add: sized_rep_def)
  have n': "entry (nodes s) i = payload n"
    using arena_rep_slot [OF r, of i] n by auto
  have o: "arena_rep ?s (ys @ i # zs)" "entry (nodes ?s) i = payload ?n"
      "entries ?s ys = entries s ys" "entries ?s zs = entries s zs"
    by (rule overwrite_rep [OF r n]; simp)+
  have s': "s' = ?s\<lparr>total_weight := sat_sub (sat_add (total_weight s) w) (weight n)\<rparr>"
    by (simp add: s'_def)
  have lists: "sized_list s = ?F (entries s ys) @ (node_key n, node_value n, weight n) # ?F (entries s zs)"
      "sized_list ?s = ?F (entries s ys) @ (node_key n, v, w) # ?F (entries s zs)"
    using sized_list_entries [OF r] sized_list_entries [OF o(1)] entry_weight [OF n']
      entry_weight [OF o(2)] o(3,4) by simp_all
  show order': "order s' = ys @ i # zs" unfolding s' using order_rep [OF o(1)] by simp
  have "unat (total_weight s) \<le> weights (sized_list s)" using rep by (simp add: sized_rep_def)
  then have "unat (sat_sub (sat_add (total_weight s) w) (weight n)) \<le> weights (sized_list ?s)"
    unfolding lists by (simp add: sat_simps)
  then show "sized_rep s'"
    using rep o(1) order' by (simp add: sized_rep_def s')
qed

lemma sized_live_update_safe:
  assumes safe: "sized_safe limit s" and get: "hm_get (key_map s) k = Some i"
  shows "stays (sized_safe limit) (sized_live_update limit w v i) s"
proof -
  have rep: "sized_rep s" using safe by (simp add: sized_safe_def)
  from rep get show ?thesis
  proof (cases rule: sized_slot_cases)
    case stale
    then have "sized_live_update limit w v i s = (Panicked Unreachable, s)"
      by (simp add: sized_live_update_def exec_apply)
    then show ?thesis using safe by (rule staysI(2))
  next
    case (listed ys zs n)
    let ?s = "s\<lparr>nodes := (nodes s)[i := Some (n\<lparr>node_value := v, weight := w\<rparr>)],
      total_weight := sat_sub (sat_add (total_weight s) w) (weight n)\<rparr>"
    note o = sized_overwrite_rep [OF rep listed(1,3), where v = v and w = w]
    have "i < length (nodes ?s)" using listed by simp
    with o obtain s1 m where p: "promote i ?s = (Done (), s1)" "sized_rep s1"
      by (metis sized_touch_rep)
    obtain s2 where e: "evict_overshoot limit s1 = (Done (), s2)" "sized_safe limit s2"
      using evict_while_rep [OF p(2), of "\<lambda>total. limit < total" "\<lambda>_ m. m"]
      by (auto simp: evict_overshoot_def sized_safe_def elim!: runs_toE)
    have "sized_live_update limit w v i s = (Done (Some (node_value n)), s2)"
      using listed(2,3) p(1) e(1)
      by (simp add: sized_live_update_def sized_helpers exec_apply arena_unfold)
    then show ?thesis using e(2) by (rule staysI(1))
  qed
qed

lemma alloc_push_length:
  assumes "alloc n s = (Done i, s1)" and "push_front i s1 = (Done (), s2)"
  shows "length (nodes s) \<le> length (nodes s2)"
proof -
  have "length (nodes s) \<le> length (nodes s1)"
    using assms(1) by (auto simp: alloc_def put_slot_def exec_apply split: option.splits if_splits)
  moreover have "length (nodes s2) = length (nodes s1)"
    using assms(2) by (auto simp: push_front_def mutate_if_def slot_def put_slot_def exec_apply
        split: option.splits if_splits)
  ultimately show ?thesis by simp
qed

lemma set_hm_insert: "set (hm_insert k i m) \<subseteq> insert (k, i) (set m)"
  unfolding hm_insert_def by (induction m) auto

lemma sized_insert_safe:
  assumes safe: "sized_safe limit s" and w: "w \<le> limit"
  shows "stays (sized_safe limit) (sized_insert_inner limit w k v) s"
proof (cases "hm_get (key_map s) k")
  case (Some i)
  then have "sized_insert_inner limit w k v s = sized_live_update limit w v i s"
    by (simp add: sized_insert_inner_def)
  with sized_live_update_safe [OF safe Some] show ?thesis by (simp add: stays_def)
next
  case None
  have "\<not> limit < sat_add 0 w" using w by (simp add: word_less_nat_alt word_le_nat_alt sat_simps min_le_iff_disj not_less)
  then obtain s1 where e: "evict_to_fit limit w s = (Done (), s1)" "sized_rep s1"
      "sat_add (total_weight s1) w \<le> limit"
    using evict_while_rep [of s "\<lambda>total. limit < sat_add total w" hm_remove, OF _ _ set_hm_remove] safe
    by (auto simp: evict_to_fit_def sized_safe_def elim!: runs_toE)
  let ?n = "\<lparr>node_key = k, node_value = v, node_prev = None, node_next = None, weight = w\<rparr>"
  have r: "arena_rep s1 (order s1)" using e(2) by (simp add: sized_rep_def)
  from r obtain i s2 s3 where a: "alloc ?n s1 = (Done i, s2)" "push_front i s2 = (Done (), s3)"
      "arena_frame s1 s3" "i \<notin> set (order s1)" "arena_rep s3 (i # order s1)"
      "entries s3 (i # order s1) = payload ?n # entries s1 (order s1)"
    by (rule alloc_push_spec)
  let ?s = "s3\<lparr>key_map := hm_insert k i (key_map s1), total_weight := sat_add (total_weight s1) w\<rparr>"
  have frame: "key_map s3 = key_map s1" "total_weight s3 = total_weight s1"
    using arena_frame_key_map [OF a(3)] total_weight_frame [OF arena_frame_more [OF a(3)]] by simp_all
  have run: "sized_insert_inner limit w k v s = (Done None, ?s)"
    using None e(1) a(1,2) frame by (simp add: sized_insert_inner_def sized_helpers exec_apply)
  have len: "length (nodes s1) \<le> length (nodes s3)" using a(1,2) by (rule alloc_push_length)
  have i: "i < length (nodes s3)" using a(5) arena_rep_slot [of s3 "i # order s1" i] by auto
  have keys: "snd e < length (nodes s3)" if "e \<in> set (hm_insert k i (key_map s1))" for e
  proof -
    have "e = (k, i) \<or> e \<in> set (key_map s1)" using that set_hm_insert [of k i "key_map s1"] by auto
    then show ?thesis using i len e(2) by (auto simp: sized_rep_def)
  qed
  have "sized_list s3 = (k, v, w) # sized_list s1"
    using sized_list_entries [OF a(5)] sized_list_entries [OF r] a(6)
    by (simp add: payload_def ext_weight_def)
  then have "sized_rep ?s"
    using e(2) a(5) order_rep [OF a(5)] keys by (auto simp: sized_rep_def sat_simps)
  with run show ?thesis using e(3) by (simp add: stays_def sized_safe_def)
qed

end
