(* ===== verification/Sized_Policy.thy ===== *)
theory Sized_Policy
  imports Sized_Safety
begin

section \<open>SizedCache: the weight budget policy\<close>

text \<open>
  What a \<open>SizedCache\<close> promises, on recency lists of keys, values and weights: an insert puts its
  entry in front and drops entries from the other end until the weights fit the budget. \<open>sized_ok\<close>
  says that the hash map agrees with the list and that the running total is exact. The methods
  refine the policy from every such state, with one exception: a live update whose new weight
  does not fit beside the other entries. It trims the list as the policy says and leaves the
  evicted keys in the map, and the lemmas and properties at the end say what follows.
\<close>

subsection \<open>The policy\<close>

text \<open>What the eviction loops are for: drop from the least recent end until the weights fit.\<close>

fun trim :: "nat \<Rightarrow> ('k, 'v) weighted \<Rightarrow> ('k, 'v) weighted" where
  "trim budget [] = []"
| "trim budget ((k, v, w) # E) =
     (if unat w \<le> budget then (k, v, w) # trim (budget - unat w) E else [])"

definition sized_spec_get :: "'k \<Rightarrow> ('k, 'v) weighted \<Rightarrow> 'v option \<times> ('k, 'v) weighted" where
  "sized_spec_get k E = (map_option fst (map_of E k), mru_touch k E)"

definition sized_spec_insert ::
  "nat \<Rightarrow> usize \<Rightarrow> 'k \<Rightarrow> 'v \<Rightarrow> ('k, 'v) weighted \<Rightarrow> 'v option \<times> ('k, 'v) weighted" where
  "sized_spec_insert budget w k v E =
     (map_option fst (map_of E k), (k, v, w) # trim (budget - unat w) (mru_drop k E))"

definition sized_spec_remove :: "'k \<Rightarrow> ('k, 'v) weighted \<Rightarrow> 'v option \<times> ('k, 'v) weighted" where
  "sized_spec_remove k E = (map_option fst (map_of E k), mru_drop k E)"

lemma trim_id: "weights E \<le> budget \<Longrightarrow> trim budget E = E"
  by (induction budget E rule: trim.induct) auto

lemma trim_snoc: "budget < weights (E @ [e]) \<Longrightarrow> trim budget (E @ [e]) = trim budget E"
  by (induction budget E rule: trim.induct) (cases e; auto)+

lemma weights_trim: "weights (trim budget E) \<le> budget"
  by (induction budget E rule: trim.induct) auto

lemma trim_prefix: "\<exists>F. E = trim budget E @ F"
  by (induction budget E rule: trim.induct) auto

lemma trim_absent: "map_of E k = None \<Longrightarrow> map_of (trim budget E) k = None"
  using trim_prefix [of E budget] by (metis map_add_None map_of_append)

lemma trim_front: "unat w \<le> budget \<Longrightarrow> (k, v, w) # trim (budget - unat w) E = trim budget ((k, v, w) # E)"
  by simp

subsection \<open>The invariant\<close>

definition sized_exact :: "('k, 'v) sized_inner \<Rightarrow> bool" where
  "sized_exact s \<longleftrightarrow> arena_rep s (order s) \<and> unat (total_weight s) = weights (sized_list s)"

definition sized_ok :: "usize \<Rightarrow> ('k, 'v) sized_inner \<Rightarrow> bool" where
  "sized_ok limit s \<longleftrightarrow> arena_inv s \<and> sized_exact s \<and> total_weight s \<le> limit"

lemma arena_inv_total [simp]:
  "arena_inv ((s :: ('k, 'v) sized_inner)\<lparr>total_weight := w\<rparr>) = arena_inv s"
  by (simp add: arena_inv_def keys_rep_def)

lemma sized_exact_key_map [simp]: "sized_exact (s\<lparr>key_map := M\<rparr>) = sized_exact s"
  by (simp add: sized_exact_def)

lemma sized_okD:
  assumes "sized_ok limit s"
  shows "arena_inv s" and "sized_exact s" and "distinct (map fst (sized_list s))"
    and "hm_len (key_map s) = length (sized_list s)"
    and "hm_get (key_map s) k = None \<longleftrightarrow> map_of (sized_list s) k = None"
    and "unat (total_weight s) = weights (sized_list s)"
proof -
  have inv: "arena_inv s" using assms by (simp add: sized_ok_def)
  then show "distinct (map fst (sized_list s))"
    unfolding sized_list_def map_fst_keyed by (rule arena_invD)
qed (use assms in \<open>simp_all add: sized_ok_def sized_exact_def sized_list_def arena_inv_len
      arena_inv_lookup_None map_of_keyed\<close>)

text \<open>The eviction loops: what is left is the trimmed list, and the total stays exact.\<close>

lemma evict_tail_exact:
  assumes exact: "sized_exact s" and pos: "0 < unat (total_weight s)"
  obtains s' k v w where "evict_tail s = (Done (Some (k, w)), s')" and "sized_exact s'"
    and "sized_list s = sized_list s' @ [(k, v, w)]" and "key_map s' = key_map s"
    and "\<And>i. i \<in> set (order s') \<Longrightarrow> i \<in> set (order s) \<and> entry (nodes s') i = entry (nodes s) i"
    and "arena_inv s \<Longrightarrow> arena_inv (s'\<lparr>key_map := hm_remove k (key_map s')\<rparr>)"
    and "length (nodes s') = length (nodes s)"
proof -
  have rep: "arena_rep s (order s)" using exact by (simp add: sized_exact_def)
  have "tail s \<noteq> None"
    using exact pos evict_tail_None(2) [OF rep] by (fastforce simp: sized_exact_def)
  then obtain t where t: "tail s = Some t" by auto
  with rep obtain s' k v w where e: "evict_tail s = (Done (Some (k, w)), s')"
    "arena_rep s' (order s')" "sized_list s = sized_list s' @ [(k, v, w)]" "key_map s' = key_map s"
    "total_weight s' = sat_sub (total_weight s) w" "length (nodes s') = length (nodes s)"
    "order s = order s' @ [t]" "entries s' (order s') = entries s (order s')"
    by (rule evict_tail_rep)
  have "sized_exact s'" using exact e by (simp add: sized_exact_def sat_simps)
  moreover have "i \<in> set (order s) \<and> entry (nodes s') i = entry (nodes s) i" if "i \<in> set (order s')" for i
    using that e(7,8) by (simp add: entries_def)
  moreover have "arena_inv (s'\<lparr>key_map := hm_remove k (key_map s')\<rparr>)" if inv: "arena_inv s"
  proof -
    from inv t obtain s1 s2 n where v: "unlink t s = (Done (), s1)" "dealloc t s1 = (Done n, s2)"
      "arena_frame s s2" "arena_inv (s2\<lparr>key_map := hm_remove (node_key n) (key_map s)\<rparr>)"
      by (metis evict_step)
    then have "k = node_key n \<and> s' = s2\<lparr>total_weight := sat_sub (total_weight s2) (weight n)\<rparr>"
      using e(1) t by (auto simp: evict_tail_def sized_helpers exec_apply)
    moreover have "s2\<lparr>total_weight := x, key_map := M\<rparr> = s2\<lparr>key_map := M, total_weight := x\<rparr>" for x M
      by simp
    ultimately show ?thesis using v(4) arena_frame_key_map [OF v(3)] by (metis arena_inv_total e(4))
  qed
  ultimately show ?thesis using that e by blast
qed

lemma trim_of_fitting:
  "sized_exact s \<Longrightarrow> \<not> budget < unat (total_weight s) \<Longrightarrow> trim budget (sized_list s) = sized_list s"
  by (simp add: sized_exact_def trim_id)

lemma trim_evicted:
  assumes "sized_exact s" and "budget < unat (total_weight s)" and "sized_list s = E @ [e]"
  shows "trim budget E = trim budget (sized_list s)"
  using assms trim_snoc [of budget E e] by (simp add: sized_exact_def)

lemma evict_while_exact:
  assumes guard: "\<And>x. guard x \<longleftrightarrow> budget < unat x" and "sized_exact s" and "arena_inv s"
  shows "runs_to (evict_while guard hm_remove) s (\<lambda>_ s'. arena_inv s' \<and> sized_exact s' \<and>
           sized_list s' = trim budget (sized_list s))"
proof -
  let ?I = "\<lambda>s'. arena_inv s' \<and> sized_exact s' \<and> trim budget (sized_list s') = trim budget (sized_list s)"
  have "runs_to (evict_while guard hm_remove) s (\<lambda>_ s'. ?I s' \<and> \<not> guard (total_weight s'))"
  proof (rule evict_while_rule)
    fix r :: "('a, 'b) sized_inner" assume I: "?I r" and g: "guard (total_weight r)"
    then have "sized_exact r" "0 < unat (total_weight r)" by (auto simp: guard)
    then obtain r' k v w where e: "evict_tail r = (Done (Some (k, w)), r')" "sized_exact r'"
      "sized_list r = sized_list r' @ [(k, v, w)]"
      "arena_inv r \<Longrightarrow> arena_inv (r'\<lparr>key_map := hm_remove k (key_map r')\<rparr>)"
      by (rule evict_tail_exact) blast
    moreover have "trim budget (sized_list r') = trim budget (sized_list r)"
      using I g e(3) by (intro trim_evicted) (auto simp: guard)
    ultimately show "\<exists>k w r'. evict_tail r = (Done (Some (k, w)), r') \<and>
        ?I (r'\<lparr>key_map := hm_remove k (key_map r')\<rparr>)"
      using I by auto
  qed (use assms in simp)
  then show ?thesis
    by (rule runs_to_mono) (metis guard trim_of_fitting)
qed

lemma evict_overshoot_exact:
  assumes "sized_exact s"
  shows "runs_to (evict_overshoot limit) s (\<lambda>_ s'. sized_exact s' \<and> key_map s' = key_map s \<and>
           length (nodes s') = length (nodes s) \<and> sized_list s' = trim (unat limit) (sized_list s) \<and>
           (\<forall>i \<in> set (order s'). i \<in> set (order s) \<and> entry (nodes s') i = entry (nodes s) i))"
proof -
  let ?I = "\<lambda>s'. sized_exact s' \<and> key_map s' = key_map s \<and> length (nodes s') = length (nodes s) \<and>
      trim (unat limit) (sized_list s') = trim (unat limit) (sized_list s) \<and>
      (\<forall>i \<in> set (order s'). i \<in> set (order s) \<and> entry (nodes s') i = entry (nodes s) i)"
  have "runs_to (evict_overshoot limit) s (\<lambda>_ s'. ?I s' \<and> \<not> limit < total_weight s')"
    unfolding evict_overshoot_def
  proof (rule evict_while_rule)
    fix r :: "('a, 'b) sized_inner" assume I: "?I r" and g: "limit < total_weight r"
    then have "sized_exact r" "0 < unat (total_weight r)" by (auto simp: word_less_nat_alt)
    then obtain r' k v w where e: "evict_tail r = (Done (Some (k, w)), r')" "sized_exact r'"
      "sized_list r = sized_list r' @ [(k, v, w)]" "key_map r' = key_map r"
      "\<And>i. i \<in> set (order r') \<Longrightarrow> i \<in> set (order r) \<and> entry (nodes r') i = entry (nodes r) i"
      "length (nodes r') = length (nodes r)"
      by (rule evict_tail_exact) blast
    moreover have "trim (unat limit) (sized_list r') = trim (unat limit) (sized_list r)"
      using I g e(3) by (intro trim_evicted) (auto simp: word_less_nat_alt)
    ultimately show "\<exists>k w r'. evict_tail r = (Done (Some (k, w)), r') \<and> ?I (r'\<lparr>key_map := key_map r'\<rparr>)"
      using I by auto
  qed (use assms in simp)
  then show ?thesis
    by (rule runs_to_mono) (metis trim_of_fitting word_less_nat_alt)
qed

subsection \<open>The methods against the policy\<close>

lemma sized_list_lookup:
  "map_of (contents s) k = Some p \<Longrightarrow> map_of (sized_list s) k = Some (ext_weight k p)"
  "map_of (contents s) k = None \<Longrightarrow> map_of (sized_list s) k = None"
  by (simp_all add: sized_list_def map_of_keyed)

lemma fst_ext_weight [simp]: "fst (ext_weight k p) = fst p"
  by (simp add: ext_weight_def)

lemma sized_okI:
  assumes "arena_inv s" and "unat (total_weight s) = weights (sized_list s)" and "total_weight s \<le> limit"
  shows "sized_ok limit s"
  using assms by (simp add: sized_ok_def sized_exact_def arena_inv_def)

lemma sized_ok_new:
  "sized_ok limit (sized_inner_new :: ('a, 'b) sized_inner)"
  "sized_list (sized_inner_new :: ('a, 'b) sized_inner) = []"
proof -
  have e: "arena_inv (sized_inner_new :: ('a, 'b) sized_inner)" "contents (sized_inner_new :: ('a, 'b) sized_inner) = []"
    by (rule empty_step; simp add: sized_inner_new_def)+
  then show "sized_list (sized_inner_new :: ('a, 'b) sized_inner) = []" by (simp add: sized_list_def)
  with e show "sized_ok limit (sized_inner_new :: ('a, 'b) sized_inner)"
    by (intro sized_okI) (simp_all add: sized_inner_new_def)
qed

lemma sized_get_refines:
  assumes ok: "sized_ok limit s"
  shows "runs_to (sized_get_inner k) s (\<lambda>r s'. (r, sized_list s') = sized_spec_get k (sized_list s) \<and>
           sized_ok limit s')"
proof (cases "hm_get (key_map s) k")
  case None
  then have "sized_get_inner k s = (Done None, s)" by (simp add: sized_get_inner_def)
  moreover have "map_of (sized_list s) k = None" using None sized_okD(5) [OF ok] by simp
  ultimately show ?thesis
    using ok by (auto simp: sized_spec_get_def mru_touch_def intro!: runs_toI)
next
  case (Some i)
  from sized_okD(1) [OF ok] Some obtain s' n where t: "promote i s = (Done (), s')" "relink s s'"
      "arena_inv s'" "contents s' = mru_touch k (contents s)" "i < length (nodes s')"
      "nodes s' ! i = Some n" "map_of (contents s) k = Some (node_value n, node.more n)"
    by (rule touch_step)
  have total: "total_weight s' = total_weight s"
    using t(2) by (intro total_weight_frame arena_frame_more relink_frame)
  have list: "sized_list s' = mru_touch k (sized_list s)"
    unfolding sized_list_def mru_touch_keyed t(4) ..
  have "sized_get_inner k s = (Done (Some (node_value n)), s')"
    using Some t by (simp add: sized_get_inner_def sized_helpers exec_apply slot_def)
  moreover have "sized_ok limit s'"
    using ok t(3) total list weights_touch [OF sized_okD(3) [OF ok]] sized_okD(6) [OF ok]
    by (intro sized_okI) (simp_all add: sized_ok_def)
  ultimately show ?thesis
    using list sized_list_lookup(1) [OF t(7)] by (auto simp: sized_spec_get_def intro!: runs_toI)
qed

lemma sized_remove_refines:
  assumes ok: "sized_ok limit s"
  shows "runs_to (sized_remove_inner k) s (\<lambda>r s'. (r, sized_list s') = sized_spec_remove k (sized_list s) \<and>
           sized_ok limit s')"
proof (cases "hm_get (key_map s) k")
  case None
  then have "sized_remove_inner k s = (Done None, s)" by (simp add: sized_remove_inner_def)
  moreover have "map_of (sized_list s) k = None" using None sized_okD(5) [OF ok] by simp
  ultimately show ?thesis
    using ok by (auto simp: sized_spec_remove_def mru_drop_absent intro!: runs_toI)
next
  case (Some i)
  from sized_okD(1) [OF ok] Some obtain s1 s2 n where
      d: "unlink i (s\<lparr>key_map := hm_remove k (key_map s)\<rparr>) = (Done (), s1)"
      "dealloc i s1 = (Done n, s2)" "arena_frame (s\<lparr>key_map := hm_remove k (key_map s)\<rparr>) s2"
      "arena_inv s2" "contents s2 = mru_drop k (contents s)"
      "map_of (contents s) k = Some (node_value n, node.more n)"
    by (rule remove_step)
  let ?s = "s2\<lparr>total_weight := sat_sub (total_weight s2) (weight n)\<rparr>"
  have total: "total_weight s2 = total_weight s"
    using total_weight_frame [OF arena_frame_more [OF d(3)]] by simp
  have run: "sized_remove_inner k s = (Done (Some (node_value n)), ?s)"
    using Some d(1,2) by (simp add: sized_remove_inner_def sized_helpers exec_apply)
  have list: "sized_list ?s = mru_drop k (sized_list s)"
    unfolding arena_rep_total sized_list_def mru_drop_keyed d(5) ..
  have old: "map_of (sized_list s) k = Some (node_value n, weight n)"
    using sized_list_lookup(1) [OF d(6)] by (cases n) (simp add: ext_weight_def)
  have "weights (sized_list s) = unat (weight n) + weights (mru_drop k (sized_list s))"
    using old by (rule weights_split [OF sized_okD(3) [OF ok]])
  then have "unat (total_weight ?s) = weights (sized_list ?s)"
    unfolding list using sized_okD(6) [OF ok] total by (simp add: sat_simps)
  moreover have "total_weight ?s \<le> limit"
    using order_trans [OF sized_safe_total, of "total_weight s2" limit] ok total by (simp add: sized_ok_def)
  ultimately have "sized_ok limit ?s" using d(4) by (intro sized_okI) simp_all
  with run list old show ?thesis by (auto simp: sized_spec_remove_def intro!: runs_toI)
qed

lemma sized_clear_refines:
  "runs_to sized_clear_inner s (\<lambda>_ s'. sized_list s' = [] \<and> sized_ok limit s')"
proof -
  let ?s = "(clear_arena s)\<lparr>total_weight := 0\<rparr>"
  have list: "sized_list ?s = []"
    using clear_arena_step(2) [of s] by (simp add: sized_list_def)
  then have "sized_ok limit ?s"
    using clear_arena_step(1) [of s] by (intro sized_okI) simp_all
  with list show ?thesis by (intro runs_toI [of _ _ "()" ?s]) (simp_all add: sized_clear_inner_def)
qed

text \<open>
  A live update, up to its loop: the new entry is in front, the total is exact (the saturating sum
  does not saturate, since the budget is below half the word), and the map is untouched.
\<close>

definition update_fits :: "usize \<Rightarrow> usize \<Rightarrow> 'k \<Rightarrow> ('k, 'v) weighted \<Rightarrow> bool" where
  "update_fits limit w k E \<longleftrightarrow> map_of E k = None \<or> unat w + weights (mru_drop k E) \<le> unat limit"

lemma live_update_list:
  assumes ok: "sized_ok limit s" and get: "hm_get (key_map s) k = Some i"
    and w: "w \<le> limit" and small: "unat limit < 2 ^ 63"
  obtains s1 old where "arena_inv s1" and "sized_exact s1" and "key_map s1 = key_map s"
    and "sized_list s1 = mru_put k (v, w) (sized_list s)"
    and "map_option fst (map_of (sized_list s) k) = Some old"
    and "sized_live_update limit w v i s = seq_exec (evict_overshoot limit) (ret (Some old)) s1"
proof -
  let ?f = "\<lambda>n :: ('a, 'b) sized_node. n\<lparr>node_value := v, weight := w\<rparr>"
  from overwrite_step [OF sized_okD(1) [OF ok] get, of ?f] obtain n where o: "i < length (nodes s)"
      "nodes s ! i = Some n" "mutate i ?f s = (Done (), s\<lparr>nodes := (nodes s)[i := Some (?f n)]\<rparr>)"
      "arena_inv (s\<lparr>nodes := (nodes s)[i := Some (?f n)]\<rparr>)"
      "mru_drop k (contents (s\<lparr>nodes := (nodes s)[i := Some (?f n)]\<rparr>)) = mru_drop k (contents s)"
      "map_of (contents (s\<lparr>nodes := (nodes s)[i := Some (?f n)]\<rparr>)) k = Some (v, node.more (?f n))"
      "map_of (contents s) k = Some (node_value n, node.more n)"
    by auto
  let ?t = "sat_sub (sat_add (total_weight s) w) (weight n)"
  let ?s = "s\<lparr>nodes := (nodes s)[i := Some (?f n)], total_weight := ?t\<rparr>"
  have inv: "arena_inv ?s" using o(4) arena_inv_total [where s = "s\<lparr>nodes := (nodes s)[i := Some (?f n)]\<rparr>" and w = ?t] by simp
  have same: "contents ?s = contents (s\<lparr>nodes := (nodes s)[i := Some (?f n)]\<rparr>)"
    using arena_rep_total(4) [where s = "s\<lparr>nodes := (nodes s)[i := Some (?f n)]\<rparr>" and w = ?t] by simp
  have "hm_get (key_map ?s) k = Some i" using get by simp
  with inv obtain s1 m where t: "promote i ?s = (Done (), s1)" "relink ?s s1" "arena_inv s1"
      "contents s1 = mru_touch k (contents ?s)"
    by (metis touch_step)
  have frame: "total_weight s1 = ?t" "key_map s1 = key_map s"
    using total_weight_frame [OF arena_frame_more [OF relink_frame [OF t(2)]]]
      arena_frame_key_map [OF relink_frame [OF t(2)]] by simp_all
  have "contents s1 = mru_put k (v, node.more (?f n)) (contents s)"
    using t(4) o(5,6) same by (simp add: mru_touch_def mru_put_def)
  then have list: "sized_list s1 = mru_put k (v, w) (sized_list s)"
    by (cases n) (simp add: sized_list_def mru_put_def mru_drop_keyed ext_weight_def)
  have old: "map_of (sized_list s) k = Some (node_value n, weight n)"
    using sized_list_lookup(1) [OF o(7)] by (cases n) (simp add: ext_weight_def)
  have split: "unat (total_weight s) = unat (weight n) + weights (mru_drop k (sized_list s))"
    using weights_split [OF sized_okD(3) [OF ok] old] sized_okD(6) [OF ok] by simp
  have "unat (total_weight s) \<le> unat limit" "unat w \<le> unat limit"
    using ok w by (simp_all add: sized_ok_def word_le_nat_alt)
  then have "unat ?t = unat w + weights (mru_drop k (sized_list s))"
    using small split by (simp add: sat_simps)
  then have exact: "sized_exact s1"
    using t(3) frame list by (simp add: sized_exact_def arena_inv_def mru_put_def)
  have "sized_live_update limit w v i s = seq_exec (evict_overshoot limit) (ret (Some (node_value n))) s1"
    using o(1-3) t(1) by (simp add: sized_live_update_def sized_helpers occupied_def slot_def exec_apply)
  with that [OF t(3) exact frame(2) list] old show ?thesis by simp
qed

lemma sized_insert_new_refines:
  assumes ok: "sized_ok limit s" and none: "hm_get (key_map s) k = None"
    and w: "w \<le> limit" and small: "unat limit < 2 ^ 63"
  shows "runs_to (sized_insert_inner limit w k v) s (\<lambda>r s'.
           (r, sized_list s') = sized_spec_insert (unat limit) w k v (sized_list s) \<and> sized_ok limit s')"
proof -
  have le: "unat w \<le> unat limit" using w by (simp add: word_le_nat_alt)
  have guard: "limit < sat_add x w \<longleftrightarrow> unat limit - unat w < unat x" for x
    using small le by (auto simp: word_less_nat_alt sat_simps)
  obtain s1 where e: "evict_to_fit limit w s = (Done (), s1)" "arena_inv s1" "sized_exact s1"
      "sized_list s1 = trim (unat limit - unat w) (sized_list s)"
    using evict_while_exact [OF guard sized_okD(2) [OF ok] sized_okD(1) [OF ok]]
    by (auto simp: evict_to_fit_def elim: runs_toE)
  have absent: "map_of (sized_list s) k = None" using none sized_okD(5) [OF ok] by simp
  then have "map_of (sized_list s1) k = None" unfolding e(4) by (rule trim_absent)
  then have none1: "hm_get (key_map s1) k = None"
    using arena_inv_lookup_None [OF e(2)] by (simp add: sized_list_def map_of_keyed)
  let ?n = "\<lparr>node_key = k, node_value = v, node_prev = None, node_next = None, weight = w\<rparr>"
  from insert_step [OF e(2), of ?n] none1 obtain i s2 s3 where a: "alloc ?n s1 = (Done i, s2)"
      "push_front i s2 = (Done (), s3)" "arena_frame s1 s3"
      "arena_inv (s3\<lparr>key_map := hm_insert k i (key_map s1)\<rparr>)"
      "contents (s3\<lparr>key_map := hm_insert k i (key_map s1)\<rparr>) = payload ?n # contents s1"
    by auto
  let ?k = "s3\<lparr>key_map := hm_insert k i (key_map s1)\<rparr>"
  let ?s = "?k\<lparr>total_weight := sat_add (total_weight s1) w\<rparr>"
  have total: "total_weight s3 = total_weight s1"
    using total_weight_frame [OF arena_frame_more [OF a(3)]] .
  have run: "sized_insert_inner limit w k v s = (Done None, ?s)"
    using none e(1) a(1,2) arena_frame_key_map [OF a(3)] total
    by (simp add: sized_insert_inner_def sized_helpers exec_apply)
  have list: "sized_list ?s = (k, v, w) # trim (unat limit - unat w) (sized_list s)"
    unfolding arena_rep_total e(4) [symmetric] using a(5)
    by (simp add: sized_list_def payload_def ext_weight_def)
  have sum: "unat (total_weight s1) + unat w \<le> unat limit"
    using e(3,4) weights_trim [of "unat limit - unat w" "sized_list s"] le by (simp add: sized_exact_def)
  then have "unat (total_weight ?s) = weights (sized_list ?s)"
    unfolding list using e(3,4) small by (simp add: sized_exact_def sat_simps)
  moreover have "total_weight ?s \<le> limit"
    using sum by (simp add: word_le_nat_alt sat_simps)
  ultimately have "sized_ok limit ?s" using a(4) by (intro sized_okI) simp_all
  moreover have "(None, sized_list ?s) = sized_spec_insert (unat limit) w k v (sized_list s)"
    unfolding list using absent by (simp add: sized_spec_insert_def mru_drop_absent)
  ultimately show ?thesis using run by (intro runs_toI) auto
qed

lemma sized_insert_refines:
  assumes ok: "sized_ok limit s" and w: "w \<le> limit" and small: "unat limit < 2 ^ 63"
    and fits: "update_fits limit w k (sized_list s)"
  shows "runs_to (sized_insert_inner limit w k v) s (\<lambda>r s'.
           (r, sized_list s') = sized_spec_insert (unat limit) w k v (sized_list s) \<and> sized_ok limit s')"
proof (cases "hm_get (key_map s) k")
  case None
  from sized_insert_new_refines [OF ok None w small] show ?thesis .
next
  case (Some i)
  then have "map_of (sized_list s) k \<noteq> None" using sized_okD(5) [OF ok] by (metis option.distinct(1))
  with fits have le: "unat w + weights (mru_drop k (sized_list s)) \<le> unat limit"
    by (auto simp: update_fits_def)
  from ok Some w small obtain s1 old where u: "arena_inv s1" "sized_exact s1" "key_map s1 = key_map s"
      "sized_list s1 = mru_put k (v, w) (sized_list s)"
      "map_option fst (map_of (sized_list s) k) = Some old"
      "sized_live_update limit w v i s = seq_exec (evict_overshoot limit) (ret (Some old)) s1"
    by (rule live_update_list)
  have total: "total_weight s1 \<le> limit"
    using u(2,4) le by (simp add: sized_exact_def word_le_nat_alt mru_put_def)
  then have "\<not> limit < total_weight s1" by simp
  then have "evict_overshoot limit s1 = (Done (), s1)"
    by (simp add: evict_overshoot_def evict_while.simps)
  then have run: "sized_insert_inner limit w k v s = (Done (Some old), s1)"
    using Some u(6) by (simp add: sized_insert_inner_def exec_apply)
  have "sized_list s1 = (k, v, w) # trim (unat limit - unat w) (mru_drop k (sized_list s))"
    using le by (simp add: u(4) mru_put_def trim_id)
  moreover have "sized_ok limit s1"
    using u(1,2) total by (simp add: sized_ok_def)
  ultimately show ?thesis
    unfolding runs_to_def run using u(5) by (auto simp: sized_spec_insert_def)
qed

subsection \<open>A live update that does not fit\<close>

lemma sized_overshoot:
  assumes ok: "sized_ok limit s" and w: "w \<le> limit" and small: "unat limit < 2 ^ 63"
    and over: "\<not> update_fits limit w k (sized_list s)"
  shows "runs_to (sized_insert_inner limit w k v) s (\<lambda>r s'.
           (r, sized_list s') = sized_spec_insert (unat limit) w k v (sized_list s) \<and>
           sized_safe limit s' \<and> key_map s' = key_map s \<and>
           length (sized_list s') < hm_len (key_map s') \<and>
           (\<forall>j. hm_contains (key_map s') j \<longrightarrow> map_of (sized_list s') j = None \<longrightarrow>
              sized_get_inner j s' = (Panicked Unreachable, s')))"
proof -
  from over obtain p where p: "map_of (sized_list s) k = Some p"
    and gt: "unat limit < unat w + weights (mru_drop k (sized_list s))"
    by (auto simp: update_fits_def)
  then obtain i where i: "hm_get (key_map s) k = Some i"
    using sized_okD(5) [OF ok, of k] by fastforce
  from ok i w small obtain s1 old where u: "arena_inv s1" "sized_exact s1" "key_map s1 = key_map s"
      "sized_list s1 = mru_put k (v, w) (sized_list s)"
      "map_option fst (map_of (sized_list s) k) = Some old"
      "sized_live_update limit w v i s = seq_exec (evict_overshoot limit) (ret (Some old)) s1"
    by (rule live_update_list)
  from evict_overshoot_exact [OF u(2), of limit] obtain s2 where e:
      "evict_overshoot limit s1 = (Done (), s2)" "sized_exact s2" "key_map s2 = key_map s1"
      "length (nodes s2) = length (nodes s1)" "sized_list s2 = trim (unat limit) (sized_list s1)"
      "\<And>i. i \<in> set (order s2) \<Longrightarrow> i \<in> set (order s1) \<and> entry (nodes s2) i = entry (nodes s1) i"
    by (auto elim: runs_toE)
  have run: "sized_insert_inner limit w k v s = (Done (Some old), s2)"
    using i u(6) e(1) by (simp add: sized_insert_inner_def exec_apply)
  have list: "sized_list s2 = (k, v, w) # trim (unat limit - unat w) (mru_drop k (sized_list s))"
    using e(5) w by (simp add: u(4) mru_put_def word_le_nat_alt)
  have keys1: "keys_rep s1 (order s1)" using u(1) by (simp add: arena_inv_def)
  have "\<forall>e \<in> set (key_map s1). snd e < length (nodes s1)"
  proof
    fix e assume "e \<in> set (key_map s1)"
    then have "hm_get (key_map s1) (fst e) = Some (snd e)"
      using hm.get_entry [OF keys_rep_ok [OF keys1], of "fst e" "snd e"] by simp
    from arena_inv_split [OF u(1) this] show "snd e < length (nodes s1)" by blast
  qed
  then have rep: "sized_rep s2" using e(2-4) by (simp add: sized_rep_def sized_exact_def)
  have "total_weight s2 \<le> limit"
    using e(2,5) weights_trim [of "unat limit" "sized_list s1"] by (simp add: sized_exact_def word_le_nat_alt)
  with rep have safe: "sized_safe limit s2" by (simp add: sized_safe_def)
  have "sized_list s2 \<noteq> sized_list s1"
    using e(5) gt weights_trim [of "unat limit" "sized_list s1"] by (auto simp: u(4) mru_put_def)
  then have "length (sized_list s2) < length (sized_list s1)"
    using e(5) trim_prefix [of "sized_list s1" "unat limit"] by (metis append_self_conv length_append
        less_add_same_cancel1 length_greater_0_conv)
  then have len: "length (sized_list s2) < hm_len (key_map s2)"
    using e(3) arena_inv_len [OF u(1)] by (simp add: sized_list_def)
  have stale: "sized_get_inner j s2 = (Panicked Unreachable, s2)"
    if "hm_contains (key_map s2) j" and gone: "map_of (sized_list s2) j = None" for j
  proof -
    from that obtain x where x: "hm_get (key_map s2) j = Some x" by (auto simp: hm_contains_def)
    then have key: "fst (entry (nodes s1) x) = j" using keys_rep_get [OF keys1] e(3) by simp
    have "x \<notin> set (order s2)"
    proof
      assume "x \<in> set (order s2)"
      with e(6) key have "fst (entry (nodes s2) x) = j" "entry (nodes s2) x \<in> set (contents s2)"
        by (auto simp: contents_def entries_def)
      then have "j \<in> fst ` set (contents s2)" by (metis image_eqI)
      then have "map_of (contents s2) j \<noteq> None" by (simp add: map_of_eq_None_iff)
      with gone show False by (simp add: sized_list_def map_of_keyed)
    qed
    with rep x show ?thesis
    proof (cases rule: sized_slot_cases)
      case stale
      then show ?thesis using x by (simp add: sized_get_inner_def sized_helpers exec_apply)
    qed auto
  qed
  show ?thesis
    unfolding runs_to_def run using u(5) list safe len stale e(3) u(3)
    by (auto simp: sized_spec_insert_def)
qed

end
