(* ===== verification/Sized_Cache.thy ===== *)
theory Sized_Cache
  imports Sized_Policy
begin

section \<open>SizedCache: properties of the cache\<close>

text \<open>
  The lemmas on the protected state, carried to the cache behind its mutex, and what they give a
  client: the policy, the budget under any calls, and what a live update that has to evict leaves
  behind.
\<close>

definition sized_entries :: "('k, 'v) sized_cache \<Rightarrow> ('k, 'v) weighted" where
  "sized_entries c = sized_list (content (sized_mutex c))"

definition sized_cache_ok :: "('k, 'v) sized_cache \<Rightarrow> bool" where
  "sized_cache_ok c \<longleftrightarrow> sized_ok (max_weight c) (content (sized_mutex c))"

definition sized_cache_safe :: "('k, 'v) sized_cache \<Rightarrow> bool" where
  "sized_cache_safe c \<longleftrightarrow> sized_safe (max_weight c) (content (sized_mutex c))"

definition same_limits :: "('k, 'v) sized_cache \<Rightarrow> ('k, 'v) sized_cache \<Rightarrow> bool" where
  "same_limits c c' \<longleftrightarrow> max_weight c' = max_weight c \<and> weigher c' = weigher c"

lemma same_limits_refl [simp]: "same_limits c c"
  by (simp add: same_limits_def)

lemma same_limits_trans: "same_limits c d \<Longrightarrow> same_limits d e \<Longrightarrow> same_limits c e"
  by (simp add: same_limits_def)

lemma on_inner_runs:
  assumes "runs_to f (content (sized_mutex c)) Q"
  shows "runs_to (on_inner f) c (\<lambda>r c'. Q r (content (sized_mutex c')) \<and> same_limits c c')"
  using assms by (auto simp: runs_to_def on_inner_def locked_Done same_limits_def)

lemma on_inner_stays:
  assumes "stays (sized_safe (max_weight c)) f (content (sized_mutex c))"
  shows "stays (\<lambda>c'. sized_cache_safe c' \<and> same_limits c c') (on_inner f) c"
  using assms by (auto simp: stays_def on_inner_def locked_def sized_cache_safe_def same_limits_def
      split: prod.splits)

lemma sized_new_ok:
  assumes "sized_new limit weigh = Inr c"
  shows "sized_cache_ok c" and "sized_entries c = []" and "max_weight c = limit" and "weigher c = weigh"
  using assms sized_ok_new by (auto simp: sized_new_def sized_cache_ok_def sized_entries_def split: if_splits)

lemma sized_ok_safe: "sized_ok limit s \<Longrightarrow> sized_safe limit s"
proof -
  assume ok: "sized_ok limit s"
  then have "sized_rep s"
    using arena_inv_split [OF sized_okD(1) [OF ok]] keys_rep_ok [of s "order s"]
    unfolding sized_rep_def
    by (auto simp: sized_ok_def sized_exact_def arena_inv_def hm.get_entry)
  with ok show ?thesis by (simp add: sized_safe_def sized_ok_def)
qed

subsection \<open>Calls and their sequences\<close>

definition sized_perform :: "('k, 'v) call \<Rightarrow> (('k, 'v) sized_cache, unit) exec" where
  "sized_perform = perform sized_get sized_insert sized_remove sized_contains_key sized_len sized_clear"

text \<open>Calls made one after the other, also after a panic: the poisoned lock is taken over.\<close>

fun sized_calls :: "('k, 'v) call list \<Rightarrow> ('k, 'v) sized_cache \<Rightarrow> ('k, 'v) sized_cache" where
  "sized_calls [] c = c"
| "sized_calls (x # xs) c = sized_calls xs (snd (sized_perform x c))"

lemma stays_seq_ret: "stays P f s \<Longrightarrow> stays P (seq_exec f (ret ())) s"
  by (auto simp: stays_def exec_apply split: prod.splits outcome.splits)

lemma stays_gets: "P s \<Longrightarrow> stays P (gets g) s"
  by (simp add: stays_def)

lemma sized_methods_safe:
  assumes "sized_cache_safe c"
  shows "stays (\<lambda>c'. sized_cache_safe c' \<and> same_limits c c') (sized_get k) c"
    and "stays (\<lambda>c'. sized_cache_safe c' \<and> same_limits c c') (sized_insert k v) c"
    and "stays (\<lambda>c'. sized_cache_safe c' \<and> same_limits c c') (sized_remove k) c"
    and "stays (\<lambda>c'. sized_cache_safe c' \<and> same_limits c c') (sized_contains_key k) c"
    and "stays (\<lambda>c'. sized_cache_safe c' \<and> same_limits c c') sized_len c"
    and "stays (\<lambda>c'. sized_cache_safe c' \<and> same_limits c c') sized_clear c"
proof -
  let ?P = "\<lambda>c'. sized_cache_safe c' \<and> same_limits c c'"
  have safe: "sized_safe (max_weight c) (content (sized_mutex c))"
    using assms by (simp add: sized_cache_safe_def)
  note lift = on_inner_stays [of c]
  show "stays ?P (sized_get k) c" unfolding sized_get_def by (rule lift [OF sized_get_safe [OF safe]])
  show "stays ?P (sized_remove k) c" unfolding sized_remove_def by (rule lift [OF sized_remove_safe [OF safe]])
  show "stays ?P (sized_contains_key k) c" unfolding sized_contains_key_def by (rule lift, rule stays_gets, rule safe)
  show "stays ?P sized_len c" unfolding sized_len_def by (rule lift, rule stays_gets, rule safe)
  show "stays ?P sized_clear c" unfolding sized_clear_def by (rule lift [OF sized_clear_safe])
  show "stays ?P (sized_insert k v) c"
  proof (cases "max_weight c < weigher c v")
    case True
    with assms show ?thesis by (simp add: stays_def sized_insert_def)
  next
    case False
    then have "sized_insert k v c = on_inner (sized_insert_inner (max_weight c) (weigher c v) k v) c"
      by (simp add: sized_insert_def)
    moreover have "weigher c v \<le> max_weight c" using False by simp
    note lift [OF sized_insert_safe [OF safe this, of k v]]
    ultimately show ?thesis by (simp add: stays_def)
  qed
qed

lemma sized_perform_safe:
  assumes "sized_cache_safe c"
  shows "stays (\<lambda>c'. sized_cache_safe c' \<and> same_limits c c') (sized_perform x) c"
  using sized_methods_safe [OF assms] unfolding sized_perform_def
  by (cases x) (simp_all add: stays_seq_ret)

lemma sized_calls_safe:
  "sized_cache_safe c \<Longrightarrow> sized_cache_safe (sized_calls xs c) \<and> same_limits c (sized_calls xs c)"
proof (induction xs arbitrary: c)
  case (Cons x xs)
  have "sized_cache_safe (snd (sized_perform x c))" "same_limits c (snd (sized_perform x c))"
    using sized_perform_safe [OF Cons.prems, of x] by (simp_all add: stays_def)
  with Cons.IH show ?case by (auto intro: same_limits_trans)
qed simp

subsection \<open>A concrete cache\<close>

text \<open>
  A budget of 10 and values that weigh what they are: keys 1 and 2 with weight 5 each, and the
  same cache after the value of key 2 was replaced by one of weight 8.
\<close>

definition sized_after :: "(nat, nat) call list \<Rightarrow> (nat, nat) sized_cache" where
  "sized_after xs = sized_calls xs
     \<lparr>max_weight = 10, weigher = of_nat, sized_mutex = mutex_new sized_inner_new\<rparr>"

lemmas sized_eval = sized_calls.simps sized_perform_def perform.simps sized_insert_def sized_get_def
  sized_remove_def sized_contains_key_def sized_len_def on_inner_def locked_def sized_insert_inner_def
  sized_get_inner_def sized_remove_inner_def sized_live_update_def evict_to_fit_def evict_overshoot_def
  evict_while.simps evict_tail_def sized_helpers sat_add_def sat_sub_def sized_inner_new_def mutex_new_def
  arena_eval

lemma sized_two_entries:
  "sized_after [Call_insert 1 5, Call_insert 2 5] = \<lparr>max_weight = 10, weigher = of_nat, sized_mutex =
     \<lparr>content = \<lparr>nodes = [Some \<lparr>node_key = 1, node_value = 5, node_prev = Some 1, node_next = None, weight = 5\<rparr>,
         Some \<lparr>node_key = 2, node_value = 5, node_prev = None, node_next = Some 0, weight = 5\<rparr>],
       free = [], head = Some 1, tail = Some 0, key_map = [(1, 0), (2, 1)], total_weight = 10\<rparr>,
     poisoned = False\<rparr>\<rparr>"
  by (simp add: sized_after_def sized_eval)

lemma sized_example_ok:
  "sized_cache_ok (sized_after [Call_insert 1 5, Call_insert 2 5])"
  "sized_entries (sized_after [Call_insert 1 5, Call_insert 2 5]) = [(2, 5, 5), (1, 5, 5)]"
proof -
  let ?c = "\<lparr>max_weight = 10, weigher = of_nat, sized_mutex = mutex_new sized_inner_new\<rparr> :: (nat, nat) sized_cache"
  have step: "sized_ok 10 s \<Longrightarrow> map_of (sized_list s) k = None \<Longrightarrow> sized_ok 10 (snd (sized_insert_inner 10 5 k v s))"
    for s :: "(nat, nat) sized_inner" and k v
    using sized_insert_refines [of 10 s 5 k v] by (auto simp: update_fits_def runs_to_def)
  have first: "runs_to (sized_insert_inner 10 5 1 5) (sized_inner_new :: (nat, nat) sized_inner)
      (\<lambda>r s. (r, sized_list s) = (None, [(1, 5, 5)]) \<and> sized_ok 10 s)"
    using sized_insert_refines [OF sized_ok_new(1), of 5 10 "1 :: nat" "5 :: nat"]
    by (simp add: update_fits_def sized_spec_insert_def mru_drop_def sized_ok_new(2))
  have "content (sized_mutex (sized_after [Call_insert 1 5, Call_insert 2 5])) =
      snd (sized_insert_inner 10 5 2 5 (snd (sized_insert_inner 10 5 1 5 sized_inner_new)))"
    by (simp add: sized_after_def sized_eval)
  moreover have "sized_ok 10 (snd (sized_insert_inner 10 5 2 5 (snd (sized_insert_inner 10 5 1 5
      (sized_inner_new :: (nat, nat) sized_inner)))))"
    by (rule step; use first in \<open>auto simp: runs_to_def\<close>)
  moreover have m: "max_weight (sized_after [Call_insert 1 5, Call_insert 2 5]) = 10"
    unfolding sized_two_entries by simp
  ultimately show "sized_cache_ok (sized_after [Call_insert 1 5, Call_insert 2 5])"
    unfolding sized_cache_ok_def m by simp
  show "sized_entries (sized_after [Call_insert 1 5, Call_insert 2 5]) = [(2, 5, 5), (1, 5, 5)]"
    unfolding sized_two_entries
    by (simp add: sized_entries_def sized_list_def contents_eval ext_weight_def numeral_2_eq_2)
qed

lemma sized_overshot:
  "snd (sized_insert 2 8 (sized_after [Call_insert 1 5, Call_insert 2 5])) =
     \<lparr>max_weight = 10, weigher = of_nat, sized_mutex =
     \<lparr>content = \<lparr>nodes = [None,
         Some \<lparr>node_key = 2, node_value = 8, node_prev = None, node_next = None, weight = 8\<rparr>],
       free = [0], head = Some 1, tail = Some 1, key_map = [(1, 0), (2, 1)], total_weight = 8\<rparr>,
     poisoned = False\<rparr>\<rparr>"
  unfolding sized_two_entries by (simp add: sized_eval)

lemma sized_reused:
  "snd (sized_insert 3 2 (snd (sized_insert 2 8 (sized_after [Call_insert 1 5, Call_insert 2 5])))) =
     \<lparr>max_weight = 10, weigher = of_nat, sized_mutex =
     \<lparr>content = \<lparr>nodes = [Some \<lparr>node_key = 3, node_value = 2, node_prev = None, node_next = Some 1, weight = 2\<rparr>,
         Some \<lparr>node_key = 2, node_value = 8, node_prev = Some 0, node_next = None, weight = 8\<rparr>],
       free = [], head = Some 0, tail = Some 1, key_map = [(1, 0), (2, 1), (3, 0)], total_weight = 10\<rparr>,
     poisoned = False\<rparr>\<rparr>"
  unfolding sized_overshot by (simp add: sized_eval)

subsection \<open>Properties\<close>

text \<open>
  \<^bold>\<open>C6.\<close> The budget, under any use. On a cache built for any non-zero budget and any weigher,
  after any sequence of calls, including calls that panicked and left the lock poisoned, the
  reported total weight is within the budget and within the weights of the entries listed, and
  the next call can fail in one way only, the \<open>unreachable!()\<close> of a slot that the map names but
  the list does not have; no call indexes out of bounds.
\<close>

theorem sized_budget_always:
  fixes xs :: "('k, 'v) call list"
  assumes "limit \<noteq> 0"
  shows "\<exists>c. sized_new limit weigh = Inr c \<and>
    (let c' = sized_calls xs c in
       (\<exists>total. sized_total_weight c' = (Done total, c') \<and> total \<le> limit \<and>
          unat total \<le> weights (sized_entries c')) \<and>
       sized_max_weight c' = limit \<and>
       (\<forall>x p. fst (sized_perform x c') = Panicked p \<longrightarrow> p = Unreachable))"
proof -
  obtain c :: "('k, 'v) sized_cache" where c: "sized_new limit weigh = Inr c" using assms by (simp add: sized_new_def)
  note new = sized_new_ok [OF c]
  let ?c = "sized_calls xs c"
  have "sized_cache_safe c"
    using new(1) by (simp add: sized_cache_ok_def sized_cache_safe_def sized_ok_safe)
  then have safe: "sized_cache_safe ?c" and limit: "max_weight ?c = limit"
    using sized_calls_safe [of c xs] new(3) by (simp_all add: same_limits_def)
  have total: "sized_total_weight ?c = (Done (total_weight (content (sized_mutex ?c))), ?c)"
    by (simp add: sized_total_weight_def on_inner_def locked_def)
  have "p = Unreachable" if "fst (sized_perform x ?c) = Panicked p" for x p
    using sized_perform_safe [OF safe, of x] that by (simp add: stays_def)
  with c total limit safe show ?thesis
    by (auto simp: Let_def sized_max_weight_def sized_cache_safe_def sized_safe_def sized_rep_def
        sized_entries_def)
qed

theorem sized_budget_always_witness:
  "\<exists>c. sized_new 10 of_nat = Inr c \<and> sized_max_weight (sized_calls [Call_insert (1 :: nat) (5 :: nat), Call_get 1] c) = 10"
  using sized_budget_always [of 10 of_nat "[Call_insert 1 5, Call_get 1]"] by (auto simp: Let_def)

text \<open>
  \<^bold>\<open>C2.\<close> The weight budget policy. On a well-formed cache with a budget below half the word,
  through the public methods: a value heavier than the budget is refused and nothing changes; any
  other insert that is new, or fits beside the other entries, puts its entry in front and drops
  exactly the least recent entries that do not fit; \<open>get\<close> and \<open>remove\<close> give the stored value and
  touch or drop its entry. The cache stays well-formed, which makes its total weight exact.
\<close>

theorem sized_refines_policy:
  assumes ok: "sized_cache_ok c" and small: "unat (max_weight c) < 2 ^ 63"
  shows "runs_to (sized_get k) c (\<lambda>r c'. (r, sized_entries c') = sized_spec_get k (sized_entries c) \<and>
           sized_cache_ok c' \<and> same_limits c c') \<and>
         runs_to (sized_remove k) c (\<lambda>r c'. (r, sized_entries c') = sized_spec_remove k (sized_entries c) \<and>
           sized_cache_ok c' \<and> same_limits c c') \<and>
         (max_weight c < weigher c v \<longrightarrow> sized_insert k v c = (Done None, c)) \<and>
         (weigher c v \<le> max_weight c \<and> update_fits (max_weight c) (weigher c v) k (sized_entries c) \<longrightarrow>
           runs_to (sized_insert k v) c (\<lambda>r c'.
             (r, sized_entries c') = sized_spec_insert (unat (max_weight c)) (weigher c v) k v (sized_entries c) \<and>
             sized_cache_ok c' \<and> same_limits c c'))"
proof (intro conjI impI; (elim conjE)?)
  have ok': "sized_ok (max_weight c) (content (sized_mutex c))"
    using ok by (simp add: sized_cache_ok_def)
  note unf = sized_entries_def sized_cache_ok_def same_limits_def
  show "runs_to (sized_get k) c (\<lambda>r c'. (r, sized_entries c') = sized_spec_get k (sized_entries c) \<and>
      sized_cache_ok c' \<and> same_limits c c')"
    unfolding sized_get_def
    by (rule runs_to_mono [OF on_inner_runs [OF sized_get_refines [OF ok']]]) (simp add: unf)
  show "runs_to (sized_remove k) c (\<lambda>r c'. (r, sized_entries c') = sized_spec_remove k (sized_entries c) \<and>
      sized_cache_ok c' \<and> same_limits c c')"
    unfolding sized_remove_def
    by (rule runs_to_mono [OF on_inner_runs [OF sized_remove_refines [OF ok']]]) (simp add: unf)
  show "sized_insert k v c = (Done None, c)" if "max_weight c < weigher c v"
    using that by (simp add: sized_insert_def)
  assume w: "weigher c v \<le> max_weight c"
    and fits: "update_fits (max_weight c) (weigher c v) k (sized_entries c)"
  have "\<not> max_weight c < weigher c v" using w by simp
  then have run: "sized_insert k v c = on_inner (sized_insert_inner (max_weight c) (weigher c v) k v) c"
    by (simp add: sized_insert_def)
  have "runs_to (on_inner (sized_insert_inner (max_weight c) (weigher c v) k v)) c (\<lambda>r c'.
      (r, sized_entries c') = sized_spec_insert (unat (max_weight c)) (weigher c v) k v (sized_entries c) \<and>
      sized_cache_ok c' \<and> same_limits c c')"
    by (rule runs_to_mono [OF on_inner_runs [OF sized_insert_refines [OF ok' w small fits [unfolded sized_entries_def]]]])
      (simp add: unf)
  then show "runs_to (sized_insert k v) c (\<lambda>r c'.
      (r, sized_entries c') = sized_spec_insert (unat (max_weight c)) (weigher c v) k v (sized_entries c) \<and>
      sized_cache_ok c' \<and> same_limits c c')"
    unfolding runs_to_def run .
qed

theorem sized_refines_policy_witness:
  "runs_to (sized_insert 3 6) (sized_after [Call_insert 1 5, Call_insert 2 5])
     (\<lambda>r c'. r = None \<and> sized_entries c' = [(3, 6, 6)] \<and> sized_cache_ok c') \<and>
   sized_insert 3 11 (sized_after [Call_insert 1 5, Call_insert 2 5]) =
     (Done None, sized_after [Call_insert 1 5, Call_insert 2 5])"
proof -
  have lim: "max_weight (sized_after [Call_insert 1 5, Call_insert 2 5]) = 10"
    "weigher (sized_after [Call_insert 1 5, Call_insert 2 5]) = of_nat"
    unfolding sized_two_entries by simp_all
  note w = sized_refines_policy [OF sized_example_ok(1), unfolded lim sized_example_ok(2)]
  show ?thesis
    using w [of 3 6] w [of 3 11]
    by (simp add: update_fits_def sized_spec_insert_def mru_drop_def) (auto elim: runs_to_mono)
qed

text \<open>
  \<^bold>\<open>C16.\<close> A live update that does not fit strands keys. From any well-formed cache, an insert of a
  present key whose new weight exceeds what the other entries leave returns the old value and
  trims the list to the budget as the policy says, but does not touch the hash map: afterwards
  \<open>len\<close> counts more entries than are stored, \<open>contains_key\<close> still claims every evicted key, and \<open>get\<close>
  of an evicted key panics.
\<close>

theorem sized_overshoot_strands_keys:
  assumes ok: "sized_cache_ok c" and small: "unat (max_weight c) < 2 ^ 63"
    and w: "weigher c v \<le> max_weight c"
    and over: "\<not> update_fits (max_weight c) (weigher c v) k (sized_entries c)"
  shows "runs_to (sized_insert k v) c (\<lambda>r c'.
           (r, sized_entries c') = sized_spec_insert (unat (max_weight c)) (weigher c v) k v (sized_entries c) \<and>
           (\<exists>n. sized_len c' = (Done n, c') \<and> length (sized_entries c') < n) \<and>
           (\<forall>j. map_of (sized_entries c) j \<noteq> None \<and> map_of (sized_entries c') j = None \<longrightarrow>
              sized_contains_key j c' = (Done True, c') \<and> fst (sized_get j c') = Panicked Unreachable))"
proof -
  have ok': "sized_ok (max_weight c) (content (sized_mutex c))"
    using ok by (simp add: sized_cache_ok_def)
  have "\<not> max_weight c < weigher c v" using w by simp
  then have run: "sized_insert k v c = on_inner (sized_insert_inner (max_weight c) (weigher c v) k v) c"
    by (simp add: sized_insert_def)
  have keys: "hm_contains (key_map (content (sized_mutex c))) j" if "map_of (sized_list (content (sized_mutex c))) j = Some p" for j p
    using that sized_okD(5) [OF ok', of j] by (simp add: hm_contains_def)
  have "runs_to (on_inner (sized_insert_inner (max_weight c) (weigher c v) k v)) c (\<lambda>r c'.
      (r, sized_entries c') = sized_spec_insert (unat (max_weight c)) (weigher c v) k v (sized_entries c) \<and>
      (\<exists>n. sized_len c' = (Done n, c') \<and> length (sized_entries c') < n) \<and>
      (\<forall>j. map_of (sized_entries c) j \<noteq> None \<and> map_of (sized_entries c') j = None \<longrightarrow>
         sized_contains_key j c' = (Done True, c') \<and> fst (sized_get j c') = Panicked Unreachable))"
    by (rule runs_to_mono [OF on_inner_runs [OF sized_overshoot [OF ok' w small over [unfolded sized_entries_def]]]])
      (auto simp: sized_entries_def sized_len_def sized_contains_key_def sized_get_def on_inner_def locked_def
        dest!: keys split: prod.splits)
  then show ?thesis unfolding runs_to_def run .
qed

theorem sized_overshoot_strands_keys_witness:
  "runs_to (sized_insert 2 8) (sized_after [Call_insert 1 5, Call_insert 2 5]) (\<lambda>r c'. r = Some 5 \<and>
     sized_entries c' = [(2, 8, 8)] \<and> sized_contains_key 1 c' = (Done True, c') \<and>
     fst (sized_get 1 c') = Panicked Unreachable)"
proof -
  have lim: "max_weight (sized_after [Call_insert 1 5, Call_insert 2 5]) = 10"
    "weigher (sized_after [Call_insert 1 5, Call_insert 2 5]) = of_nat"
    unfolding sized_two_entries by simp_all
  note w = sized_overshoot_strands_keys [OF sized_example_ok(1), of 8 2, unfolded lim sized_example_ok(2)]
  show ?thesis
    by (rule runs_to_mono [OF w])
      (auto simp: update_fits_def sized_spec_insert_def mru_drop_def)
qed

text \<open>
  \<^bold>\<open>C17.\<close> A stranded key serves another key's value. Keys 1 and 2 of weight 5 fill a budget of 10;
  the value of key 2 is replaced by one of weight 8, which evicts key 1; key 3 of weight 2 is
  inserted and takes over the freed slot. Key 1 was evicted and never inserted again, but
  \<open>contains_key(1)\<close> is true, \<open>len\<close> says 3 with two entries stored, \<open>get(1)\<close> and \<open>remove(1)\<close> return the
  value of key 3, and \<open>get(3)\<close> after \<open>remove(1)\<close> panics.
\<close>

theorem sized_stranded_key_serves_other_value:
  "let c = snd (sized_insert 3 2 (snd (sized_insert 2 8 (sized_after [Call_insert 1 5, Call_insert 2 5]))))
   in fst (sized_contains_key 1 c) = Done True \<and> fst (sized_len c) = Done 3 \<and>
      sized_entries c = [(3, 2, 2), (2, 8, 8)] \<and>
      fst (sized_get 1 c) = Done (Some 2) \<and> fst (sized_remove 1 c) = Done (Some 2) \<and>
      fst (sized_get 3 (snd (sized_remove 1 c))) = Panicked Unreachable"
  unfolding Let_def sized_reused
  by (simp add: sized_eval sized_entries_def sized_list_def contents_eval ext_weight_def numeral_2_eq_2)

end
