(* ===== verification/Ordered_Map.thy ===== *)
theory Ordered_Map
  imports Hash_Map "HOL-Library.Product_Lexorder"
begin

section \<open>The standard library's BTreeMap, as far as the LFU index uses it\<close>

text \<open>
  \<open>LfuCache\<close> indexes its entries by priority in a \<open>std::collections::BTreeMap\<close>: it inserts,
  removes by key, and pops the smallest key. The map is a list of bindings in ascending order of
  keys. The contract extends that of the hash map by \<open>pop_first\<close>.
\<close>

type_synonym ('k, 'v) btree_map = "('k \<times> 'v) list"

definition bt_empty :: "('k, 'v) btree_map" where
  "bt_empty = []"

definition bt_get :: "('k, 'v) btree_map \<Rightarrow> 'k \<Rightarrow> 'v option" where
  "bt_get m k = map_of m k"

fun bt_insert :: "'k::linorder \<Rightarrow> 'v \<Rightarrow> ('k, 'v) btree_map \<Rightarrow> ('k, 'v) btree_map" where
  "bt_insert k v [] = [(k, v)]"
| "bt_insert k v ((k', v') # m) =
     (if k < k' then (k, v) # (k', v') # m
      else if k = k' then (k, v) # m
      else (k', v') # bt_insert k v m)"

fun bt_remove :: "'k::linorder \<Rightarrow> ('k, 'v) btree_map \<Rightarrow> ('k, 'v) btree_map" where
  "bt_remove k [] = []"
| "bt_remove k ((k', v') # m) = (if k = k' then m else (k', v') # bt_remove k m)"

definition bt_pop_first :: "('k, 'v) btree_map \<Rightarrow> (('k \<times> 'v) \<times> ('k, 'v) btree_map) option" where
  "bt_pop_first m = (case m of [] \<Rightarrow> None | e # rest \<Rightarrow> Some (e, rest))"

definition bt_len :: "('k, 'v) btree_map \<Rightarrow> nat" where
  "bt_len m = length m"

definition bt_ok :: "('k::linorder, 'v) btree_map \<Rightarrow> bool" where
  "bt_ok m = sorted_wrt (<) (map fst m)"

subsection \<open>The contract\<close>

locale ordered_map_contract = finite_map_contract empty get insert remove len ok entries
  for empty :: 'm
    and get :: "'m \<Rightarrow> 'k::linorder \<Rightarrow> 'v option"
    and insert :: "'k \<Rightarrow> 'v \<Rightarrow> 'm \<Rightarrow> 'm"
    and remove :: "'k \<Rightarrow> 'm \<Rightarrow> 'm"
    and len :: "'m \<Rightarrow> nat"
    and ok :: "'m \<Rightarrow> bool"
    and entries :: "'m \<Rightarrow> ('k \<times> 'v) multiset" +
  fixes pop_first :: "'m \<Rightarrow> (('k \<times> 'v) \<times> 'm) option"
  assumes pop_first_None: "ok m \<Longrightarrow> pop_first m = None \<longleftrightarrow> entries m = {#}"
    and pop_first_Some: "ok m \<Longrightarrow> pop_first m = Some (e, m') \<Longrightarrow>
      ok m' \<and> entries m = add_mset e (entries m') \<and> (\<forall>e' \<in># entries m'. fst e < fst e')"
begin

text \<open>What is popped is the binding of the smallest key, and it is the only one to go.\<close>

lemma pop_first_least:
  assumes "ok m" and "entries m \<noteq> {#}"
  obtains p v m' where "pop_first m = Some ((p, v), m')" and "ok m'" and "get m p = Some v"
    and "entries m' = filter_mset (\<lambda>e. fst e \<noteq> p) (entries m)"
    and "\<And>q w. get m q = Some w \<Longrightarrow> q \<noteq> p \<Longrightarrow> p < q"
proof -
  from assms obtain e m' where pop: "pop_first m = Some (e, m')"
    using pop_first_None by (cases "pop_first m") auto
  note * = pop_first_Some [OF assms(1) pop]
  have "filter_mset (\<lambda>e'. fst e' \<noteq> fst e) (entries m') = entries m'"
    using * by (auto simp: filter_mset_eq_conv)
  moreover have "get m (fst e) = Some (snd e)" using * assms(1) by (simp add: get_entry)
  moreover have "fst e < q" if "get m q = Some w" and "q \<noteq> fst e" for q w
    using that * assms(1) by (auto simp: get_entry)
  ultimately show ?thesis
    using that [of "fst e" "snd e" m'] pop * by (cases e) auto
qed

end

subsection \<open>The model meets the contract\<close>

lemma bt_ok_Cons: "bt_ok (e # m) \<longleftrightarrow> (\<forall>e' \<in> set m. fst e < fst e') \<and> bt_ok m"
  by (auto simp: bt_ok_def)

lemma bt_ok_distinct: "bt_ok m \<Longrightarrow> distinct (map fst m)"
  by (induction m) (auto simp: bt_ok_Cons)

lemma filter_above: "\<forall>e \<in> set m. (k :: 'k::linorder) < fst e \<Longrightarrow> filter_mset (\<lambda>e. fst e \<noteq> k) (mset m) = mset m"
  by (auto simp: filter_mset_eq_conv)

lemma set_bt_insert: "set (bt_insert k v m) \<subseteq> insert (k, v) (set m)"
  by (induction m rule: bt_insert.induct [of _ k v]) auto

lemma set_bt_remove: "set (bt_remove k m) \<subseteq> set m"
  by (induction k m rule: bt_remove.induct) auto

lemma mset_bt_insert:
  "bt_ok m \<Longrightarrow> mset (bt_insert k v m) = add_mset (k, v) (filter_mset (\<lambda>e. fst e \<noteq> k) (mset m))"
proof (induction k v m rule: bt_insert.induct)
  case (2 k v k' v' m)
  have "k < k' \<Longrightarrow> filter_mset (\<lambda>e. fst e \<noteq> k) (mset m) = mset m"
    using "2.prems" by (intro filter_above) (auto simp: bt_ok_Cons intro: less_trans)
  with 2 show ?case using filter_above [of m k] by (auto simp: bt_ok_Cons)
qed simp

lemma mset_bt_remove: "bt_ok m \<Longrightarrow> mset (bt_remove k m) = filter_mset (\<lambda>e. fst e \<noteq> k) (mset m)"
proof (induction k m rule: bt_remove.induct)
  case (2 k k' v' m)
  then show ?case using filter_above [of m k] by (auto simp: bt_ok_Cons)
qed simp

lemma bt_ok_insert: "bt_ok m \<Longrightarrow> bt_ok (bt_insert k v m)"
proof (induction k v m rule: bt_insert.induct)
  case (2 k v k' v' m)
  then show ?case
    using set_bt_insert [of k v m] by (auto simp: bt_ok_Cons intro: less_trans)
qed (simp add: bt_ok_def)

lemma bt_ok_remove: "bt_ok m \<Longrightarrow> bt_ok (bt_remove k m)"
proof (induction k m rule: bt_remove.induct)
  case (2 k k' v' m)
  then show ?case using set_bt_remove [of k m] by (auto simp: bt_ok_Cons)
qed simp

interpretation bt: ordered_map_contract bt_empty bt_get bt_insert bt_remove bt_len bt_ok mset bt_pop_first
proof unfold_locales
  fix m m' :: "('k::linorder, 'v) btree_map" and k :: 'k and v :: 'v and e
  show "mset (bt_empty :: ('k, 'v) btree_map) = {#}" by (simp add: bt_empty_def)
  show "bt_ok (bt_empty :: ('k, 'v) btree_map)" by (simp add: bt_empty_def bt_ok_def)
  show "bt_len m = size (mset m)" by (simp add: bt_len_def)
  assume ok: "bt_ok m"
  show "mset (bt_insert k v m) = add_mset (k, v) (filter_mset (\<lambda>e. fst e \<noteq> k) (mset m))"
    using ok by (rule mset_bt_insert)
  show "mset (bt_remove k m) = filter_mset (\<lambda>e. fst e \<noteq> k) (mset m)"
    using ok by (rule mset_bt_remove)
  show "(bt_get m k = Some v) = ((k, v) \<in># mset m)"
    using bt_ok_distinct [OF ok] by (simp add: bt_get_def)
  show "bt_ok (bt_insert k v m)" using ok by (rule bt_ok_insert)
  show "bt_ok (bt_remove k m)" using ok by (rule bt_ok_remove)
  show "(bt_pop_first m = None) = (mset m = {#})"
    by (simp add: bt_pop_first_def split: list.split)
  assume "bt_pop_first m = Some (e, m')"
  then have "m = e # m'" by (simp add: bt_pop_first_def split: list.splits)
  then show "bt_ok m' \<and> mset m = add_mset e (mset m') \<and> (\<forall>e' \<in># mset m'. fst e < fst e')"
    using ok by (simp add: bt_ok_Cons)
qed

end
