(* ===== verification/Lfu.thy ===== *)
theory Lfu
  imports Ordered_Map Cache_Contract
begin

section \<open>LfuCache: the model\<close>

text \<open>
  \<open>src/lfu.rs\<close>: a shard keeps its entries in a hash map, each with its access count and the clock
  value of its last access, and the index \<open>by_priority\<close> from count and age to key. The clock ticks
  on every \<open>get\<close> and \<open>insert\<close>, hits and misses alike, and wraps around; counts saturate. The victim
  of an eviction is the index's first binding. No operation of a shard indexes or unwraps, so none
  can panic.
\<close>

record 'v lfu_entry =
  entry_value :: 'v
  entry_count :: u64
  entry_age :: u64

record ('k, 'v) lfu_inner =
  lfu_capacity :: usize
  lfu_map :: "('k, 'v lfu_entry) hash_map"
  by_priority :: "(u64 \<times> u64, 'k) btree_map"
  clock :: u64

type_synonym ('k, 'v) lfu_cache = "('k, 'v) lfu_inner cache"

definition lfu_inner_with_capacity :: "usize \<Rightarrow> ('k, 'v) lfu_inner" where
  "lfu_inner_with_capacity cap =
     \<lparr>lfu_capacity = cap, lfu_map = hm_empty, by_priority = bt_empty, clock = 0\<rparr>"

definition tick :: "(('k, 'v) lfu_inner, u64) exec" where
  "tick = seq_exec (modify (\<lambda>s. s\<lparr>clock := clock s + 1\<rparr>)) (gets clock)"

definition priority :: "'v lfu_entry \<Rightarrow> u64 \<times> u64" where
  "priority e = (entry_count e, entry_age e)"

subsection \<open>The bodies of the methods, under the lock\<close>

text \<open>
  The change of an entry through \<open>get_mut\<close> is an insertion under the same key, which replaces the
  binding where it stands.
\<close>

definition lfu_get_inner :: "'k \<Rightarrow> (('k, 'v) lfu_inner, 'v option) exec" where
  "lfu_get_inner key =
     bind_exec tick (\<lambda>new_age.
     bind_exec (gets (\<lambda>s. hm_get (lfu_map s) key)) (\<lambda>found. case found of
       None \<Rightarrow> ret None
     | Some entry \<Rightarrow>
         let old_priority = priority entry;
             entry' = entry\<lparr>entry_count := sat_add (entry_count entry) 1, entry_age := new_age\<rparr>;
             new_priority = priority entry'
         in seq_exec (modify (\<lambda>s. s\<lparr>lfu_map := hm_insert key entry' (lfu_map s)\<rparr>))
            (seq_exec (modify (\<lambda>s. s\<lparr>by_priority := bt_remove old_priority (by_priority s)\<rparr>))
            (seq_exec (modify (\<lambda>s. s\<lparr>by_priority := bt_insert new_priority key (by_priority s)\<rparr>))
            (ret (Some (entry_value entry)))))))"

definition lfu_make_room :: "(('k, 'v) lfu_inner, unit) exec" where
  "lfu_make_room =
     bind_exec (gets (\<lambda>s. unat (lfu_capacity s) \<le> hm_len (lfu_map s))) (\<lambda>full.
       if full then
         bind_exec (gets (\<lambda>s. bt_pop_first (by_priority s))) (\<lambda>popped. case popped of
           Some ((_, victim_key), rest) \<Rightarrow>
             seq_exec (modify (\<lambda>s. s\<lparr>by_priority := rest\<rparr>))
             (modify (\<lambda>s. s\<lparr>lfu_map := hm_remove victim_key (lfu_map s)\<rparr>))
         | None \<Rightarrow> ret ())
       else ret ())"

definition lfu_insert_inner :: "'k \<Rightarrow> 'v \<Rightarrow> (('k, 'v) lfu_inner, 'v option) exec" where
  "lfu_insert_inner key value =
     bind_exec tick (\<lambda>new_age.
     bind_exec (gets (\<lambda>s. hm_get (lfu_map s) key)) (\<lambda>found. case found of
       Some entry \<Rightarrow>
         let old_priority = priority entry;
             entry' = entry\<lparr>entry_value := value, entry_count := sat_add (entry_count entry) 1, entry_age := new_age\<rparr>;
             new_priority = priority entry'
         in seq_exec (modify (\<lambda>s. s\<lparr>lfu_map := hm_insert key entry' (lfu_map s)\<rparr>))
            (seq_exec (modify (\<lambda>s. s\<lparr>by_priority := bt_remove old_priority (by_priority s)\<rparr>))
            (seq_exec (modify (\<lambda>s. s\<lparr>by_priority := bt_insert new_priority key (by_priority s)\<rparr>))
            (ret (Some (entry_value entry)))))
     | None \<Rightarrow>
         let entry = \<lparr>entry_value = value, entry_count = 1, entry_age = new_age\<rparr>
         in seq_exec lfu_make_room
            (seq_exec (modify (\<lambda>s. s\<lparr>lfu_map := hm_insert key entry (lfu_map s)\<rparr>))
            (seq_exec (modify (\<lambda>s. s\<lparr>by_priority := bt_insert (priority entry) key (by_priority s)\<rparr>))
            (ret None)))))"

definition lfu_remove_inner :: "'k \<Rightarrow> (('k, 'v) lfu_inner, 'v option) exec" where
  "lfu_remove_inner key =
     bind_exec (gets (\<lambda>s. hm_get (lfu_map s) key)) (\<lambda>found. case found of
       None \<Rightarrow> ret None
     | Some entry \<Rightarrow>
         seq_exec (modify (\<lambda>s. s\<lparr>lfu_map := hm_remove key (lfu_map s)\<rparr>))
         (seq_exec (modify (\<lambda>s. s\<lparr>by_priority := bt_remove (priority entry) (by_priority s)\<rparr>))
         (ret (Some (entry_value entry)))))"

definition lfu_contains_inner :: "'k \<Rightarrow> (('k, 'v) lfu_inner, bool) exec" where
  "lfu_contains_inner key = gets (\<lambda>s. hm_contains (lfu_map s) key)"

definition lfu_len_inner :: "(('k, 'v) lfu_inner, nat) exec" where
  "lfu_len_inner = gets (\<lambda>s. hm_len (lfu_map s))"

definition lfu_clear_inner :: "(('k, 'v) lfu_inner, unit) exec" where
  "lfu_clear_inner = modify (\<lambda>s. s\<lparr>lfu_map := hm_empty, by_priority := bt_empty, clock := 0\<rparr>)"

subsection \<open>The cache\<close>

definition lfu_with_capacity :: "usize \<Rightarrow> ('k, 'v) lfu_cache" where
  "lfu_with_capacity capacity =
     (let num_shards = shard_count capacity;
          per_shard = per_shard_capacity capacity num_shards
      in \<lparr>total_capacity = capacity,
          sharded_inner = from_factory num_shards (\<lambda>_. lfu_inner_with_capacity per_shard)\<rparr>)"

definition lfu_new :: "usize \<Rightarrow> cache_error + ('k, 'v) lfu_cache" where
  "lfu_new capacity =
     (case ok_or (nonzero_new capacity) InvalidCapacity of
        Inl e \<Rightarrow> Inl e
      | Inr cap \<Rightarrow> Inr (lfu_with_capacity cap))"

definition lfu_get :: "'k hashing \<Rightarrow> 'k \<Rightarrow> (('k, 'v) lfu_cache, 'v option) exec" where
  "lfu_get H key = on_shards (with_shard H key (lfu_get_inner key))"

definition lfu_insert :: "'k hashing \<Rightarrow> 'k \<Rightarrow> 'v \<Rightarrow> (('k, 'v) lfu_cache, 'v option) exec" where
  "lfu_insert H key value = on_shards (with_shard H key (lfu_insert_inner key value))"

definition lfu_remove :: "'k hashing \<Rightarrow> 'k \<Rightarrow> (('k, 'v) lfu_cache, 'v option) exec" where
  "lfu_remove H key = on_shards (with_shard H key (lfu_remove_inner key))"

definition lfu_contains_key :: "'k hashing \<Rightarrow> 'k \<Rightarrow> (('k, 'v) lfu_cache, bool) exec" where
  "lfu_contains_key H key = on_shards (with_shard H key (lfu_contains_inner key))"

definition lfu_len :: "(('k, 'v) lfu_cache, nat) exec" where
  "lfu_len = bind_exec (on_shards (each_shard lfu_len_inner)) (\<lambda>ns. ret (sum_list ns))"

definition lfu_clear :: "(('k, 'v) lfu_cache, unit) exec" where
  "lfu_clear = bind_exec (on_shards (each_shard lfu_clear_inner)) (\<lambda>_. ret ())"

definition lfu_capacity_of :: "('k, 'v) lfu_cache \<Rightarrow> usize" where
  "lfu_capacity_of c = total_capacity c"

definition lfu_is_empty :: "(('k, 'v) lfu_cache, bool) exec" where
  "lfu_is_empty = is_empty_of lfu_len"

subsection \<open>The map and the index together\<close>

text \<open>The index holds exactly the priorities of the map's entries, each with its key.\<close>

definition index_entry :: "'k \<times> 'v lfu_entry \<Rightarrow> (u64 \<times> u64) \<times> 'k" where
  "index_entry b = (priority (snd b), fst b)"

definition lfu_linked :: "('k, 'v lfu_entry) hash_map \<Rightarrow> (u64 \<times> u64, 'k) btree_map \<Rightarrow> bool" where
  "lfu_linked M I \<longleftrightarrow> hm_ok M \<and> bt_ok I \<and> mset I = image_mset index_entry (mset M)"

lemma lfu_linked_split:
  assumes "lfu_linked M I" and "hm_get M k = Some e"
  shows "mset M = add_mset (k, e) (mset (hm_remove k M))"
    and "mset I = add_mset (priority e, k) (image_mset index_entry (mset (hm_remove k M)))"
    and "\<And>j. bt_get I (priority e) = Some j \<longleftrightarrow> j = k"
proof -
  have ok: "hm_ok M" "bt_ok I" "mset I = image_mset index_entry (mset M)"
    using assms(1) by (simp_all add: lfu_linked_def)
  have mem: "(k, e) \<in># mset M" using assms(2) hm.get_entry [OF ok(1)] by blast
  have "mset M = filter_mset (\<lambda>b. fst b \<noteq> k) (mset M) + filter_mset (\<lambda>b. \<not> fst b \<noteq> k) (mset M)"
    by (rule multiset_partition)
  also have "filter_mset (\<lambda>b. \<not> fst b \<noteq> k) (mset M) = {#(k, e)#}"
    using mem ok(1) unfolding hm_ok_def
  proof (induction M)
    case (Cons b M)
    show ?case
    proof (cases "fst b = k")
      case True
      with Cons.prems have "filter_mset (\<lambda>b. fst b = k) (mset M) = {#}" "b = (k, e)"
        by (auto simp: rev_image_eqI)
      then show ?thesis by simp
    qed (use Cons in auto)
  qed simp
  finally show m: "mset M = add_mset (k, e) (mset (hm_remove k M))"
    using hm.entries_remove [OF ok(1)] by simp
  then show i: "mset I = add_mset (priority e, k) (image_mset index_entry (mset (hm_remove k M)))"
    using ok(3) by (simp add: index_entry_def)
  show "bt_get I (priority e) = Some j \<longleftrightarrow> j = k" for j
    using bt.get_entry [OF ok(2), of "priority e" k] i by auto
qed

lemma lfu_linked_drop:
  assumes "lfu_linked M I" and "hm_get M k = Some e"
  shows "lfu_linked (hm_remove k M) (bt_remove (priority e) I)"
proof -
  have ok: "hm_ok M" "bt_ok I" using assms(1) by (simp_all add: lfu_linked_def)
  note s = lfu_linked_split [OF assms]
  have "fst x \<noteq> priority e" if x: "x \<in># image_mset index_entry (mset (hm_remove k M))" for x
  proof
    assume "fst x = priority e"
    moreover have "x \<in># mset I" using x s(2) by simp
    ultimately have "bt_get I (priority e) = Some (snd x)"
      using bt.get_entry [OF ok(2)] by (metis prod.collapse)
    then have "snd x = k" using s(3) by simp
    then show False using x by (auto simp: index_entry_def hm_remove_filter)
  qed
  then have "filter_mset (\<lambda>x. fst x \<noteq> priority e) (image_mset index_entry (mset (hm_remove k M))) =
      image_mset index_entry (mset (hm_remove k M))"
    by (simp add: filter_mset_eq_conv)
  then show ?thesis
    using ok s(2) hm.ok_remove [OF ok(1)] bt.ok_remove [OF ok(2)] bt.entries_remove [OF ok(2)]
    by (simp add: lfu_linked_def)
qed

lemma lfu_linked_add:
  assumes "lfu_linked M I" and "hm_get M k = None"
    and "\<And>j e'. hm_get M j = Some e' \<Longrightarrow> priority e' \<noteq> priority e"
  shows "lfu_linked (hm_insert k e M) (bt_insert (priority e) k I)"
proof -
  have ok: "hm_ok M" "bt_ok I" "mset I = image_mset index_entry (mset M)"
    using assms(1) by (simp_all add: lfu_linked_def)
  have "fst x \<noteq> priority e" if "x \<in># mset I" for x
    using that assms(3) hm.get_entry [OF ok(1)] by (auto simp: ok(3) index_entry_def)
  then have "bt_get I (priority e) = None"
    unfolding bt.get_None [OF ok(2)] by force
  then show ?thesis
    using ok hm.entries_insert_new [OF ok(1) assms(2)] bt.entries_insert_new [OF ok(2)]
      hm.ok_insert [OF ok(1)] bt.ok_insert [OF ok(2)]
    by (simp add: lfu_linked_def index_entry_def)
qed

lemma lfu_linked_touch:
  assumes "lfu_linked M I" and "hm_get M k = Some e"
    and "\<And>j e'. hm_get M j = Some e' \<Longrightarrow> priority e' \<noteq> priority f"
  shows "lfu_linked (hm_insert k f M) (bt_insert (priority f) k (bt_remove (priority e) I))"
proof -
  have ok: "hm_ok M" using assms(1) by (simp add: lfu_linked_def)
  have "lfu_linked (hm_insert k f (hm_remove k M)) (bt_insert (priority f) k (bt_remove (priority e) I))"
    using assms(3) by (intro lfu_linked_add lfu_linked_drop assms(1,2))
      (auto simp: hm_get_remove split: if_splits)
  moreover have "mset (hm_insert k f (hm_remove k M)) = mset (hm_insert k f M)"
    using hm.entries_insert [OF ok] hm.entries_insert [OF hm.ok_remove [OF ok]] hm.entries_remove [OF ok]
    by (simp add: filter_filter_mset)
  ultimately show ?thesis using hm.ok_insert [OF ok] by (simp add: lfu_linked_def)
qed

lemma lfu_linked_pop:
  assumes "lfu_linked M I" and "M \<noteq> []"
  obtains k e I' where "bt_pop_first I = Some ((priority e, k), I')" and "hm_get M k = Some e"
    and "lfu_linked (hm_remove k M) I'"
    and "\<And>j f. hm_get M j = Some f \<Longrightarrow> j \<noteq> k \<Longrightarrow> priority e < priority f"
proof -
  have ok: "hm_ok M" "bt_ok I" "mset I = image_mset index_entry (mset M)"
    using assms(1) by (simp_all add: lfu_linked_def)
  then have "mset I \<noteq> {#}" using assms(2) by simp
  with ok(2) obtain p k I' where pop: "bt_pop_first I = Some ((p, k), I')" "bt_ok I'"
      "bt_get I p = Some k" "mset I' = filter_mset (\<lambda>e. fst e \<noteq> p) (mset I)"
      "\<And>q w. bt_get I q = Some w \<Longrightarrow> q \<noteq> p \<Longrightarrow> p < q"
    by (rule bt.pop_first_least) blast
  then have "(p, k) \<in># mset I" using bt.get_entry [OF ok(2)] by blast
  then obtain e where e: "(k, e) \<in># mset M" "p = priority e"
    unfolding ok(3) by (auto simp: index_entry_def)
  then have get: "hm_get M k = Some e" using hm.get_entry [OF ok(1)] by blast
  have "mset (bt_remove p I) = mset I'" using pop(4) bt.entries_remove [OF ok(2)] by simp
  then have linked: "lfu_linked (hm_remove k M) I'"
    using lfu_linked_drop [OF assms(1) get] pop(2) e(2) by (simp add: lfu_linked_def)
  have "priority e < priority f" if "hm_get M j = Some f" and "j \<noteq> k" for j f
  proof -
    have "bt_get I (priority f) = Some j" using lfu_linked_split(3) [OF assms(1) that(1)] by simp
    moreover have "priority f \<noteq> p" using calculation pop(3) that(2) by auto
    ultimately show ?thesis using pop(5) e(2) by blast
  qed
  with that pop(1) e(2) get linked show ?thesis by blast
qed

end
