(* ===== verification/Lfu_Policy.thy ===== *)
theory Lfu_Policy
  imports Lfu
begin

section \<open>LfuCache: the policy and the contract\<close>

text \<open>
  The abstract view of an LFU shard has natural numbers for counts and times: the value of each
  key, how often it was accessed since it was last inserted afresh, and when it was last accessed.
  As long as the clock has not reached its last value, a shard implements the policy on this view
  exactly: nothing saturates or wraps, and the victim is the entry with the fewest accesses, the
  least recently accessed among equals.
\<close>

type_synonym ('k, 'v) usage = "'k \<rightharpoonup> 'v \<times> nat \<times> nat"

definition lfu_usage :: "('k, 'v) lfu_inner \<Rightarrow> ('k, 'v) usage" where
  "lfu_usage s k = map_option (\<lambda>e. (entry_value e, unat (entry_count e), unat (entry_age e))) (hm_get (lfu_map s) k)"

definition least_used :: "('k, 'v) usage \<Rightarrow> 'k \<Rightarrow> bool" where
  "least_used U k0 \<longleftrightarrow> (\<exists>v n a. U k0 = Some (v, n, a) \<and>
     (\<forall>k v' n' a'. k \<noteq> k0 \<longrightarrow> U k = Some (v', n', a') \<longrightarrow> n < n' \<or> n = n' \<and> a < a'))"

definition lfu_spec_get :: "nat \<Rightarrow> 'k \<Rightarrow> ('k, 'v) usage \<Rightarrow> 'v option \<times> ('k, 'v) usage" where
  "lfu_spec_get now k U = (case U k of
      None \<Rightarrow> (None, U)
    | Some (v, n, a) \<Rightarrow> (Some v, U(k \<mapsto> (v, Suc n, now))))"

definition lfu_spec_insert ::
  "nat \<Rightarrow> nat \<Rightarrow> 'k \<Rightarrow> 'v \<Rightarrow> ('k, 'v) usage \<Rightarrow> 'v option \<times> ('k, 'v) usage \<Rightarrow> bool" where
  "lfu_spec_insert now cap k v U result \<longleftrightarrow> (case U k of
      Some (old, n, a) \<Rightarrow> result = (Some old, U(k \<mapsto> (v, Suc n, now)))
    | None \<Rightarrow>
        if card (dom U) < cap then result = (None, U(k \<mapsto> (v, 1, now)))
        else \<exists>victim. least_used U victim \<and> result = (None, (U(victim := None))(k \<mapsto> (v, 1, now))))"

text \<open>The victim is unique, so the specification determines the result.\<close>

lemma least_used_unique: "least_used U j \<Longrightarrow> least_used U k \<Longrightarrow> j = k"
proof (rule ccontr)
  assume j: "least_used U j" and k: "least_used U k" and ne: "j \<noteq> k"
  from j obtain v n a where "U j = Some (v, n, a)" unfolding least_used_def by blast
  moreover from k obtain w m b where "U k = Some (w, m, b)" unfolding least_used_def by blast
  ultimately have "n < m \<or> n = m \<and> a < b" "m < n \<or> m = n \<and> b < a"
    using j k ne by (simp_all add: least_used_def) (metis (no_types))+
  then show False by auto
qed

lemma lfu_spec_insert_determined:
  "lfu_spec_insert now cap k v U r \<Longrightarrow> lfu_spec_insert now cap k v U r' \<Longrightarrow> r = r'"
  by (auto simp: lfu_spec_insert_def split: option.splits if_splits dest: least_used_unique)

subsection \<open>The invariant\<close>

definition lfu_ok :: "('k, 'v) lfu_inner \<Rightarrow> bool" where
  "lfu_ok s \<longleftrightarrow> lfu_linked (lfu_map s) (by_priority s) \<and>
     0 < unat (lfu_capacity s) \<and> hm_len (lfu_map s) \<le> unat (lfu_capacity s) \<and>
     (\<forall>k e. hm_get (lfu_map s) k = Some e \<longrightarrow>
        unat (entry_count e) \<le> unat (clock s) \<and> unat (entry_age e) \<le> unat (clock s))"

definition lfu_ready :: "('k, 'v) lfu_inner \<Rightarrow> bool" where
  "lfu_ready s \<longleftrightarrow> unat (clock s) < 2 ^ 64 - 1"

lemma tick_eq: "tick s = (Done (clock s + 1), s\<lparr>clock := clock s + 1\<rparr>)"
  by (simp add: tick_def)

lemma lfu_ready_tick: "lfu_ready s \<Longrightarrow> unat (clock s + 1) = Suc (unat (clock s))"
  by (simp add: lfu_ready_def unat_word_ariths)

lemma lfu_map_card:
  assumes "lfu_ok s"
  shows "hm_len (lfu_map s) = card (dom (lfu_usage s))"
proof -
  have "dom (lfu_usage s) = dom (hm_get (lfu_map s))" by (auto simp: lfu_usage_def dom_def)
  then show ?thesis using assms by (simp add: lfu_ok_def lfu_linked_def hm_len_eq_card)
qed

text \<open>An access of a present entry, with or without a new value.\<close>

lemma lfu_touch_ok:
  assumes ok: "lfu_ok s" and ready: "lfu_ready s" and get: "hm_get (lfu_map s) k = Some e"
    and f: "entry_count f = sat_add (entry_count e) 1" "entry_age f = clock s + 1"
  defines "s' \<equiv> s\<lparr>clock := clock s + 1, lfu_map := hm_insert k f (lfu_map s),
      by_priority := bt_insert (priority f) k (bt_remove (priority e) (by_priority s))\<rparr>"
  shows "lfu_ok s'" and "lfu_capacity s' = lfu_capacity s" and "unat (clock s') = Suc (unat (clock s))"
    and "lfu_usage s' = (lfu_usage s)(k \<mapsto> (entry_value f, Suc (unat (entry_count e)), Suc (unat (clock s))))"
proof -
  have linked: "lfu_linked (lfu_map s) (by_priority s)" and hm: "hm_ok (lfu_map s)"
    and bound: "unat (entry_count g) \<le> unat (clock s)" "unat (entry_age g) \<le> unat (clock s)"
      if "hm_get (lfu_map s) j = Some g" for j g
    using ok that by (auto simp: lfu_ok_def lfu_linked_def)
  then have linked: "lfu_linked (lfu_map s) (by_priority s)" and hm: "hm_ok (lfu_map s)"
    using get by blast+
  note now = lfu_ready_tick [OF ready]
  have count: "unat (entry_count f) = Suc (unat (entry_count e))"
    using bound(1) [OF get] ready by (simp add: f sat_simps lfu_ready_def)
  have fresh: "priority g \<noteq> priority f" if "hm_get (lfu_map s) j = Some g" for j g
    using bound(2) [OF that] now f(2) by (auto simp: priority_def)
  show "lfu_capacity s' = lfu_capacity s" and "unat (clock s') = Suc (unat (clock s))"
    using now by (simp_all add: s'_def)
  show "lfu_usage s' = (lfu_usage s)(k \<mapsto> (entry_value f, Suc (unat (entry_count e)), Suc (unat (clock s))))"
    using count now f(2) by (simp add: fun_eq_iff lfu_usage_def s'_def hm_get_insert)
  have "hm_len (hm_insert k f (lfu_map s)) = Suc (size (mset (hm_remove k (lfu_map s))))"
    by (simp only: hm.len_entries hm.entries_insert [OF hm] hm.entries_remove [OF hm] size_add_mset)
  also have "\<dots> = hm_len (lfu_map s)"
    by (simp only: hm.len_entries lfu_linked_split(1) [OF linked get] size_add_mset)
  finally have "hm_len (hm_insert k f (lfu_map s)) = hm_len (lfu_map s)" .
  moreover have "lfu_linked (lfu_map s') (by_priority s')"
    unfolding s'_def using lfu_linked_touch [OF linked get fresh] by simp
  moreover have "unat (entry_count g) \<le> unat (clock s') \<and> unat (entry_age g) \<le> unat (clock s')"
    if "hm_get (lfu_map s') j = Some g" for j g
  proof (cases "j = k")
    case True
    then show ?thesis
      using that count now f(2) bound(1) [OF get] by (simp add: s'_def hm_get_insert)
  next
    case False
    then have "hm_get (lfu_map s) j = Some g" using that by (simp add: s'_def hm_get_insert)
    from bound [OF this] now show ?thesis by (simp add: s'_def)
  qed
  ultimately show "lfu_ok s'" using ok by (simp add: lfu_ok_def s'_def)
qed

lemma lfu_tick_ok:
  assumes "lfu_ok s" and "lfu_ready s"
  shows "lfu_ok (s\<lparr>clock := clock s + 1\<rparr>)" and "lfu_usage (s\<lparr>clock := clock s + 1\<rparr>) = lfu_usage s"
  using assms lfu_ready_tick [OF assms(2)] by (auto simp: lfu_ok_def lfu_usage_def fun_eq_iff intro: le_SucI)

lemma lfu_get_refines:
  assumes ok: "lfu_ok s" and ready: "lfu_ready s"
  shows "runs_to (lfu_get_inner k) s (\<lambda>r s'.
           (r, lfu_usage s') = lfu_spec_get (Suc (unat (clock s))) k (lfu_usage s) \<and>
           lfu_ok s' \<and> lfu_capacity s' = lfu_capacity s \<and> unat (clock s') = Suc (unat (clock s)))"
proof (cases "hm_get (lfu_map s) k")
  case None
  then have "lfu_get_inner k s = (Done None, s\<lparr>clock := clock s + 1\<rparr>)"
    by (simp add: lfu_get_inner_def exec_apply tick_eq)
  then show ?thesis
    using None lfu_tick_ok [OF ok ready] lfu_ready_tick [OF ready]
    by (auto simp: runs_to_def lfu_spec_get_def lfu_usage_def)
next
  case (Some e)
  let ?f = "e\<lparr>entry_count := sat_add (entry_count e) 1, entry_age := clock s + 1\<rparr>"
  let ?s = "s\<lparr>clock := clock s + 1, lfu_map := hm_insert k ?f (lfu_map s),
      by_priority := bt_insert (priority ?f) k (bt_remove (priority e) (by_priority s))\<rparr>"
  have run: "lfu_get_inner k s = (Done (Some (entry_value e)), ?s)"
    using Some by (simp add: lfu_get_inner_def exec_apply tick_eq Let_def)
  have "entry_count ?f = sat_add (entry_count e) 1" "entry_age ?f = clock s + 1" by simp_all
  from lfu_touch_ok [OF ok ready Some this] show ?thesis
    unfolding runs_to_def run using Some by (simp add: lfu_spec_get_def lfu_usage_def)
qed

lemma lfu_remove_ok:
  assumes ok: "lfu_ok s" and linked: "lfu_linked (hm_remove k (lfu_map s)) I"
  shows "lfu_ok (s\<lparr>lfu_map := hm_remove k (lfu_map s), by_priority := I\<rparr>)"
    and "lfu_usage (s\<lparr>lfu_map := hm_remove k (lfu_map s), by_priority := I\<rparr>) = (lfu_usage s)(k := None)"
proof -
  have "hm_len (hm_remove k (lfu_map s)) \<le> hm_len (lfu_map s)"
    using ok by (intro hm.len_remove_le) (simp add: lfu_ok_def lfu_linked_def)
  then show "lfu_ok (s\<lparr>lfu_map := hm_remove k (lfu_map s), by_priority := I\<rparr>)"
    using ok linked by (auto simp: lfu_ok_def hm_get_remove)
  show "lfu_usage (s\<lparr>lfu_map := hm_remove k (lfu_map s), by_priority := I\<rparr>) = (lfu_usage s)(k := None)"
    by (simp add: lfu_usage_def fun_eq_iff hm_get_remove)
qed

lemma priority_less:
  "priority e < priority f \<Longrightarrow> unat (entry_count e) < unat (entry_count f) \<or>
     unat (entry_count e) = unat (entry_count f) \<and> unat (entry_age e) < unat (entry_age f)"
  by (auto simp: priority_def less_prod_def word_less_nat_alt word_le_nat_alt)

lemma lfu_make_room_spec:
  assumes ok: "lfu_ok s"
  shows "runs_to lfu_make_room s (\<lambda>_ s'. lfu_ok s' \<and> hm_len (lfu_map s') < unat (lfu_capacity s) \<and>
           lfu_capacity s' = lfu_capacity s \<and> clock s' = clock s \<and>
           (if card (dom (lfu_usage s)) < unat (lfu_capacity s) then lfu_usage s' = lfu_usage s
            else \<exists>victim. least_used (lfu_usage s) victim \<and> lfu_usage s' = (lfu_usage s)(victim := None)))"
proof (cases "unat (lfu_capacity s) \<le> hm_len (lfu_map s)")
  case False
  then have "lfu_make_room s = (Done (), s)" by (simp add: lfu_make_room_def)
  with False ok show ?thesis by (auto simp: runs_to_def lfu_map_card)
next
  case True
  then have "lfu_map s \<noteq> []" using ok by (auto simp: lfu_ok_def hm_len_def)
  moreover have linked: "lfu_linked (lfu_map s) (by_priority s)" using ok by (simp add: lfu_ok_def)
  ultimately obtain k e I where pop: "bt_pop_first (by_priority s) = Some ((priority e, k), I)"
      "hm_get (lfu_map s) k = Some e" "lfu_linked (hm_remove k (lfu_map s)) I"
      "\<And>j f. hm_get (lfu_map s) j = Some f \<Longrightarrow> j \<noteq> k \<Longrightarrow> priority e < priority f"
    using lfu_linked_pop by metis
  let ?s = "s\<lparr>lfu_map := hm_remove k (lfu_map s), by_priority := I\<rparr>"
  have run: "lfu_make_room s = (Done (), ?s)"
    using True pop(1) by (simp add: lfu_make_room_def exec_apply)
  note r = lfu_remove_ok [OF ok pop(3)]
  have "Suc (hm_len (hm_remove k (lfu_map s))) = hm_len (lfu_map s)"
    by (simp only: hm.len_entries lfu_linked_split(1) [OF linked pop(2)] size_add_mset)
  then have "hm_len (lfu_map ?s) < unat (lfu_capacity s)" using ok by (simp add: lfu_ok_def)
  moreover have "least_used (lfu_usage s) k"
    using pop(2,4) by (auto simp: least_used_def lfu_usage_def dest!: priority_less)
  ultimately show ?thesis
    using True r lfu_map_card [OF ok] unfolding runs_to_def run by auto
qed

lemma lfu_insert_refines:
  assumes ok: "lfu_ok s" and ready: "lfu_ready s"
  shows "runs_to (lfu_insert_inner k v) s (\<lambda>r s'.
           lfu_spec_insert (Suc (unat (clock s))) (unat (lfu_capacity s)) k v (lfu_usage s) (r, lfu_usage s') \<and>
           lfu_ok s' \<and> lfu_capacity s' = lfu_capacity s \<and> unat (clock s') = Suc (unat (clock s)))"
proof (cases "hm_get (lfu_map s) k")
  case (Some e)
  let ?f = "e\<lparr>entry_value := v, entry_count := sat_add (entry_count e) 1, entry_age := clock s + 1\<rparr>"
  let ?s = "s\<lparr>clock := clock s + 1, lfu_map := hm_insert k ?f (lfu_map s),
      by_priority := bt_insert (priority ?f) k (bt_remove (priority e) (by_priority s))\<rparr>"
  have run: "lfu_insert_inner k v s = (Done (Some (entry_value e)), ?s)"
    using Some by (simp add: lfu_insert_inner_def exec_apply tick_eq Let_def)
  have "entry_count ?f = sat_add (entry_count e) 1" "entry_age ?f = clock s + 1" by simp_all
  from lfu_touch_ok [OF ok ready Some this] show ?thesis
    unfolding runs_to_def run using Some by (simp add: lfu_spec_insert_def lfu_usage_def)
next
  case None
  note now = lfu_ready_tick [OF ready]
  let ?t = "s\<lparr>clock := clock s + 1\<rparr>"
  note t = lfu_tick_ok [OF ok ready]
  from lfu_make_room_spec [OF t(1), unfolded t(2)] obtain s1 where room: "lfu_make_room ?t = (Done (), s1)"
      "lfu_ok s1" "hm_len (lfu_map s1) < unat (lfu_capacity s)" "lfu_capacity s1 = lfu_capacity s"
      "clock s1 = clock s + 1"
      "if card (dom (lfu_usage s)) < unat (lfu_capacity s) then lfu_usage s1 = lfu_usage s
       else \<exists>victim. least_used (lfu_usage s) victim \<and> lfu_usage s1 = (lfu_usage s)(victim := None)"
    by (elim runs_toE conjE) simp
  let ?e = "\<lparr>entry_value = v, entry_count = 1, entry_age = clock s + 1\<rparr>"
  let ?s = "s1\<lparr>lfu_map := hm_insert k ?e (lfu_map s1), by_priority := bt_insert (priority ?e) k (by_priority s1)\<rparr>"
  have run: "lfu_insert_inner k v s = (Done None, ?s)"
    using None room(1) by (simp add: lfu_insert_inner_def exec_apply tick_eq Let_def)
  have absent: "lfu_usage s k = None" using None by (simp add: lfu_usage_def)
  then have "lfu_usage s1 k = None" using room(6) by (auto split: if_splits)
  then have none: "hm_get (lfu_map s1) k = None" by (simp add: lfu_usage_def)
  have linked: "lfu_linked (lfu_map s1) (by_priority s1)" and hm: "hm_ok (lfu_map s1)"
    using room(2) by (simp_all add: lfu_ok_def lfu_linked_def)
  have old: "unat (entry_age g) \<le> unat (clock s)" if "hm_get (lfu_map s1) j = Some g" for j g
  proof -
    have "lfu_usage s1 j = Some (entry_value g, unat (entry_count g), unat (entry_age g))"
      using that by (simp add: lfu_usage_def)
    then have "lfu_usage s j = Some (entry_value g, unat (entry_count g), unat (entry_age g))"
      using room(6) by (auto split: if_splits)
    then obtain g' where "hm_get (lfu_map s) j = Some g'" "unat (entry_age g') = unat (entry_age g)"
      by (auto simp: lfu_usage_def)
    then show ?thesis using ok by (metis lfu_ok_def)
  qed
  have "priority g \<noteq> priority ?e" if "hm_get (lfu_map s1) j = Some g" for j g
    using old [OF that] now by (auto simp: priority_def)
  from lfu_linked_add [OF linked none this]
  have "lfu_linked (lfu_map ?s) (by_priority ?s)" by simp
  moreover have "hm_len (lfu_map ?s) \<le> unat (lfu_capacity ?s)"
    using hm.len_insert_new [OF hm none] room(3,4) by simp
  moreover have "unat (entry_count g) \<le> unat (clock ?s) \<and> unat (entry_age g) \<le> unat (clock ?s)"
    if "hm_get (lfu_map ?s) j = Some g" for j g
    using that room(2,5) now by (auto simp: hm_get_insert lfu_ok_def split: if_splits)
  ultimately have "lfu_ok ?s" using room(2) by (simp add: lfu_ok_def)
  moreover have "lfu_usage ?s = (lfu_usage s1)(k \<mapsto> (v, 1, Suc (unat (clock s))))"
    using now by (simp add: lfu_usage_def fun_eq_iff hm_get_insert)
  ultimately show ?thesis
    using absent room(4-6) now unfolding runs_to_def run
    by (auto simp: lfu_spec_insert_def split: if_splits)
qed

lemma lfu_remove_refines:
  assumes ok: "lfu_ok s"
  shows "runs_to (lfu_remove_inner k) s (\<lambda>r s'. r = map_option fst (lfu_usage s k) \<and>
           lfu_usage s' = (lfu_usage s)(k := None) \<and> lfu_ok s' \<and>
           lfu_capacity s' = lfu_capacity s \<and> clock s' = clock s)"
proof (cases "hm_get (lfu_map s) k")
  case None
  then have "lfu_remove_inner k s = (Done None, s)" by (simp add: lfu_remove_inner_def)
  with None ok show ?thesis by (auto simp: runs_to_def lfu_usage_def)
next
  case (Some e)
  let ?s = "s\<lparr>lfu_map := hm_remove k (lfu_map s), by_priority := bt_remove (priority e) (by_priority s)\<rparr>"
  have run: "lfu_remove_inner k s = (Done (Some (entry_value e)), ?s)"
    using Some by (simp add: lfu_remove_inner_def)
  have "lfu_linked (hm_remove k (lfu_map s)) (bt_remove (priority e) (by_priority s))"
    using ok Some by (intro lfu_linked_drop) (simp add: lfu_ok_def)
  from lfu_remove_ok [OF ok this] show ?thesis
    unfolding runs_to_def run using Some by (simp add: lfu_usage_def)
qed

end
