(* ===== verification/Lfu_Cache.thy ===== *)
theory Lfu_Cache
  imports Lfu_Policy
begin

section \<open>LfuCache: the contract and the properties of the cache\<close>

text \<open>
  The shard meets \<open>storing_contract\<close> whenever its clock has not reached its last value, and the
  number of calls made on a cache bounds every shard's clock.
\<close>

definition lfu_view :: "('k, 'v) lfu_inner \<Rightarrow> 'k \<Rightarrow> 'v option" where
  "lfu_view s k = map_option fst (lfu_usage s k)"

definition lfu_bound :: "('k, 'v) lfu_inner \<Rightarrow> nat" where
  "lfu_bound s = unat (lfu_capacity s)"

lemma lfu_view_entry: "lfu_view s k = map_option entry_value (hm_get (lfu_map s) k)"
  by (cases "hm_get (lfu_map s) k") (simp_all add: lfu_view_def lfu_usage_def)

lemma dom_lfu_view: "dom (lfu_view s) = dom (lfu_usage s)"
  by (auto simp: lfu_view_def dom_def)

lemma lfu_ok_new:
  "0 < unat cap \<Longrightarrow> lfu_ok (lfu_inner_with_capacity cap)"
  "lfu_usage (lfu_inner_with_capacity cap) = Map.empty"
  by (simp_all add: lfu_inner_with_capacity_def lfu_ok_def lfu_linked_def hm.ok_empty bt.ok_empty
      hm.entries_empty bt.entries_empty hm_get_empty lfu_usage_def fun_eq_iff)

lemma lfu_ok_clear:
  assumes "lfu_ok s"
  shows "lfu_ok (s\<lparr>lfu_map := hm_empty, by_priority := bt_empty, clock := 0\<rparr>)"
    and "lfu_usage (s\<lparr>lfu_map := hm_empty, by_priority := bt_empty, clock := 0\<rparr>) = Map.empty"
  using assms by (simp_all add: lfu_ok_def lfu_linked_def hm.ok_empty bt.ok_empty
      hm.entries_empty bt.entries_empty hm_get_empty lfu_usage_def fun_eq_iff)

lemma lfu_spec_insert_view:
  assumes "lfu_spec_insert now cap k v U (r, U')"
  shows "r = map_option fst (U k)" and "U' k \<noteq> None" and "map_option fst (U' k) = Some v"
    and "j \<noteq> k \<Longrightarrow> U' j = U j \<or> U' j = None"
  using assms by (auto simp: lfu_spec_insert_def split: option.splits if_splits)

interpretation lfu_shard: storing_contract lfu_ok lfu_ready lfu_bound lfu_view lfu_get_inner
  lfu_insert_inner lfu_remove_inner lfu_contains_inner lfu_len_inner lfu_clear_inner
proof unfold_locales
  fix s :: "('k, 'v) lfu_inner" and k :: 'k and v :: 'v
  assume ok: "lfu_ok s"
  show "runs_to (lfu_remove_inner k) s (\<lambda>r s'. (\<forall>v. lfu_view s k = Some v \<longrightarrow> r = Some v) \<and>
      lfu_ok s' \<and> lfu_bound s' = lfu_bound s \<and> lfu_view s' = (lfu_view s)(k := None))"
    by (rule runs_to_mono [OF lfu_remove_refines [OF ok]])
      (auto simp: lfu_view_def lfu_bound_def fun_eq_iff)
  show "runs_to (lfu_contains_inner k) s (\<lambda>r s'. r = (lfu_view s k \<noteq> None) \<and>
      lfu_ok s' \<and> lfu_bound s' = lfu_bound s \<and> lfu_view s' = lfu_view s)"
    using ok by (auto simp: runs_to_def lfu_contains_inner_def hm_contains_def lfu_view_entry)
  show "runs_to lfu_len_inner s (\<lambda>n s'. n = card (dom (lfu_view s)) \<and> n \<le> lfu_bound s \<and>
      lfu_ok s' \<and> lfu_bound s' = lfu_bound s \<and> lfu_view s' = lfu_view s)"
    using ok lfu_map_card [OF ok]
    by (auto simp: runs_to_def lfu_len_inner_def dom_lfu_view lfu_bound_def lfu_ok_def)
  show "runs_to lfu_clear_inner s (\<lambda>_ s'. lfu_ok s' \<and> lfu_bound s' = lfu_bound s \<and> lfu_view s' = Map.empty)"
    using lfu_ok_clear [OF ok] by (auto simp: runs_to_def lfu_clear_inner_def lfu_bound_def lfu_view_def)
  show "finite (dom (lfu_view s))"
    using finite_dom_hm_get [of "lfu_map s"] by (rule finite_subset [rotated]) (auto simp: lfu_view_entry)
  assume ready: "lfu_ready s"
  show "runs_to (lfu_get_inner k) s (\<lambda>r s'. r = lfu_view s k \<and>
      lfu_ok s' \<and> lfu_bound s' = lfu_bound s \<and> lfu_view s' = lfu_view s)"
    by (rule runs_to_mono [OF lfu_get_refines [OF ok ready]])
      (auto simp: lfu_view_def lfu_bound_def fun_eq_iff lfu_spec_get_def split: option.splits)
  show "runs_to (lfu_insert_inner k v) s (\<lambda>r s'. r = lfu_view s k \<and> lfu_ok s' \<and> lfu_bound s' = lfu_bound s \<and>
      (\<forall>j. j \<noteq> k \<longrightarrow> lfu_view s' j = lfu_view s j \<or> lfu_view s' j = None) \<and>
      (lfu_view s' k = Some v \<or> lfu_view s' k = None))"
    by (rule runs_to_mono [OF lfu_insert_refines [OF ok ready]])
      (auto simp: lfu_view_def lfu_bound_def dest: lfu_spec_insert_view)
  show "runs_to (lfu_insert_inner k v) s (\<lambda>_ s'. lfu_view s' k = Some v)"
    by (rule runs_to_mono [OF lfu_insert_refines [OF ok ready]])
      (auto simp: lfu_view_def dest: lfu_spec_insert_view)
qed

subsection \<open>The clock counts calls\<close>

definition lfu_used :: "('k, 'v) lfu_inner \<Rightarrow> nat" where
  "lfu_used s = unat (clock s)"

definition clocks_le :: "nat \<Rightarrow> ('k, 'v) lfu_cache \<Rightarrow> bool" where
  "clocks_le n c \<longleftrightarrow> used_le lfu_used n (sharded_inner c)"

lemma unat_tick_le: "unat (x + 1 :: u64) \<le> Suc (unat x)"
proof -
  have "unat (x + 1) = (unat x + 1) mod 2 ^ 64" by (simp add: unat_word_ariths)
  then show ?thesis using mod_less_eq_dividend [of "unat x + 1" "2 ^ 64"] by linarith
qed

lemma lfu_make_room_clock: "lfu_make_room s = (r, s') \<Longrightarrow> clock s' = clock s"
  by (auto simp: lfu_make_room_def exec_apply split: if_splits option.splits prod.splits)

lemma lfu_ticks:
  "uses_one lfu_used (lfu_get_inner k)" "uses_one lfu_used (lfu_insert_inner k v)"
  "uses_one lfu_used (lfu_remove_inner k)" "uses_one lfu_used (lfu_contains_inner k)"
  "uses_one lfu_used lfu_len_inner" "uses_one lfu_used lfu_clear_inner"
  using unat_tick_le
  by (auto simp: uses_one_def lfu_used_def lfu_get_inner_def lfu_insert_inner_def lfu_remove_inner_def
      lfu_contains_inner_def lfu_len_inner_def lfu_clear_inner_def tick_eq exec_apply Let_def
      split: option.splits prod.splits outcome.splits dest!: lfu_make_room_clock)

lemma clocks_step:
  assumes "uses_one lfu_used f" and "clocks_le n c"
  shows "clocks_le (Suc n) (snd (on_shards (with_shard H k f) c))"
    and "clocks_le (Suc n) (snd (on_shards (each_shard f) c))"
  using assms with_shard_used each_shard_used by (auto simp: clocks_le_def sharded_inner_snd)

definition lfu_perform :: "'k hashing \<Rightarrow> ('k, 'v) call \<Rightarrow> (('k, 'v) lfu_cache, unit) exec" where
  "lfu_perform H = perform (lfu_get H) (lfu_insert H) (lfu_remove H) (lfu_contains_key H) lfu_len lfu_clear"

lemmas lfu_methods = lfu_get_def lfu_insert_def lfu_remove_def lfu_contains_key_def lfu_len_def
  lfu_clear_def

lemma clocks_perform:
  assumes "clocks_le n c"
  shows "clocks_le (Suc n) (snd (lfu_perform H x c))"
proof -
  have after: "snd (seq_exec f (ret u) c) = snd (f c)" for f :: "(('a, 'b) lfu_cache, 'r) exec" and u :: 'x
    by (simp add: exec_apply split: prod.splits outcome.splits)
  have bind: "snd (bind_exec f (\<lambda>x. ret (g x)) c) = snd (f c)" for f :: "(('a, 'b) lfu_cache, 'r) exec" and g :: "'r \<Rightarrow> 'x"
    by (simp add: exec_apply split: prod.splits outcome.splits)
  show ?thesis
    using clocks_step [OF lfu_ticks(1) assms] clocks_step [OF lfu_ticks(2) assms]
      clocks_step [OF lfu_ticks(3) assms] clocks_step [OF lfu_ticks(4) assms]
      clocks_step [OF lfu_ticks(5) assms] clocks_step [OF lfu_ticks(6) assms]
    by (cases x) (simp_all add: lfu_perform_def lfu_methods after bind)
qed

lemma clocks_calls: "clocks_le n c \<Longrightarrow> clocks_le (n + length xs) (snd (run_calls (lfu_perform H) xs c))"
proof (induction xs arbitrary: n c)
  case (Cons x xs)
  show ?case
  proof (cases "lfu_perform H x c")
    case (Pair r c1)
    then have c1: "clocks_le (Suc n) c1" using clocks_perform [OF Cons.prems, of H x] by simp
    show ?thesis
    proof (cases r)
      case (Done u)
      then show ?thesis using Pair Cons.IH [OF c1] by (simp add: exec_apply)
    next
      case (Panicked p)
      then show ?thesis using Pair c1 by (auto simp: exec_apply clocks_le_def used_le_def)
    qed
  qed
qed simp

lemma clocks_ready: "clocks_le n c \<Longrightarrow> n < 2 ^ 64 - 1 \<Longrightarrow> cache_ready lfu_ready c"
  by (auto simp: clocks_le_def used_le_def lfu_used_def cache_ready_def shards_ready_def lfu_ready_def)

subsection \<open>The cache\<close>

abbreviation lfu_cache_inv :: "'k hashing \<Rightarrow> ('k, 'v) lfu_cache \<Rightarrow> bool" where
  "lfu_cache_inv \<equiv> cache_inv lfu_ok lfu_bound lfu_view"

abbreviation lfu_cache_view :: "'k hashing \<Rightarrow> ('k, 'v) lfu_cache \<Rightarrow> 'k \<Rightarrow> 'v option" where
  "lfu_cache_view \<equiv> cache_view lfu_view"

lemma lfu_new_shard:
  "lfu_bound (lfu_inner_with_capacity cap) = unat cap"
  "lfu_view (lfu_inner_with_capacity cap) = Map.empty"
  using lfu_ok_new(2) [of cap]
  by (simp_all add: lfu_bound_def lfu_view_def fun_eq_iff) (simp add: lfu_inner_with_capacity_def)

lemma lfu_new_inv:
  fixes H :: "'k hashing"
  assumes "cap \<noteq> 0"
  shows "lfu_cache_inv H (lfu_with_capacity cap :: ('k, 'v) lfu_cache)"
    and "lfu_cache_view H (lfu_with_capacity cap :: ('k, 'v) lfu_cache) = Map.empty"
    and "lfu_new cap = Inr (lfu_with_capacity cap :: ('k, 'v) lfu_cache)"
    and "total_capacity (lfu_with_capacity cap :: ('k, 'v) lfu_cache) = cap"
    and "clocks_le 0 (lfu_with_capacity cap :: ('k, 'v) lfu_cache)"
proof -
  have ok: "lfu_ok (lfu_inner_with_capacity (per_shard_capacity cap (shard_count cap)) :: ('k, 'v) lfu_inner)"
    by (rule lfu_ok_new) (rule per_shard_pos)
  show "lfu_cache_inv H (lfu_with_capacity cap :: ('k, 'v) lfu_cache)"
    and "lfu_cache_view H (lfu_with_capacity cap :: ('k, 'v) lfu_cache) = Map.empty"
    by (rule lfu_shard.cache_new [OF assms _ _ ok]; simp add: lfu_with_capacity_def Let_def lfu_new_shard)+
  show "lfu_new cap = Inr (lfu_with_capacity cap :: ('k, 'v) lfu_cache)"
    using assms by (simp add: lfu_new_def)
  show "total_capacity (lfu_with_capacity cap :: ('k, 'v) lfu_cache) = cap"
    by (simp add: lfu_with_capacity_def Let_def)
  show "clocks_le 0 (lfu_with_capacity cap :: ('k, 'v) lfu_cache)"
    by (auto simp: clocks_le_def used_le_def lfu_used_def lfu_with_capacity_def Let_def from_factory_def lfu_inner_with_capacity_def)
qed

lemma lfu_run_calls:
  assumes "lfu_cache_inv H c" and "clocks_le n c" and "n + length cs < 2 ^ 64 - 1"
    and "lfu_cache_view H c \<subseteq>\<^sub>m m"
  shows "runs_to (run_calls (lfu_perform H) cs) c (\<lambda>_ c'. lfu_cache_inv H c' \<and> same_config c c' \<and>
           lfu_cache_view H c' \<subseteq>\<^sub>m fold latest cs m)"
  unfolding lfu_perform_def lfu_methods
proof (rule lfu_shard.run_calls_law [OF assms(1,4)], fold lfu_methods, fold lfu_perform_def)
  fix ps qs c' assume "cs = ps @ qs" and run: "run_calls (lfu_perform H) ps c = (Done (), c')"
  then have "n + length ps < 2 ^ 64 - 1" using assms(3) by simp
  moreover have "clocks_le (n + length ps) c'"
    using clocks_calls [OF assms(2), of ps H] run by simp
  ultimately show "cache_ready lfu_ready c'" using clocks_ready by blast
qed

subsection \<open>Properties\<close>

text \<open>
  \<^bold>\<open>C3.\<close> A shard implements the LFU policy. Until the 64-bit clock has reached its last value, from
  any well-formed shard \<open>get\<close>, \<open>insert\<close> and \<open>remove\<close> return without panicking, count accesses exactly
  in unbounded arithmetic, and on overflow evict the entry with the fewest accesses since it was
  inserted, the least recently accessed one among those; the index and the map stay inverse to
  each other.
\<close>

theorem lfu_shard_refines_policy:
  assumes "lfu_ok s" and "lfu_ready s"
  shows "runs_to (lfu_get_inner k) s (\<lambda>r s'.
           (r, lfu_usage s') = lfu_spec_get (Suc (unat (clock s))) k (lfu_usage s) \<and>
           lfu_ok s' \<and> lfu_capacity s' = lfu_capacity s \<and> unat (clock s') = Suc (unat (clock s))) \<and>
         runs_to (lfu_insert_inner k v) s (\<lambda>r s'.
           lfu_spec_insert (Suc (unat (clock s))) (unat (lfu_capacity s)) k v (lfu_usage s) (r, lfu_usage s') \<and>
           lfu_ok s' \<and> lfu_capacity s' = lfu_capacity s \<and> unat (clock s') = Suc (unat (clock s))) \<and>
         runs_to (lfu_remove_inner k) s (\<lambda>r s'. r = map_option fst (lfu_usage s k) \<and>
           lfu_usage s' = (lfu_usage s)(k := None) \<and> lfu_ok s' \<and>
           lfu_capacity s' = lfu_capacity s \<and> clock s' = clock s)"
  using assms by (intro conjI lfu_get_refines lfu_insert_refines lfu_remove_refines)

text \<open>A shard of capacity 2 that has seen keys 1 and 2 inserted and key 1 read.\<close>

definition lfu_example :: "(nat, nat) lfu_inner" where
  "lfu_example = snd (lfu_get_inner 1 (snd (lfu_insert_inner 2 20 (snd (lfu_insert_inner 1 10
     (lfu_inner_with_capacity 2))))))"

lemma lfu_example_eq:
  "lfu_example = \<lparr>lfu_capacity = 2, lfu_map = [(1, \<lparr>entry_value = 10, entry_count = 2, entry_age = 3\<rparr>),
       (2, \<lparr>entry_value = 20, entry_count = 1, entry_age = 2\<rparr>)],
     by_priority = [((1, 2), 2), ((2, 3), 1)], clock = 3\<rparr>"
  by (simp add: lfu_example_def lfu_get_inner_def lfu_insert_inner_def lfu_make_room_def
      lfu_inner_with_capacity_def tick_eq exec_apply Let_def priority_def sat_add_def
      hm_get_def hm_insert_def hm_len_def hm_empty_def bt_empty_def)

lemma lfu_example_ok: "lfu_ok lfu_example" "lfu_ready lfu_example"
  by (simp_all add: lfu_example_eq lfu_ok_def lfu_linked_def lfu_ready_def hm_ok_def bt_ok_def
      index_entry_def priority_def hm_len_def hm_get_def)

theorem lfu_shard_refines_policy_witness:
  "runs_to (lfu_insert_inner 3 30) lfu_example (\<lambda>r s'. r = None \<and>
     lfu_usage s' = [1 \<mapsto> (10, 2, 3), 3 \<mapsto> (30, 1, 4)])"
proof -
  have usage: "lfu_usage lfu_example = [1 \<mapsto> (10, 2, 3), 2 \<mapsto> (20, 1, 2)]"
    by (simp add: fun_eq_iff lfu_usage_def lfu_example_eq hm_get_def)
  then have least: "least_used (lfu_usage lfu_example) 2"
    unfolding usage least_used_def by (auto split: if_splits)
  have "unat (clock lfu_example) = 3" "unat (lfu_capacity lfu_example) = 2" by (simp_all add: lfu_example_eq)
  then have "runs_to (lfu_insert_inner 3 30) lfu_example (\<lambda>r s'.
      lfu_spec_insert 4 2 3 30 (lfu_usage lfu_example) (r, lfu_usage s'))"
    using lfu_shard_refines_policy [OF lfu_example_ok, of 3 30] by (auto elim: runs_to_mono)
  moreover have "lfu_spec_insert 4 2 3 30 (lfu_usage lfu_example) (None, [1 \<mapsto> (10, 2, 3), 3 \<mapsto> (30, 1, 4)])"
    using least unfolding usage by (auto simp: lfu_spec_insert_def fun_eq_iff intro!: exI [of _ 2])
  ultimately show ?thesis
    by (auto elim!: runs_to_mono dest: lfu_spec_insert_determined)
qed

text \<open>
  \<^bold>\<open>C12.\<close> Any client of an \<open>LfuCache\<close>. For every non-zero capacity and every hasher the constructor
  returns a cache, and after any sequence of fewer than 2^64 - 1 trait calls nothing has panicked,
  \<open>len\<close> returns the number of keys present and never more than the capacity, and every value present
  is the one most recently inserted for its key and not removed since.
\<close>

theorem lfu_any_calls:
  fixes cs :: "('k, 'v) call list"
  assumes "cap \<noteq> 0" and "length cs < 2 ^ 64 - 1"
  shows "\<exists>c. lfu_new cap = Inr c \<and>
    runs_to (run_calls (lfu_perform H) cs) c (\<lambda>_ c'.
      lfu_cache_view H c' \<subseteq>\<^sub>m fold latest cs Map.empty \<and> lfu_capacity_of c' = cap \<and>
      runs_to lfu_len c' (\<lambda>n _. n = card (dom (lfu_cache_view H c')) \<and> n \<le> unat cap))"
proof -
  let ?c = "lfu_with_capacity cap :: ('k, 'v) lfu_cache"
  have new: "lfu_cache_inv H ?c" "lfu_cache_view H ?c = Map.empty" "lfu_new cap = Inr ?c"
      "total_capacity ?c = cap" "clocks_le 0 ?c"
    using assms(1) by (simp_all only: lfu_new_inv not_False_eq_True)
  have "runs_to (run_calls (lfu_perform H) cs) ?c (\<lambda>_ c'. lfu_cache_inv H c' \<and> same_config ?c c' \<and>
      lfu_cache_view H c' \<subseteq>\<^sub>m fold latest cs Map.empty)"
    using new assms(2) by (intro lfu_run_calls [where n = 0]) simp_all
  then have "runs_to (run_calls (lfu_perform H) cs) ?c (\<lambda>_ c'.
      lfu_cache_view H c' \<subseteq>\<^sub>m fold latest cs Map.empty \<and> lfu_capacity_of c' = cap \<and>
      runs_to lfu_len c' (\<lambda>n _. n = card (dom (lfu_cache_view H c')) \<and> n \<le> unat cap))"
  proof (rule runs_to_mono)
    fix u c' assume *: "lfu_cache_inv H c' \<and> same_config ?c c' \<and>
      lfu_cache_view H c' \<subseteq>\<^sub>m fold latest cs Map.empty"
    then have "total_capacity c' = cap" using new(4) same_config_capacity by metis
    with * show "lfu_cache_view H c' \<subseteq>\<^sub>m fold latest cs Map.empty \<and> lfu_capacity_of c' = cap \<and>
      runs_to lfu_len c' (\<lambda>n _. n = card (dom (lfu_cache_view H c')) \<and> n \<le> unat cap)"
      using lfu_shard.cache_len [of H c']
      by (auto simp: lfu_len_def lfu_capacity_of_def elim: runs_to_mono)
  qed
  with new(3) show ?thesis by blast
qed

theorem lfu_any_calls_witness:
  "\<exists>c. lfu_new 64 = Inr c \<and>
    runs_to (run_calls (lfu_perform sample_hashing) [Call_insert 1 (10 :: nat), Call_insert 2 20, Call_remove 1]) c
      (\<lambda>_ c'. lfu_cache_view sample_hashing c' \<subseteq>\<^sub>m [2 \<mapsto> 20])"
proof -
  have "fold latest [Call_insert (1 :: nat) (10 :: nat), Call_insert 2 20, Call_remove 1] Map.empty = [2 \<mapsto> 20]"
    by (simp add: fun_eq_iff)
  then show ?thesis
    using lfu_any_calls [of 64 "[Call_insert 1 (10 :: nat), Call_insert 2 20, Call_remove 1]" sample_hashing]
    by (auto elim: runs_to_mono)
qed

end
