(* ===== verification/Ttl.thy ===== *)
theory Ttl
  imports Hash_Map Cache_Contract
begin

section \<open>TtlCache: the model\<close>

text \<open>
  \<open>src/ttl.rs\<close>. Instants and durations are natural numbers of nanoseconds, and a reading of
  \<open>Instant::now()\<close> is an argument of the operation that takes it: \<open>insert\<close> takes two (the deadline
  is computed before the lock is taken, expiry is tested under it), \<open>len\<close> one per shard. What the
  code relies on and does not define is the record \<open>ttl_env\<close>: the largest representable instant,
  at which \<open>checked_add\<close> gives up, and the order in which \<open>HashMap::iter\<close> visits the bindings.
\<close>

record 'v ttl_entry =
  ttl_value :: 'v
  expires_at :: nat

record ('k, 'v) ttl_inner =
  ttl_capacity :: usize
  ttl_map :: "('k, 'v ttl_entry) hash_map"

record ('k, 'v) ttl_cache = "('k, 'v) ttl_inner cache" +
  default_ttl :: nat

record ('k, 'v) ttl_env =
  instant_max :: nat
  visit :: "('k, 'v ttl_entry) hash_map \<Rightarrow> ('k \<times> 'v ttl_entry) list"

text \<open>What is documented of \<open>HashMap::iter\<close>: every binding once, in any order.\<close>

definition visits_all :: "('k, 'v) ttl_env \<Rightarrow> bool" where
  "visits_all E \<longleftrightarrow> (\<forall>m. mset (visit E m) = mset m)"

definition ttl_inner_with_capacity :: "usize \<Rightarrow> ('k, 'v) ttl_inner" where
  "ttl_inner_with_capacity cap = \<lparr>ttl_capacity = cap, ttl_map = hm_empty\<rparr>"

subsection \<open>Deadlines, victims, purging\<close>

definition FAR_FUTURE :: nat where
  "FAR_FUTURE = 60 * 60 * 24 * 365 * 100 * 10 ^ 9"

definition checked_add :: "('k, 'v) ttl_env \<Rightarrow> nat \<Rightarrow> nat \<Rightarrow> nat option" where
  "checked_add E now d = (if now + d \<le> instant_max E then Some (now + d) else None)"

definition compute_deadline :: "('k, 'v) ttl_env \<Rightarrow> nat \<Rightarrow> nat \<Rightarrow> nat" where
  "compute_deadline E now ttl =
     (case checked_add E now ttl of
        Some t \<Rightarrow> t
      | None \<Rightarrow> (case checked_add E now FAR_FUTURE of Some t \<Rightarrow> t | None \<Rightarrow> now))"

text \<open>\<open>Iterator::min_by_key\<close>: the first of the elements with the least key.\<close>

fun min_by_key :: "('a \<Rightarrow> nat) \<Rightarrow> 'a list \<Rightarrow> 'a option" where
  "min_by_key f [] = None"
| "min_by_key f (x # xs) =
     (case min_by_key f xs of None \<Rightarrow> Some x | Some y \<Rightarrow> if f y < f x then Some y else Some x)"

definition find_victim :: "('k, 'v) ttl_env \<Rightarrow> ('k, 'v ttl_entry) hash_map \<Rightarrow> 'k option" where
  "find_victim E m = map_option fst (min_by_key (\<lambda>(_, e). expires_at e) (visit E m))"

definition purge_expired :: "nat \<Rightarrow> ('k, 'v ttl_entry) hash_map \<Rightarrow> ('k, 'v ttl_entry) hash_map" where
  "purge_expired now m = filter (\<lambda>(_, e). now < expires_at e) m"

subsection \<open>The bodies of the methods, under the lock\<close>

definition ttl_get_inner :: "nat \<Rightarrow> 'k \<Rightarrow> (('k, 'v) ttl_inner, 'v option) exec" where
  "ttl_get_inner now key =
     bind_exec (gets (\<lambda>s. map_option expires_at (hm_get (ttl_map s) key))) (\<lambda>found. case found of
       None \<Rightarrow> ret None
     | Some expiry \<Rightarrow>
         if expiry \<le> now
         then seq_exec (modify (\<lambda>s. s\<lparr>ttl_map := hm_remove key (ttl_map s)\<rparr>)) (ret None)
         else gets (\<lambda>s. map_option ttl_value (hm_get (ttl_map s) key)))"

text \<open>\<open>insert_inner\<close> after the branch that replaces a live entry.\<close>

definition ttl_insert_fresh ::
  "('k, 'v) ttl_env \<Rightarrow> 'k \<Rightarrow> 'v \<Rightarrow> nat \<Rightarrow> (('k, 'v) ttl_inner, 'v option) exec" where
  "ttl_insert_fresh E key value deadline =
     seq_exec (modify (\<lambda>s. s\<lparr>ttl_map := hm_remove key (ttl_map s)\<rparr>))
     (seq_exec
        (bind_exec (gets (\<lambda>s. unat (ttl_capacity s) \<le> hm_len (ttl_map s))) (\<lambda>full.
           if full then
             bind_exec (gets (\<lambda>s. find_victim E (ttl_map s))) (\<lambda>v. case v of
               Some victim \<Rightarrow> modify (\<lambda>s. s\<lparr>ttl_map := hm_remove victim (ttl_map s)\<rparr>)
             | None \<Rightarrow> ret ())
           else ret ()))
     (seq_exec (modify (\<lambda>s. s\<lparr>ttl_map :=
         hm_insert key \<lparr>ttl_value = value, expires_at = deadline\<rparr> (ttl_map s)\<rparr>))
     (ret None)))"

definition ttl_insert_inner ::
  "('k, 'v) ttl_env \<Rightarrow> nat \<Rightarrow> 'k \<Rightarrow> 'v \<Rightarrow> nat \<Rightarrow> (('k, 'v) ttl_inner, 'v option) exec" where
  "ttl_insert_inner E now key value deadline =
     bind_exec (gets (\<lambda>s. hm_get (ttl_map s) key)) (\<lambda>found. case found of
       Some existing \<Rightarrow>
         if now < expires_at existing
         then seq_exec (modify (\<lambda>s. s\<lparr>ttl_map :=
                hm_insert key (existing\<lparr>ttl_value := value, expires_at := deadline\<rparr>) (ttl_map s)\<rparr>))
              (ret (Some (ttl_value existing)))
         else ttl_insert_fresh E key value deadline
     | None \<Rightarrow> ttl_insert_fresh E key value deadline)"

definition ttl_remove_inner :: "'k \<Rightarrow> (('k, 'v) ttl_inner, 'v option) exec" where
  "ttl_remove_inner key =
     bind_exec (gets (\<lambda>s. hm_get (ttl_map s) key)) (\<lambda>found.
       seq_exec (modify (\<lambda>s. s\<lparr>ttl_map := hm_remove key (ttl_map s)\<rparr>))
       (ret (map_option ttl_value found)))"

definition ttl_contains_inner :: "nat \<Rightarrow> 'k \<Rightarrow> (('k, 'v) ttl_inner, bool) exec" where
  "ttl_contains_inner now key =
     bind_exec (gets (\<lambda>s. map_option expires_at (hm_get (ttl_map s) key))) (\<lambda>found. case found of
       None \<Rightarrow> ret False
     | Some expiry \<Rightarrow>
         if now < expiry then ret True
         else seq_exec (modify (\<lambda>s. s\<lparr>ttl_map := hm_remove key (ttl_map s)\<rparr>)) (ret False))"

definition ttl_len_inner :: "nat \<Rightarrow> (('k, 'v) ttl_inner, nat) exec" where
  "ttl_len_inner now =
     seq_exec (modify (\<lambda>s. s\<lparr>ttl_map := purge_expired now (ttl_map s)\<rparr>))
     (gets (\<lambda>s. hm_len (ttl_map s)))"

definition ttl_clear_inner :: "(('k, 'v) ttl_inner, unit) exec" where
  "ttl_clear_inner = modify (\<lambda>s. s\<lparr>ttl_map := hm_empty\<rparr>)"

subsection \<open>The cache\<close>

definition ttl_with_capacity :: "usize \<Rightarrow> nat \<Rightarrow> ('k, 'v) ttl_cache" where
  "ttl_with_capacity capacity ttl =
     (let num_shards = shard_count capacity;
          per_shard = per_shard_capacity capacity num_shards
      in \<lparr>total_capacity = capacity,
          sharded_inner = from_factory num_shards (\<lambda>_. ttl_inner_with_capacity per_shard),
          default_ttl = ttl\<rparr>)"

definition ttl_new :: "usize \<Rightarrow> nat \<Rightarrow> cache_error + ('k, 'v) ttl_cache" where
  "ttl_new capacity ttl =
     (case ok_or (nonzero_new capacity) InvalidCapacity of
        Inl e \<Rightarrow> Inl e
      | Inr cap \<Rightarrow> Inr (ttl_with_capacity cap ttl))"

definition ttl_get :: "'k hashing \<Rightarrow> nat \<Rightarrow> 'k \<Rightarrow> (('k, 'v) ttl_cache, 'v option) exec" where
  "ttl_get H now key = on_shards (with_shard H key (ttl_get_inner now key))"

text \<open>The readings of an insert: \<open>asked\<close> for the deadline, then \<open>now\<close> under the lock.\<close>

definition ttl_insert_with_ttl ::
  "'k hashing \<Rightarrow> ('k, 'v) ttl_env \<Rightarrow> nat \<Rightarrow> nat \<Rightarrow> 'k \<Rightarrow> 'v \<Rightarrow> nat \<Rightarrow> (('k, 'v) ttl_cache, 'v option) exec" where
  "ttl_insert_with_ttl H E asked now key value ttl =
     (let deadline = compute_deadline E asked ttl
      in on_shards (with_shard H key (ttl_insert_inner E now key value deadline)))"

definition ttl_insert ::
  "'k hashing \<Rightarrow> ('k, 'v) ttl_env \<Rightarrow> nat \<Rightarrow> nat \<Rightarrow> 'k \<Rightarrow> 'v \<Rightarrow> (('k, 'v) ttl_cache, 'v option) exec" where
  "ttl_insert H E asked now key value c =
     (let deadline = compute_deadline E asked (default_ttl c)
      in on_shards (with_shard H key (ttl_insert_inner E now key value deadline)) c)"

definition ttl_remove :: "'k hashing \<Rightarrow> 'k \<Rightarrow> (('k, 'v) ttl_cache, 'v option) exec" where
  "ttl_remove H key = on_shards (with_shard H key (ttl_remove_inner key))"

definition ttl_contains_key :: "'k hashing \<Rightarrow> nat \<Rightarrow> 'k \<Rightarrow> (('k, 'v) ttl_cache, bool) exec" where
  "ttl_contains_key H now key = on_shards (with_shard H key (ttl_contains_inner now key))"

text \<open>The loop of \<open>len\<close>; shard \<open>i\<close> is purged at the reading \<open>now i\<close>.\<close>

fun ttl_len_from :: "(nat \<Rightarrow> nat) \<Rightarrow> nat \<Rightarrow> ('k, 'v) ttl_inner mutex list \<Rightarrow>
    nat outcome \<times> ('k, 'v) ttl_inner mutex list" where
  "ttl_len_from now i [] = (Done 0, [])"
| "ttl_len_from now i (m # ms) =
     (case locked (ttl_len_inner (now i)) m of
        (Panicked p, m') \<Rightarrow> (Panicked p, m' # ms)
      | (Done n, m') \<Rightarrow>
          (case ttl_len_from now (Suc i) ms of
             (Panicked p, ms') \<Rightarrow> (Panicked p, m' # ms')
           | (Done rest, ms') \<Rightarrow> (Done (n + rest), m' # ms')))"

definition ttl_len :: "(nat \<Rightarrow> nat) \<Rightarrow> (('k, 'v) ttl_cache, nat) exec" where
  "ttl_len now = on_shards (\<lambda>sh. case ttl_len_from now 0 (shards sh) of (r, ms) \<Rightarrow> (r, sh\<lparr>shards := ms\<rparr>))"

definition ttl_clear :: "(('k, 'v) ttl_cache, unit) exec" where
  "ttl_clear = bind_exec (on_shards (each_shard ttl_clear_inner)) (\<lambda>_. ret ())"

definition ttl_capacity_of :: "('k, 'v) ttl_cache \<Rightarrow> usize" where
  "ttl_capacity_of c = total_capacity c"

definition ttl_is_empty :: "(nat \<Rightarrow> nat) \<Rightarrow> (('k, 'v) ttl_cache, bool) exec" where
  "ttl_is_empty now = is_empty_of (ttl_len now)"

end
