(* ===== verification/Ttl_Policy.thy ===== *)
theory Ttl_Policy
  imports Ttl
begin

section \<open>TtlCache: the policy and the contract\<close>

text \<open>
  The abstract view of a shard maps each key to its value and deadline; what a client sees at an
  instant is the part whose deadlines lie ahead (\<open>live\<close>). The methods implement the policy on this
  view for every reading of the clock and every order in which the hash map may be visited.
\<close>

type_synonym ('k, 'v) timed = "'k \<rightharpoonup> 'v \<times> nat"

definition live :: "nat \<Rightarrow> ('k, 'v) timed \<Rightarrow> 'k \<rightharpoonup> 'v" where
  "live now M k = (case M k of None \<Rightarrow> None | Some (v, d) \<Rightarrow> if now < d then Some v else None)"

definition ttl_stored :: "('k, 'v) ttl_inner \<Rightarrow> ('k, 'v) timed" where
  "ttl_stored s k = map_option (\<lambda>e. (ttl_value e, expires_at e)) (hm_get (ttl_map s) k)"

definition soonest :: "('k, 'v) timed \<Rightarrow> 'k \<Rightarrow> bool" where
  "soonest M j \<longleftrightarrow> (\<exists>v d. M j = Some (v, d) \<and> (\<forall>k v' d'. M k = Some (v', d') \<longrightarrow> d \<le> d'))"

definition ttl_spec_get :: "nat \<Rightarrow> 'k \<Rightarrow> ('k, 'v) timed \<Rightarrow> 'v option \<times> ('k, 'v) timed" where
  "ttl_spec_get now k M = (live now M k, if live now M k = None then M(k := None) else M)"

definition ttl_spec_insert ::
  "nat \<Rightarrow> nat \<Rightarrow> 'k \<Rightarrow> 'v \<Rightarrow> nat \<Rightarrow> ('k, 'v) timed \<Rightarrow> 'v option \<times> ('k, 'v) timed \<Rightarrow> bool" where
  "ttl_spec_insert now cap k v d M result \<longleftrightarrow> (case live now M k of
      Some old \<Rightarrow> result = (Some old, M(k \<mapsto> (v, d)))
    | None \<Rightarrow>
        if card (dom (M(k := None))) < cap then result = (None, M(k \<mapsto> (v, d)))
        else \<exists>victim. soonest (M(k := None)) victim \<and> result = (None, (M(victim := None))(k \<mapsto> (v, d))))"

definition ttl_ok :: "('k, 'v) ttl_inner \<Rightarrow> bool" where
  "ttl_ok s \<longleftrightarrow> hm_ok (ttl_map s) \<and> 0 < unat (ttl_capacity s) \<and> hm_len (ttl_map s) \<le> unat (ttl_capacity s)"

lemma live_upd [simp]:
  "live now (M(k := None)) = (live now M)(k := None)"
  "live now (M(k \<mapsto> (v, d))) = (live now M)(k := if now < d then Some v else None)"
  by (auto simp: live_def fun_eq_iff)

lemma live_Some: "live now M k = Some v \<longleftrightarrow> (\<exists>d. M k = Some (v, d) \<and> now < d)"
  by (auto simp: live_def split: option.splits)

lemma live_absent: "live now M k = None \<Longrightarrow> (live now M)(k := None) = live now M"
  by (simp add: fun_upd_idem)

lemma live_mono: "M \<subseteq>\<^sub>m N \<Longrightarrow> live now M \<subseteq>\<^sub>m live now N"
  by (auto simp: map_le_def live_def dom_def split: option.splits if_splits; metis)

lemma finite_live: "finite (dom M) \<Longrightarrow> finite (dom (live now M))"
  by (rule finite_subset [of _ "dom M"]) (auto simp: live_def split: option.splits)

lemma ttl_stored_get: "ttl_stored s k = None \<longleftrightarrow> hm_get (ttl_map s) k = None"
  by (simp add: ttl_stored_def)

lemma dom_ttl_stored: "dom (ttl_stored s) = dom (hm_get (ttl_map s))"
  by (auto simp: ttl_stored_def dom_def)

lemma ttl_len_card: "ttl_ok s \<Longrightarrow> hm_len (ttl_map s) = card (dom (ttl_stored s))"
  by (simp add: ttl_ok_def dom_ttl_stored hm_len_eq_card)

text \<open>Removing and inserting a binding.\<close>

lemma ttl_drop:
  assumes "ttl_ok s"
  shows "ttl_ok (s\<lparr>ttl_map := hm_remove k (ttl_map s)\<rparr>)"
    and "ttl_stored (s\<lparr>ttl_map := hm_remove k (ttl_map s)\<rparr>) = (ttl_stored s)(k := None)"
  using assms hm.len_remove_le [of "ttl_map s" k] hm.ok_remove [of "ttl_map s" k]
  by (auto simp: ttl_ok_def ttl_stored_def hm_get_remove fun_eq_iff)

lemma ttl_put:
  assumes "ttl_ok s" and "hm_get (ttl_map s) k \<noteq> None \<or> hm_len (ttl_map s) < unat (ttl_capacity s)"
  shows "ttl_ok (s\<lparr>ttl_map := hm_insert k e (ttl_map s)\<rparr>)"
    and "ttl_stored (s\<lparr>ttl_map := hm_insert k e (ttl_map s)\<rparr>) = (ttl_stored s)(k \<mapsto> (ttl_value e, expires_at e))"
proof -
  let ?s = "s\<lparr>ttl_map := hm_insert k e (ttl_map s)\<rparr>"
  show stored: "ttl_stored ?s = (ttl_stored s)(k \<mapsto> (ttl_value e, expires_at e))"
    by (simp add: ttl_stored_def fun_eq_iff hm_get_insert)
  have ok: "hm_ok (ttl_map s)" using assms(1) by (simp add: ttl_ok_def)
  have "finite (dom (ttl_stored s))" by (simp add: dom_ttl_stored finite_dom_hm_get)
  then have "card (dom (ttl_stored ?s)) = (if hm_get (ttl_map s) k = None then Suc (hm_len (ttl_map s)) else hm_len (ttl_map s))"
    using assms(1) by (simp add: stored card_insert_if ttl_len_card ttl_stored_get domIff)
  moreover have "hm_len (ttl_map ?s) = card (dom (ttl_stored ?s))"
    using hm_len_eq_card [OF hm.ok_insert [OF ok, of k e]] dom_ttl_stored [of ?s] by simp
  ultimately show "ttl_ok ?s"
    using assms hm.ok_insert [OF ok, of k e] by (auto simp: ttl_ok_def split: if_splits)
qed

text \<open>The victim: a binding with the soonest deadline.\<close>

lemma min_by_key_None: "min_by_key f xs = None \<longleftrightarrow> xs = []"
  by (cases xs) (auto split: option.splits)

lemma min_by_key_Some: "min_by_key f xs = Some x \<Longrightarrow> x \<in> set xs \<and> (\<forall>y \<in> set xs. f x \<le> f y)"
  by (induction xs arbitrary: x) (auto simp: min_by_key_None split: option.splits if_splits)

lemma find_victim_soonest:
  assumes all: "visits_all E" and ok: "ttl_ok s" and ne: "ttl_map s \<noteq> []"
  obtains j where "find_victim E (ttl_map s) = Some j" and "soonest (ttl_stored s) j"
proof -
  have set: "set (visit E (ttl_map s)) = set (ttl_map s)" and "visit E (ttl_map s) \<noteq> []"
    using all ne mset_eq_set [of "visit E (ttl_map s)" "ttl_map s"] by (auto simp: visits_all_def)
  then have "min_by_key (\<lambda>(_, e). expires_at e) (visit E (ttl_map s)) \<noteq> None"
    by (simp add: min_by_key_None)
  then obtain b where b: "min_by_key (\<lambda>(_, e). expires_at e) (visit E (ttl_map s)) = Some b"
    by blast
  note least = min_by_key_Some [OF b, unfolded set]
  have hm: "hm_get (ttl_map s) k = Some e \<longleftrightarrow> (k, e) \<in> set (ttl_map s)" for k e
    using ok hm.get_entry [of "ttl_map s" k e] by (simp add: ttl_ok_def)
  have "hm_get (ttl_map s) (fst b) = Some (snd b)" using least hm by simp
  moreover have "expires_at (snd b) \<le> expires_at e" if "hm_get (ttl_map s) k = Some e" for k e
    using least that by (cases b) (force simp: hm)
  ultimately have "soonest (ttl_stored s) (fst b)"
    by (auto simp: soonest_def ttl_stored_def)
  with that b show ?thesis by (simp add: find_victim_def)
qed

subsection \<open>The methods against the policy\<close>

lemma ttl_get_refines:
  assumes ok: "ttl_ok s"
  shows "runs_to (ttl_get_inner now k) s (\<lambda>r s'. (r, ttl_stored s') = ttl_spec_get now k (ttl_stored s) \<and>
           ttl_ok s' \<and> ttl_capacity s' = ttl_capacity s)"
proof (cases "hm_get (ttl_map s) k")
  case None
  then have "ttl_get_inner now k s = (Done None, s)" by (simp add: ttl_get_inner_def)
  with None ok show ?thesis
    by (auto simp: runs_to_def ttl_spec_get_def live_def ttl_stored_def fun_eq_iff)
next
  case (Some e)
  show ?thesis
  proof (cases "expires_at e \<le> now")
    case True
    have "ttl_get_inner now k s = (Done None, s\<lparr>ttl_map := hm_remove k (ttl_map s)\<rparr>)"
      using Some True by (simp add: ttl_get_inner_def)
    moreover have "live now (ttl_stored s) k = None"
      using Some True by (simp add: live_def ttl_stored_def)
    ultimately show ?thesis
      using ttl_drop [OF ok, of k] by (simp add: runs_to_def ttl_spec_get_def)
  next
    case False
    have "ttl_get_inner now k s = (Done (Some (ttl_value e)), s)"
      using Some False by (simp add: ttl_get_inner_def)
    moreover have "live now (ttl_stored s) k = Some (ttl_value e)"
      using Some False by (simp add: live_def ttl_stored_def)
    ultimately show ?thesis using ok by (simp add: runs_to_def ttl_spec_get_def)
  qed
qed

lemma ttl_insert_fresh_refines:
  assumes ok: "ttl_ok s" and all: "visits_all E" and dead: "live now (ttl_stored s) k = None"
  shows "runs_to (ttl_insert_fresh E k v d) s (\<lambda>r s'.
           ttl_spec_insert now (unat (ttl_capacity s)) k v d (ttl_stored s) (r, ttl_stored s') \<and>
           ttl_ok s' \<and> ttl_capacity s' = ttl_capacity s)"
proof -
  let ?s = "s\<lparr>ttl_map := hm_remove k (ttl_map s)\<rparr>"
  let ?e = "\<lparr>ttl_value = v, expires_at = d\<rparr>"
  note drop = ttl_drop [OF ok, of k]
  have len: "hm_len (hm_remove k (ttl_map s)) = card (dom ((ttl_stored s)(k := None)))"
    using ttl_len_card [OF drop(1)] drop(2) by simp
  show ?thesis
  proof (cases "unat (ttl_capacity s) \<le> hm_len (hm_remove k (ttl_map s))")
    case False
    let ?t = "?s\<lparr>ttl_map := hm_insert k ?e (ttl_map ?s)\<rparr>"
    have run: "ttl_insert_fresh E k v d s = (Done None, ?t)"
      using False by (simp add: ttl_insert_fresh_def exec_apply)
    have "hm_len (ttl_map ?s) < unat (ttl_capacity ?s)" using False by simp
    then have "ttl_ok ?t" "ttl_stored ?t = (ttl_stored s)(k \<mapsto> (v, d))"
      using ttl_put [OF drop(1)] drop(2) by simp_all
    then show ?thesis
      using False dead len unfolding runs_to_def run by (simp add: ttl_spec_insert_def)
  next
    case True
    have "ttl_map ?s \<noteq> []" using True ok by (auto simp: ttl_ok_def hm_len_def)
    with all drop(1) obtain j where j: "find_victim E (ttl_map ?s) = Some j" "soonest (ttl_stored ?s) j"
      by (rule find_victim_soonest)
    let ?r = "?s\<lparr>ttl_map := hm_remove j (ttl_map ?s)\<rparr>"
    let ?t = "?r\<lparr>ttl_map := hm_insert k ?e (ttl_map ?r)\<rparr>"
    have run: "ttl_insert_fresh E k v d s = (Done None, ?t)"
      using True j(1) by (simp add: ttl_insert_fresh_def exec_apply)
    note dropj = ttl_drop [OF drop(1), of j]
    have jk: "j \<noteq> k" "ttl_stored s j \<noteq> None" using j(2) by (auto simp: soonest_def drop(2) split: if_splits)
    have "card (dom (ttl_stored ?r)) < card (dom (ttl_stored ?s))"
    proof (rule psubset_card_mono)
      show "finite (dom (ttl_stored ?s))" unfolding dom_ttl_stored by (rule finite_dom_hm_get)
      show "dom (ttl_stored ?r) \<subset> dom (ttl_stored ?s)" using jk unfolding dropj(2) drop(2) by auto
    qed
    then have "hm_len (ttl_map ?r) < unat (ttl_capacity ?r)"
      using ttl_len_card [OF dropj(1)] ttl_len_card [OF drop(1)] drop(1) by (simp add: ttl_ok_def)
    then have "ttl_ok ?t" "ttl_stored ?t = ((ttl_stored s)(j := None))(k \<mapsto> (v, d))"
      using ttl_put [OF dropj(1)] dropj(2) drop(2) jk(1) by (simp_all add: fun_upd_twist)
    then show ?thesis
      using True dead len j(2) drop(2) unfolding runs_to_def run by (auto simp: ttl_spec_insert_def)
  qed
qed

lemma ttl_insert_refines:
  assumes ok: "ttl_ok s" and all: "visits_all E"
  shows "runs_to (ttl_insert_inner E now k v d) s (\<lambda>r s'.
           ttl_spec_insert now (unat (ttl_capacity s)) k v d (ttl_stored s) (r, ttl_stored s') \<and>
           ttl_ok s' \<and> ttl_capacity s' = ttl_capacity s)"
proof (cases "live now (ttl_stored s) k")
  case None
  then have "ttl_insert_inner E now k v d s = ttl_insert_fresh E k v d s"
    by (auto simp: ttl_insert_inner_def live_def ttl_stored_def split: option.splits if_splits)
  with ttl_insert_fresh_refines [OF ok all None] show ?thesis by (simp add: runs_to_def)
next
  case (Some old)
  then obtain e where e: "hm_get (ttl_map s) k = Some e" "now < expires_at e" "old = ttl_value e"
    by (auto simp: live_Some ttl_stored_def)
  let ?s = "s\<lparr>ttl_map := hm_insert k (e\<lparr>ttl_value := v, expires_at := d\<rparr>) (ttl_map s)\<rparr>"
  have run: "ttl_insert_inner E now k v d s = (Done (Some old), ?s)"
    using e by (simp add: ttl_insert_inner_def)
  have "ttl_ok ?s" "ttl_stored ?s = (ttl_stored s)(k \<mapsto> (v, d))"
    using ttl_put [OF ok, of k] e(1) by simp_all
  then show ?thesis
    unfolding runs_to_def run using Some by (simp add: ttl_spec_insert_def)
qed

lemma ttl_remove_refines:
  assumes "ttl_ok s"
  shows "runs_to (ttl_remove_inner k) s (\<lambda>r s'. r = map_option fst (ttl_stored s k) \<and>
           ttl_stored s' = (ttl_stored s)(k := None) \<and> ttl_ok s' \<and> ttl_capacity s' = ttl_capacity s)"
  using ttl_drop [OF assms, of k]
  by (cases "hm_get (ttl_map s) k") (simp_all add: runs_to_def ttl_remove_inner_def ttl_stored_def)

lemma ttl_contains_refines:
  assumes ok: "ttl_ok s"
  shows "runs_to (ttl_contains_inner now k) s (\<lambda>r s'. r = (live now (ttl_stored s) k \<noteq> None) \<and>
           ttl_stored s' = snd (ttl_spec_get now k (ttl_stored s)) \<and> ttl_ok s' \<and> ttl_capacity s' = ttl_capacity s)"
  using ok ttl_drop [OF ok, of k]
  by (cases "hm_get (ttl_map s) k")
    (auto simp: runs_to_def ttl_contains_inner_def ttl_spec_get_def live_def ttl_stored_def fun_eq_iff)

lemma ttl_len_refines:
  assumes ok: "ttl_ok s"
  shows "runs_to (ttl_len_inner now) s (\<lambda>n s'. n = card (dom (live now (ttl_stored s))) \<and>
           (\<forall>k. ttl_stored s' k = (if live now (ttl_stored s) k = None then None else ttl_stored s k)) \<and>
           ttl_ok s' \<and> ttl_capacity s' = ttl_capacity s)"
proof -
  let ?m = "purge_expired now (ttl_map s)"
  let ?s = "s\<lparr>ttl_map := ?m\<rparr>"
  have hm: "hm_ok (ttl_map s)" using ok by (simp add: ttl_ok_def)
  then have hm': "hm_ok ?m" by (simp add: hm_ok_def purge_expired_def distinct_map_filter)
  have get: "hm_get ?m k = Some e \<longleftrightarrow> hm_get (ttl_map s) k = Some e \<and> now < expires_at e" for k e
    using hm.get_entry [OF hm] hm.get_entry [OF hm'] by (auto simp: purge_expired_def)
  have stored: "ttl_stored ?s k = (if live now (ttl_stored s) k = None then None else ttl_stored s k)" for k
  proof (cases "hm_get (ttl_map s) k")
    case None
    then have "hm_get ?m k = None" using get [of k] by (metis not_None_eq)
    with None show ?thesis by (simp add: ttl_stored_def)
  next
    case (Some e)
    then have "hm_get ?m k = (if now < expires_at e then Some e else None)"
      using get [of k] by (metis not_None_eq option.inject)
    with Some show ?thesis by (simp add: ttl_stored_def live_def)
  qed
  have "dom (ttl_stored ?s) = dom (live now (ttl_stored s))"
    by (auto simp: stored live_Some split: if_splits)
  moreover have "hm_len ?m \<le> hm_len (ttl_map s)" by (simp add: hm_len_def purge_expired_def)
  then have ok': "ttl_ok ?s" using ok hm' by (simp add: ttl_ok_def)
  ultimately have "hm_len ?m = card (dom (live now (ttl_stored s)))"
    using ttl_len_card [OF ok'] by simp
  then show ?thesis
    using stored ok' by (simp add: runs_to_def ttl_len_inner_def exec_apply)
qed

end
