(* ===== verification/Ttl_Cache.thy ===== *)
theory Ttl_Cache
  imports Ttl_Policy
begin

section \<open>TtlCache: the contract and the properties of the cache\<close>

text \<open>
  The cache is described by what it stores, values with deadlines; what a client sees follows for
  every reading of the clock. \<open>ttl_cache_inv\<close> is the invariant of the sharded cache over this
  content. At any one instant a shard meets \<open>storing_contract\<close>, with a deadline still ahead as its
  readiness.
\<close>

definition ttl_bound :: "('k, 'v) ttl_inner \<Rightarrow> nat" where
  "ttl_bound s = unat (ttl_capacity s)"

definition ttl_view :: "nat \<Rightarrow> ('k, 'v) ttl_inner \<Rightarrow> 'k \<Rightarrow> 'v option" where
  "ttl_view now s = live now (ttl_stored s)"

abbreviation ttl_cache_inv :: "'k hashing \<Rightarrow> ('k, 'v) ttl_cache \<Rightarrow> bool" where
  "ttl_cache_inv \<equiv> cache_inv ttl_ok ttl_bound ttl_stored"

abbreviation ttl_content :: "'k hashing \<Rightarrow> ('k, 'v) ttl_cache \<Rightarrow> ('k, 'v) timed" where
  "ttl_content \<equiv> cache_view ttl_stored"

lemma live_stored_le: "ttl_ok s \<Longrightarrow> card (dom (live now (ttl_stored s))) \<le> ttl_bound s"
proof -
  assume ok: "ttl_ok s"
  have "card (dom (live now (ttl_stored s))) \<le> card (dom (ttl_stored s))"
  proof (rule card_mono)
    show "finite (dom (ttl_stored s))" unfolding dom_ttl_stored by (rule finite_dom_hm_get)
    show "dom (live now (ttl_stored s)) \<subseteq> dom (ttl_stored s)" by (auto simp: live_Some)
  qed
  then show ?thesis using ok ttl_len_card [OF ok] by (simp add: ttl_ok_def ttl_bound_def)
qed

lemma ttl_spec_insert_view:
  assumes "ttl_spec_insert now cap k v d M (r, M')"
  shows "r = live now M k" and "M' k = Some (v, d)" and "j \<noteq> k \<Longrightarrow> M' j = M j \<or> M' j = None"
  using assms by (auto simp: ttl_spec_insert_def split: option.splits if_splits)

lemma live_cong: "M j = N j \<Longrightarrow> live now M j = live now N j"
  by (simp add: live_def)

lemma live_None: "M j = None \<Longrightarrow> live now M j = None"
  by (simp add: live_def)

interpretation ttl_shard: storing_contract ttl_ok "\<lambda>_. visits_all E \<and> now < deadline" ttl_bound "ttl_view now"
  "ttl_get_inner now" "\<lambda>k v. ttl_insert_inner E now k v deadline" ttl_remove_inner
  "ttl_contains_inner now" "ttl_len_inner now" ttl_clear_inner
  for E :: "('k, 'v) ttl_env" and now deadline :: nat
proof unfold_locales
  fix s :: "('k, 'v) ttl_inner" and k :: 'k and v :: 'v
  assume ok: "ttl_ok s"
  show "runs_to (ttl_remove_inner k) s (\<lambda>r s'. (\<forall>v. ttl_view now s k = Some v \<longrightarrow> r = Some v) \<and>
      ttl_ok s' \<and> ttl_bound s' = ttl_bound s \<and> ttl_view now s' = (ttl_view now s)(k := None))"
    by (rule runs_to_mono [OF ttl_remove_refines [OF ok]])
      (auto simp: ttl_view_def ttl_bound_def live_Some)
  show "runs_to (ttl_contains_inner now k) s (\<lambda>r s'. r = (ttl_view now s k \<noteq> None) \<and>
      ttl_ok s' \<and> ttl_bound s' = ttl_bound s \<and> ttl_view now s' = ttl_view now s)"
    by (rule runs_to_mono [OF ttl_contains_refines [OF ok]])
      (auto simp: ttl_view_def ttl_bound_def ttl_spec_get_def live_absent)
  show "runs_to (ttl_len_inner now) s (\<lambda>n s'. n = card (dom (ttl_view now s)) \<and> n \<le> ttl_bound s \<and>
      ttl_ok s' \<and> ttl_bound s' = ttl_bound s \<and> ttl_view now s' = ttl_view now s)"
    using live_stored_le [OF ok, of now]
    by (intro runs_to_mono [OF ttl_len_refines [OF ok]])
      (auto simp: ttl_view_def ttl_bound_def live_def fun_eq_iff split: option.splits)
  show "runs_to ttl_clear_inner s (\<lambda>_ s'. ttl_ok s' \<and> ttl_bound s' = ttl_bound s \<and> ttl_view now s' = Map.empty)"
    using ok by (auto simp: runs_to_def ttl_clear_inner_def ttl_ok_def hm.ok_empty ttl_bound_def
        ttl_view_def ttl_stored_def hm_get_empty live_def fun_eq_iff)
  show "finite (dom (ttl_view now s))"
    unfolding ttl_view_def by (intro finite_live) (simp add: dom_ttl_stored finite_dom_hm_get)
  show "runs_to (ttl_get_inner now k) s (\<lambda>r s'. r = ttl_view now s k \<and>
      ttl_ok s' \<and> ttl_bound s' = ttl_bound s \<and> ttl_view now s' = ttl_view now s)"
    by (rule runs_to_mono [OF ttl_get_refines [OF ok]])
      (auto simp: ttl_view_def ttl_bound_def ttl_spec_get_def live_absent)
  assume ready: "visits_all E \<and> now < deadline"
  then have all: "visits_all E" by simp
  show "runs_to (ttl_insert_inner E now k v deadline) s (\<lambda>r s'. r = ttl_view now s k \<and> ttl_ok s' \<and>
      ttl_bound s' = ttl_bound s \<and>
      (\<forall>j. j \<noteq> k \<longrightarrow> ttl_view now s' j = ttl_view now s j \<or> ttl_view now s' j = None) \<and>
      (ttl_view now s' k = Some v \<or> ttl_view now s' k = None))"
    by (rule runs_to_mono [OF ttl_insert_refines [OF ok all]])
      (auto simp: ttl_view_def ttl_bound_def live_Some dest: ttl_spec_insert_view live_cong live_None)
  show "runs_to (ttl_insert_inner E now k v deadline) s (\<lambda>_ s'. ttl_view now s' k = Some v)"
    using ready by (intro runs_to_mono [OF ttl_insert_refines [OF ok all]])
      (auto simp: ttl_view_def live_Some dest: ttl_spec_insert_view)
qed

subsection \<open>The methods of the cache, on its content\<close>

lemma ttl_on_key:
  assumes inv: "ttl_cache_inv H c"
    and run: "\<And>s. ttl_ok s \<Longrightarrow> runs_to f s (\<lambda>r s'. P s r (ttl_stored s') \<and> ttl_ok s' \<and> ttl_capacity s' = ttl_capacity s)"
    and local: "\<And>s r M j. P s r M \<Longrightarrow> j \<noteq> k \<Longrightarrow> M j = ttl_stored s j \<or> M j = None"
  shows "runs_to (on_shards (with_shard H k f)) c (\<lambda>r c'. (\<exists>s M. ttl_ok s \<and> P s r M \<and>
      ttl_stored s k = ttl_content H c k \<and>
      ttl_content H c' = (\<lambda>j. if shard_index H (sharded_inner c) j = shard_index H (sharded_inner c) k
                              then M j else ttl_content H c j) \<and>
      (\<forall>j. shard_index H (sharded_inner c) j = shard_index H (sharded_inner c) k \<longrightarrow> ttl_stored s j = ttl_content H c j)) \<and>
      ttl_cache_inv H c' \<and> same_config c c')"
proof -
  let ?sh = "sharded_inner c"
  let ?s = "content (shards ?sh ! shard_index H ?sh k)"
  have sh: "sharded_inv ttl_ok ttl_bound ttl_stored H
      (unat (per_shard_capacity (total_capacity c) (shard_count (total_capacity c)))) ?sh"
    using inv by (simp add: cache_inv_def)
  note s = sharded_viewD [OF sh, of k]
  let ?Q = "\<lambda>r s'. P ?s r (ttl_stored s') \<and> ttl_ok s' \<and> ttl_capacity s' = ttl_capacity ?s"
  have law: "runs_to (with_shard H k f) ?sh (\<lambda>r sh'. sharded_inv ttl_ok ttl_bound ttl_stored H
      (unat (per_shard_capacity (total_capacity c) (shard_count (total_capacity c)))) sh' \<and>
      (\<exists>s'. ?Q r s' \<and> sharded_view ttl_stored H sh' =
         (\<lambda>j. if shard_index H ?sh j = shard_index H ?sh k then ttl_stored s' j else sharded_view ttl_stored H ?sh j)))"
  proof (rule with_shard_law [OF sh run [OF s(2)]])
    fix r s' assume Q: "?Q r s'"
    then show "ttl_ok s' \<and> ttl_bound s' = unat (per_shard_capacity (total_capacity c) (shard_count (total_capacity c))) \<and>
        (\<forall>j. j \<noteq> k \<longrightarrow> ttl_stored s' j = ttl_stored ?s j \<or> ttl_stored s' j = None)"
      using s(3) local [of ?s r "ttl_stored s'"] by (auto simp: ttl_bound_def)
  qed
  let ?P = "\<lambda>r V. \<exists>s M. ttl_ok s \<and> P s r M \<and> ttl_stored s k = ttl_content H c k \<and>
      V = (\<lambda>j. if shard_index H ?sh j = shard_index H ?sh k then M j else ttl_content H c j) \<and>
      (\<forall>j. shard_index H ?sh j = shard_index H ?sh k \<longrightarrow> ttl_stored s j = ttl_content H c j)"
  have "runs_to (on_shards (with_shard H k f)) c (\<lambda>r c'. ?P r (ttl_content H c') \<and>
      ttl_cache_inv H c' \<and> same_config c c')"
  proof (rule cache_lift [OF inv])
    show "runs_to (with_shard H k f) ?sh (\<lambda>r sh. ?P r (sharded_view ttl_stored H sh) \<and>
        sharded_inv ttl_ok ttl_bound ttl_stored H
          (unat (per_shard_capacity (total_capacity c) (shard_count (total_capacity c)))) sh)"
    proof (rule runs_to_mono [OF law])
      fix r sh' assume *: "sharded_inv ttl_ok ttl_bound ttl_stored H
          (unat (per_shard_capacity (total_capacity c) (shard_count (total_capacity c)))) sh' \<and>
        (\<exists>s'. ?Q r s' \<and> sharded_view ttl_stored H sh' =
         (\<lambda>j. if shard_index H ?sh j = shard_index H ?sh k then ttl_stored s' j else sharded_view ttl_stored H ?sh j))"
      then obtain s' where "?Q r s'" "sharded_view ttl_stored H sh' =
         (\<lambda>j. if shard_index H ?sh j = shard_index H ?sh k then ttl_stored s' j else sharded_view ttl_stored H ?sh j)"
        by blast
      then have "?P r (sharded_view ttl_stored H sh')"
        using s(2) sharded_view_same [of H ?sh _ k ttl_stored] unfolding cache_view_def
        by (intro exI [of _ ?s] exI [of _ "ttl_stored s'"]) simp
      with * show "?P r (sharded_view ttl_stored H sh') \<and> sharded_inv ttl_ok ttl_bound ttl_stored H
          (unat (per_shard_capacity (total_capacity c) (shard_count (total_capacity c)))) sh'" by blast
    qed
  qed (rule with_shard_mask)
  then show ?thesis .
qed

text \<open>An operation that only rebinds its key, by what the key is bound to.\<close>

lemma ttl_on_key_upd:
  assumes inv: "ttl_cache_inv H c"
    and run: "\<And>s. ttl_ok s \<Longrightarrow> runs_to f s (\<lambda>r s'. r = R (ttl_stored s k) \<and>
      ttl_stored s' = (ttl_stored s)(k := X (ttl_stored s k)) \<and> ttl_ok s' \<and> ttl_capacity s' = ttl_capacity s)"
  shows "runs_to (on_shards (with_shard H k f)) c (\<lambda>r c'. r = R (ttl_content H c k) \<and>
      ttl_content H c' = (ttl_content H c)(k := X (ttl_content H c k)) \<and> ttl_cache_inv H c' \<and> same_config c c')"
proof -
  let ?P = "\<lambda>s r M. r = R (ttl_stored s k) \<and> M = (ttl_stored s)(k := X (ttl_stored s k))"
  have "runs_to f s (\<lambda>r s'. ?P s r (ttl_stored s') \<and> ttl_ok s' \<and> ttl_capacity s' = ttl_capacity s)"
    if "ttl_ok s" for s
    by (rule runs_to_mono [OF run [OF that]]) simp
  from ttl_on_key [OF inv this, where k = k] show ?thesis
    by (rule runs_to_mono) (auto simp: fun_eq_iff)
qed

definition live_value :: "nat \<Rightarrow> ('v \<times> nat) option \<Rightarrow> 'v option" where
  "live_value now b = (case b of None \<Rightarrow> None | Some (v, d) \<Rightarrow> if now < d then Some v else None)"

definition unexpired :: "nat \<Rightarrow> ('v \<times> nat) option \<Rightarrow> ('v \<times> nat) option" where
  "unexpired now b = (case b of None \<Rightarrow> None | Some (v, d) \<Rightarrow> if now < d then Some (v, d) else None)"

lemma ttl_spec_get_key:
  "ttl_spec_get now k M = (live_value now (M k), M(k := unexpired now (M k)))"
  by (auto simp: ttl_spec_get_def live_value_def unexpired_def live_def fun_eq_iff split: option.split)

lemma live_key: "live now M k = live_value now (M k)"
  by (simp add: live_def live_value_def)

lemma ttl_get_cache:
  assumes inv: "ttl_cache_inv H c"
  shows "runs_to (ttl_get H now k) c (\<lambda>r c'. (r, ttl_content H c') = ttl_spec_get now k (ttl_content H c) \<and>
           ttl_cache_inv H c' \<and> same_config c c')"
  unfolding ttl_get_def ttl_spec_get_key prod.inject conj_assoc
  by (rule ttl_on_key_upd [OF inv], rule runs_to_mono [OF ttl_get_refines]) (simp_all add: ttl_spec_get_key)

lemma ttl_contains_cache:
  assumes inv: "ttl_cache_inv H c"
  shows "runs_to (ttl_contains_key H now k) c (\<lambda>r c'. r = (live now (ttl_content H c) k \<noteq> None) \<and>
           ttl_content H c' = snd (ttl_spec_get now k (ttl_content H c)) \<and> ttl_cache_inv H c' \<and> same_config c c')"
  unfolding ttl_contains_key_def ttl_spec_get_key snd_conv live_key
  by (rule ttl_on_key_upd [OF inv, where R = "\<lambda>b. live_value now b \<noteq> None"],
      rule runs_to_mono [OF ttl_contains_refines]) (simp_all add: ttl_spec_get_key live_key)

lemma ttl_remove_cache:
  assumes inv: "ttl_cache_inv H c"
  shows "runs_to (ttl_remove H k) c (\<lambda>r c'. r = map_option fst (ttl_content H c k) \<and>
           ttl_content H c' = (ttl_content H c)(k := None) \<and> ttl_cache_inv H c' \<and> same_config c c')"
  unfolding ttl_remove_def
  by (rule ttl_on_key_upd [OF inv, where X = "\<lambda>_. None"], rule ttl_remove_refines)

lemma ttl_insert_cache:
  assumes inv: "ttl_cache_inv H c" and all: "visits_all E"
  shows "runs_to (on_shards (with_shard H k (ttl_insert_inner E now k v d))) c (\<lambda>r c'.
           r = live now (ttl_content H c) k \<and> ttl_content H c' k = Some (v, d) \<and>
           (\<forall>j. j \<noteq> k \<longrightarrow> ttl_content H c' j = ttl_content H c j \<or> ttl_content H c' j = None) \<and>
           ttl_cache_inv H c' \<and> same_config c c')"
proof -
  let ?P = "\<lambda>s r M. r = live now (ttl_stored s) k \<and> M k = Some (v, d) \<and>
      (\<forall>j. j \<noteq> k \<longrightarrow> M j = ttl_stored s j \<or> M j = None)"
  have run: "runs_to (ttl_insert_inner E now k v d) s (\<lambda>r s'. ?P s r (ttl_stored s') \<and> ttl_ok s' \<and>
      ttl_capacity s' = ttl_capacity s)" if "ttl_ok s" for s
    by (rule runs_to_mono [OF ttl_insert_refines [OF that all]]) (auto dest: ttl_spec_insert_view)
  show ?thesis
  proof (rule runs_to_mono [OF ttl_on_key [OF inv run]])
    fix r c' assume "(\<exists>s M. ttl_ok s \<and> ?P s r M \<and> ttl_stored s k = ttl_content H c k \<and>
      ttl_content H c' = (\<lambda>j. if shard_index H (sharded_inner c) j = shard_index H (sharded_inner c) k
                              then M j else ttl_content H c j) \<and>
      (\<forall>j. shard_index H (sharded_inner c) j = shard_index H (sharded_inner c) k \<longrightarrow> ttl_stored s j = ttl_content H c j)) \<and>
      ttl_cache_inv H c' \<and> same_config c c'"
    then obtain s M where M: "?P s r M" "ttl_stored s k = ttl_content H c k"
      "ttl_content H c' = (\<lambda>j. if shard_index H (sharded_inner c) j = shard_index H (sharded_inner c) k
                              then M j else ttl_content H c j)"
      "\<And>j. shard_index H (sharded_inner c) j = shard_index H (sharded_inner c) k \<Longrightarrow> ttl_stored s j = ttl_content H c j"
      and rest: "ttl_cache_inv H c' \<and> same_config c c'"
      by blast
    have "ttl_content H c' j = ttl_content H c j \<or> ttl_content H c' j = None" if "j \<noteq> k" for j
    proof (cases "shard_index H (sharded_inner c) j = shard_index H (sharded_inner c) k")
      case True
      with M that show ?thesis by metis
    next
      case False
      with M(3) show ?thesis by simp
    qed
    with M rest show "r = live now (ttl_content H c) k \<and> ttl_content H c' k = Some (v, d) \<and>
        (\<forall>j. j \<noteq> k \<longrightarrow> ttl_content H c' j = ttl_content H c j \<or> ttl_content H c' j = None) \<and>
        ttl_cache_inv H c' \<and> same_config c c'"
      by (simp add: live_key)
  qed auto
qed

text \<open>
  The loop of \<open>len\<close>. Each shard is purged at its own reading; the sum counts the keys whose deadline
  lies after the reading of their shard.
\<close>

lemma ttl_len_from_runs:
  assumes "\<forall>m \<in> set ms. ttl_ok (content m)"
  shows "\<exists>ms'. ttl_len_from now i ms =
      (Done (\<Sum>j < length ms. card (dom (live (now (i + j)) (ttl_stored (content (ms ! j)))))), ms') \<and>
    length ms' = length ms \<and>
    (\<forall>j < length ms. ttl_ok (content (ms' ! j)) \<and> ttl_capacity (content (ms' ! j)) = ttl_capacity (content (ms ! j)) \<and>
       (\<forall>k. ttl_stored (content (ms' ! j)) k =
          (if live (now (i + j)) (ttl_stored (content (ms ! j))) k = None then None else ttl_stored (content (ms ! j)) k)))"
  using assms
proof (induction ms arbitrary: i)
  case Nil
  then show ?case by simp
next
  case (Cons m ms)
  from Cons.prems have "ttl_ok (content m)" by simp
  from ttl_len_refines [OF this, of "now i"] obtain s' where s':
      "ttl_len_inner (now i) (content m) = (Done (card (dom (live (now i) (ttl_stored (content m))))), s')"
      "ttl_ok s'" "ttl_capacity s' = ttl_capacity (content m)"
      "\<forall>k. ttl_stored s' k = (if live (now i) (ttl_stored (content m)) k = None then None else ttl_stored (content m) k)"
    by (auto elim!: runs_toE)
  from Cons.IH [of "Suc i"] Cons.prems obtain ms' where ms': "ttl_len_from now (Suc i) ms =
      (Done (\<Sum>j < length ms. card (dom (live (now (Suc i + j)) (ttl_stored (content (ms ! j)))))), ms')"
      "length ms' = length ms"
      "\<forall>j < length ms. ttl_ok (content (ms' ! j)) \<and> ttl_capacity (content (ms' ! j)) = ttl_capacity (content (ms ! j)) \<and>
       (\<forall>k. ttl_stored (content (ms' ! j)) k =
          (if live (now (Suc i + j)) (ttl_stored (content (ms ! j))) k = None then None else ttl_stored (content (ms ! j)) k))"
    by auto
  show ?case
    using s' ms' by (auto simp: locked_Done less_Suc_eq_0_disj sum.lessThan_Suc_shift simp del: sum.lessThan_Suc)
qed

lemma ttl_len_cache:
  assumes inv: "ttl_cache_inv H c"
  shows "runs_to (ttl_len now) c (\<lambda>n c'. n \<le> unat (total_capacity c) \<and>
    n = card {k. live (now (shard_index H (sharded_inner c) k)) (ttl_content H c) k \<noteq> None} \<and>
    ttl_content H c' \<subseteq>\<^sub>m ttl_content H c \<and>
    (\<forall>t k. live t (ttl_content H c') k =
       live (max t (now (shard_index H (sharded_inner c) k))) (ttl_content H c) k) \<and>
    ttl_cache_inv H c' \<and> same_config c c')"
proof -
  let ?sh = "sharded_inner c"
  let ?b = "unat (per_shard_capacity (total_capacity c) (shard_count (total_capacity c)))"
  let ?s = "\<lambda>i. ttl_stored (content (shards ?sh ! i))"
  let ?t = "\<lambda>k. now (shard_index H ?sh k)"
  have sh: "sharded_inv ttl_ok ttl_bound ttl_stored H ?b ?sh" using inv by (simp add: cache_inv_def)
  have ok: "ttl_ok (content (shards ?sh ! i))" "ttl_bound (content (shards ?sh ! i)) = ?b"
    if "i < length (shards ?sh)" for i
    using sh that by (simp_all add: sharded_inv_def)
  have "\<forall>m \<in> set (shards ?sh). ttl_ok (content m)" using ok(1) by (auto simp: in_set_conv_nth)
  from ttl_len_from_runs [OF this, of now 0] obtain ms where ms:
      "ttl_len_from now 0 (shards ?sh) = (Done (\<Sum>j < length (shards ?sh). card (dom (live (now j) (?s j)))), ms)"
      "length ms = length (shards ?sh)"
      "\<And>j. j < length (shards ?sh) \<Longrightarrow> ttl_ok (content (ms ! j)) \<and>
         ttl_capacity (content (ms ! j)) = ttl_capacity (content (shards ?sh ! j)) \<and>
         (\<forall>k. ttl_stored (content (ms ! j)) k = (if live (now j) (?s j) k = None then None else ?s j k))"
    by auto
  let ?c = "c\<lparr>sharded_inner := ?sh\<lparr>shards := ms\<rparr>\<rparr>"
  let ?n = "\<Sum>j < length (shards ?sh). card (dom (live (now j) (?s j)))"
  have run: "ttl_len now c = (Done ?n, ?c)" by (simp add: ttl_len_def on_shards_def ms(1))
  have le: "ttl_stored (content (ms ! j)) \<subseteq>\<^sub>m ?s j" if "j < length (shards ?sh)" for j
    using ms(3) [OF that] unfolding map_le_def by (metis domIff)
  have "sharded_inv ttl_ok ttl_bound ttl_stored H ?b (?sh\<lparr>shards := ms\<rparr>)"
    using ms(2,3) le ok by (intro sharded_inv_replace [OF sh]) (auto simp: ttl_bound_def)
  then have inv': "ttl_cache_inv H ?c" using inv by (simp add: cache_inv_def)
  have lt: "shard_index H ?sh k < length (shards ?sh)" for k by (rule sharded_viewD [OF sh])
  have content: "ttl_content H c k = ?s (shard_index H ?sh k) k" for k
    by (simp add: cache_view_def sharded_view_def)
  have content': "ttl_content H ?c k = (if live (?t k) (ttl_content H c) k = None then None else ttl_content H c k)" for k
    using ms(3) [OF lt [of k]] by (simp add: content cache_view_def sharded_view_def live_key)
  have "card {k. k \<in> dom (live (?t k) (?s (shard_index H ?sh k)))} = ?n"
  proof (rule card_routed [OF _ _ lt])
    fix i assume i: "i < length (shards ?sh)"
    show "finite (dom (live (now i) (?s i)))"
      by (intro finite_live) (simp add: dom_ttl_stored finite_dom_hm_get)
    show "shard_index H ?sh k = i" if "k \<in> dom (live (now i) (?s i))" for k
      using that i sh by (auto simp: sharded_inv_def live_Some)
  qed
  then have n: "?n = card {k. live (?t k) (ttl_content H c) k \<noteq> None}"
    by (simp add: content live_key domIff)
  have "card (dom (live (now j) (?s j))) \<le> ?b" if "j < length (shards ?sh)" for j
    using live_stored_le [OF ok(1) [OF that], of "now j"] ok(2) [OF that] by simp
  then have "?n \<le> of_nat (card {..<length (shards ?sh)}) * ?b"
    by (intro sum_bounded_above) simp
  moreover have "length (shards ?sh) = unat (shard_count (total_capacity c))"
    using inv Suc_unat_pred [OF shard_count_bounds(1)] by (simp add: cache_inv_def sharded_inv_def)
  ultimately have "?n \<le> unat (total_capacity c)"
    using total_capacity_bound [of "total_capacity c"] inv by (simp add: cache_inv_def)
  moreover have "live t (ttl_content H ?c) k = live (max t (?t k)) (ttl_content H c) k" for t k
    by (auto simp: live_def content' split: option.splits)
  moreover have "ttl_content H ?c \<subseteq>\<^sub>m ttl_content H c"
    by (auto simp: map_le_def content' split: if_splits)
  ultimately show ?thesis
    using inv' n unfolding runs_to_def run by (auto simp: same_config_def)
qed

lemma ttl_clear_cache:
  assumes inv: "ttl_cache_inv H c"
  shows "runs_to ttl_clear c (\<lambda>_ c'. ttl_content H c' = Map.empty \<and> ttl_cache_inv H c' \<and> same_config c c')"
proof -
  let ?sh = "sharded_inner c"
  let ?b = "unat (per_shard_capacity (total_capacity c) (shard_count (total_capacity c)))"
  let ?Q = "\<lambda>s (_ :: unit) s'. ttl_ok s' \<and> ttl_bound s' = ?b \<and> ttl_stored s' = Map.empty"
  have sh: "sharded_inv ttl_ok ttl_bound ttl_stored H ?b ?sh" using inv by (simp add: cache_inv_def)
  have run: "runs_to ttl_clear_inner s (?Q s)" if "ttl_ok s" "ttl_bound s = ?b" for s
    using that by (auto simp: runs_to_def ttl_clear_inner_def ttl_ok_def hm.ok_empty ttl_bound_def
        ttl_stored_def hm_get_empty fun_eq_iff)
  have "runs_to (on_shards (each_shard ttl_clear_inner)) c (\<lambda>_ c'. ttl_content H c' = Map.empty \<and>
      ttl_cache_inv H c' \<and> same_config c c')"
  proof (rule cache_lift [OF inv], rule runs_to_mono [OF each_shard_law [OF sh run]])
    fix rs :: "unit list" and sh'
    assume *: "sharded_inv ttl_ok ttl_bound ttl_stored H ?b sh' \<and> length rs = length (shards ?sh) \<and>
      shard_mask sh' = shard_mask ?sh \<and>
      (\<forall>i < length (shards ?sh). ?Q (content (shards ?sh ! i)) (rs ! i) (content (shards sh' ! i)))"
    have "shard_index H sh' k = shard_index H ?sh k" for k using * by (simp add: shard_index_def)
    then have "sharded_view ttl_stored H sh' = Map.empty"
      using * sharded_viewD(1) [OF sh] by (auto simp: sharded_view_def fun_eq_iff)
    with * show "sharded_view ttl_stored H sh' = Map.empty \<and> sharded_inv ttl_ok ttl_bound ttl_stored H ?b sh'"
      by simp
  qed (auto dest: each_shard_mask)
  then show ?thesis by (auto simp: ttl_clear_def runs_to_def bind_exec_def)
qed

lemma ttl_new_inv:
  fixes H :: "'k hashing"
  assumes "cap \<noteq> 0"
  shows "ttl_cache_inv H (ttl_with_capacity cap ttl :: ('k, 'v) ttl_cache)"
    and "ttl_content H (ttl_with_capacity cap ttl :: ('k, 'v) ttl_cache) = Map.empty"
    and "ttl_new cap ttl = Inr (ttl_with_capacity cap ttl :: ('k, 'v) ttl_cache)"
    and "total_capacity (ttl_with_capacity cap ttl :: ('k, 'v) ttl_cache) = cap"
    and "default_ttl (ttl_with_capacity cap ttl :: ('k, 'v) ttl_cache) = ttl"
proof -
  let ?p = "per_shard_capacity cap (shard_count cap)"
  let ?s = "ttl_inner_with_capacity ?p :: ('k, 'v) ttl_inner"
  let ?c = "ttl_with_capacity cap ttl :: ('k, 'v) ttl_cache"
  have s: "ttl_ok ?s" "ttl_bound ?s = unat ?p" "ttl_stored ?s = Map.empty"
    using per_shard_pos [of cap "shard_count cap"]
    by (simp_all add: ttl_inner_with_capacity_def ttl_ok_def hm.ok_empty ttl_bound_def ttl_stored_def
        hm_get_empty fun_eq_iff)
  have c: "total_capacity ?c = cap" "sharded_inner ?c = from_factory (shard_count cap) (\<lambda>_. ?s)"
    by (simp_all add: ttl_with_capacity_def Let_def)
  show "ttl_cache_inv H ?c" and "ttl_content H ?c = Map.empty"
    using cache_new_inv [where ok = ttl_ok and bound = ttl_bound and view = ttl_stored, OF assms c s]
    by simp_all
  show "ttl_new cap ttl = Inr ?c" using assms by (simp add: ttl_new_def)
  show "total_capacity ?c = cap" "default_ttl ?c = ttl" by (simp_all add: ttl_with_capacity_def Let_def)
qed

subsection \<open>Calls over time\<close>

text \<open>
  The calls with the readings of the clock they take, in any order of readings, and what a store
  that never drops anything would hold after them: the last value written for each key with the
  deadline computed at that write.
\<close>

datatype ('k, 'v) timed_call =
  At_get nat 'k | At_insert nat nat 'k 'v | At_insert_with_ttl nat nat 'k 'v nat | At_remove 'k
| At_contains_key nat 'k | At_len "nat \<Rightarrow> nat" | At_clear

fun ttl_perform ::
  "'k hashing \<Rightarrow> ('k, 'v) ttl_env \<Rightarrow> ('k, 'v) timed_call \<Rightarrow> (('k, 'v) ttl_cache, unit) exec" where
  "ttl_perform H E (At_get now k) = seq_exec (ttl_get H now k) (ret ())"
| "ttl_perform H E (At_insert asked now k v) = seq_exec (ttl_insert H E asked now k v) (ret ())"
| "ttl_perform H E (At_insert_with_ttl asked now k v ttl) =
     seq_exec (ttl_insert_with_ttl H E asked now k v ttl) (ret ())"
| "ttl_perform H E (At_remove k) = seq_exec (ttl_remove H k) (ret ())"
| "ttl_perform H E (At_contains_key now k) = seq_exec (ttl_contains_key H now k) (ret ())"
| "ttl_perform H E (At_len now) = seq_exec (ttl_len now) (ret ())"
| "ttl_perform H E At_clear = ttl_clear"

fun written :: "('k, 'v) ttl_env \<Rightarrow> nat \<Rightarrow> ('k, 'v) timed_call \<Rightarrow> ('k, 'v) timed \<Rightarrow> ('k, 'v) timed" where
  "written E dflt (At_insert asked now k v) M = M(k \<mapsto> (v, compute_deadline E asked dflt))"
| "written E dflt (At_insert_with_ttl asked now k v ttl) M = M(k \<mapsto> (v, compute_deadline E asked ttl))"
| "written E dflt (At_remove k) M = M(k := None)"
| "written E dflt At_clear M = Map.empty"
| "written E dflt (At_get now k) M = M"
| "written E dflt (At_contains_key now k) M = M"
| "written E dflt (At_len now) M = M"

lemma spec_get_le: "snd (ttl_spec_get now k M) \<subseteq>\<^sub>m M"
  by (auto simp: ttl_spec_get_def map_le_def)

lemma spec_get_le': "(r, V') = ttl_spec_get now k V \<Longrightarrow> V' \<subseteq>\<^sub>m V"
  using spec_get_le [of now k V] by (metis snd_conv)

lemma same_config_ttl: "same_config c (c' :: ('k, 'v) ttl_cache) \<Longrightarrow> default_ttl c' = default_ttl c"
  by (cases c; cases c') (simp add: same_config_def)

lemma ttl_inserted_le:
  assumes "V' k = Some b" and "\<forall>j. j \<noteq> k \<longrightarrow> V' j = V j \<or> V' j = None" and "V \<subseteq>\<^sub>m M"
  shows "V' \<subseteq>\<^sub>m M(k \<mapsto> b)"
proof -
  have "V' j = (M(k \<mapsto> b)) j" if "V' j \<noteq> None" for j
  proof (cases "j = k")
    case False
    have V: "V' j = V j" using assms(2) [rule_format, OF False] that by (elim disjE) simp_all
    with that have "j \<in> dom V" by auto
    with assms(3) have "V j = M j" unfolding map_le_def by blast
    with V False show ?thesis by simp
  qed (simp add: assms(1))
  then show ?thesis unfolding map_le_def by blast
qed

lemma ttl_perform_law:
  assumes inv: "ttl_cache_inv H c" and all: "visits_all E" and le: "ttl_content H c \<subseteq>\<^sub>m M"
  shows "runs_to (ttl_perform H E x) c (\<lambda>_ c'. ttl_cache_inv H c' \<and> same_config c c' \<and>
           ttl_content H c' \<subseteq>\<^sub>m written E (default_ttl c) x M)"
proof (cases x)
  case (At_get now k)
  have step: "V' \<subseteq>\<^sub>m M" if "(r, V') = ttl_spec_get now k (ttl_content H c)" for r V'
    using spec_get_le' [OF that] le by (rule map_le_trans)
  show ?thesis unfolding At_get ttl_perform.simps written.simps
    by (rule runs_to_seq_ret, rule runs_to_mono [OF ttl_get_cache [OF inv]])
      (elim conjE, intro conjI; (assumption | erule step))
next
  case (At_insert asked now k v)
  have "runs_to (ttl_insert H E asked now k v) c (\<lambda>_ c'. ttl_cache_inv H c' \<and> same_config c c' \<and>
      ttl_content H c' \<subseteq>\<^sub>m M(k \<mapsto> (v, compute_deadline E asked (default_ttl c))))"
    unfolding runs_to_def ttl_insert_def Let_def
    using ttl_insert_cache [OF inv all, of k now v "compute_deadline E asked (default_ttl c)"] le
    by (auto simp: runs_to_def intro: ttl_inserted_le)
  then show ?thesis unfolding At_insert ttl_perform.simps written.simps by (rule runs_to_seq_ret)
next
  case (At_insert_with_ttl asked now k v ttl)
  have "runs_to (ttl_insert_with_ttl H E asked now k v ttl) c (\<lambda>_ c'. ttl_cache_inv H c' \<and> same_config c c' \<and>
      ttl_content H c' \<subseteq>\<^sub>m M(k \<mapsto> (v, compute_deadline E asked ttl)))"
    unfolding ttl_insert_with_ttl_def Let_def
    by (rule runs_to_mono [OF ttl_insert_cache [OF inv all]]) (use le in \<open>auto intro: ttl_inserted_le\<close>)
  then show ?thesis unfolding At_insert_with_ttl ttl_perform.simps written.simps by (rule runs_to_seq_ret)
next
  case (At_remove k)
  show ?thesis unfolding At_remove ttl_perform.simps written.simps
    by (rule runs_to_seq_ret, rule runs_to_mono [OF ttl_remove_cache [OF inv]])
      (use le in \<open>auto simp: map_le_def\<close>)
next
  case (At_contains_key now k)
  show ?thesis unfolding At_contains_key ttl_perform.simps written.simps
    by (rule runs_to_seq_ret, rule runs_to_mono [OF ttl_contains_cache [OF inv]])
      (use map_le_trans [OF spec_get_le le] in auto)
next
  case (At_len now)
  have step: "V' \<subseteq>\<^sub>m ttl_content H c \<Longrightarrow> V' \<subseteq>\<^sub>m M" for V'
    using le by (rule map_le_trans [rotated])
  show ?thesis unfolding At_len ttl_perform.simps written.simps
    by (rule runs_to_seq_ret, rule runs_to_mono [OF ttl_len_cache [OF inv]])
      (elim conjE, intro conjI; (assumption | erule step))
next
  case At_clear
  show ?thesis unfolding At_clear ttl_perform.simps written.simps
    by (rule runs_to_mono [OF ttl_clear_cache [OF inv]]) auto
qed

lemma ttl_run_calls:
  assumes "ttl_cache_inv H c" and "visits_all E" and "ttl_content H c \<subseteq>\<^sub>m M"
  shows "runs_to (run_calls (ttl_perform H E) xs) c (\<lambda>_ c'. ttl_cache_inv H c' \<and> same_config c c' \<and>
           ttl_content H c' \<subseteq>\<^sub>m fold (written E (default_ttl c)) xs M)"
  using assms
proof (induction xs arbitrary: c M)
  case Nil
  then show ?case by (auto intro: runs_toI)
next
  case (Cons x xs)
  show ?case unfolding run_calls.simps
  proof (rule runs_to_seq [OF ttl_perform_law [OF Cons.prems]], elim conjE)
    fix u c1 assume c1: "ttl_cache_inv H c1" "same_config c c1"
      "ttl_content H c1 \<subseteq>\<^sub>m written E (default_ttl c) x M"
    show "runs_to (run_calls (ttl_perform H E) xs) c1 (\<lambda>_ c'. ttl_cache_inv H c' \<and> same_config c c' \<and>
        ttl_content H c' \<subseteq>\<^sub>m fold (written E (default_ttl c)) (x # xs) M)"
      by (rule runs_to_mono [OF Cons.IH [OF c1(1) Cons.prems(2) c1(3)]])
        (use c1(2) same_config_ttl [OF c1(2)] in \<open>auto intro: same_config_trans\<close>)
  qed
qed

subsection \<open>Properties\<close>

text \<open>An environment for the witnesses: bindings are visited in the order of the list.\<close>

definition sample_env :: "(nat, nat) ttl_env" where
  "sample_env = \<lparr>instant_max = 10 ^ 19, visit = (\<lambda>m. m)\<rparr>"

lemma sample_visits: "visits_all sample_env"
  by (simp add: visits_all_def sample_env_def)

text \<open>
  \<^bold>\<open>C4.\<close> A shard implements the TTL policy, at every reading of the clock and for every order in
  which the hash map is visited. \<open>get\<close> returns exactly the live value and drops an expired one; an
  insert over a live entry replaces value and deadline; any other insert drops the expired entry
  of its key and, if the shard is full, an entry with the soonest deadline; \<open>remove\<close> returns what
  is stored, expired or not.
\<close>

theorem ttl_shard_refines_policy:
  assumes "ttl_ok s" and "visits_all E"
  shows "runs_to (ttl_get_inner now k) s (\<lambda>r s'. (r, ttl_stored s') = ttl_spec_get now k (ttl_stored s) \<and>
           ttl_ok s' \<and> ttl_capacity s' = ttl_capacity s) \<and>
         runs_to (ttl_insert_inner E now k v d) s (\<lambda>r s'.
           ttl_spec_insert now (unat (ttl_capacity s)) k v d (ttl_stored s) (r, ttl_stored s') \<and>
           ttl_ok s' \<and> ttl_capacity s' = ttl_capacity s) \<and>
         runs_to (ttl_remove_inner k) s (\<lambda>r s'. r = map_option fst (ttl_stored s k) \<and>
           ttl_stored s' = (ttl_stored s)(k := None) \<and> ttl_ok s' \<and> ttl_capacity s' = ttl_capacity s)"
  using assms by (intro conjI ttl_get_refines ttl_insert_refines ttl_remove_refines)

text \<open>A full shard of capacity 2: key 5 expires at 50, key 6 at 90.\<close>

definition ttl_example :: "(nat, nat) ttl_inner" where
  "ttl_example = \<lparr>ttl_capacity = 2, ttl_map = [(5, \<lparr>ttl_value = 10, expires_at = 50\<rparr>),
     (6, \<lparr>ttl_value = 20, expires_at = 90\<rparr>)]\<rparr>"

lemma ttl_example_ok:
  "ttl_ok ttl_example" "ttl_stored ttl_example = [5 \<mapsto> (10, 50), 6 \<mapsto> (20, 90)]"
  "unat (ttl_capacity ttl_example) = 2"
  by (simp_all add: ttl_ok_def ttl_example_def hm_ok_def hm_len_def ttl_stored_def hm_get_def fun_eq_iff)

theorem ttl_shard_refines_policy_witness:
  "runs_to (ttl_get_inner 50 5) ttl_example (\<lambda>r s'. r = None \<and> ttl_stored s' = [6 \<mapsto> (20, 90)]) \<and>
   runs_to (ttl_insert_inner sample_env 40 7 30 99) ttl_example (\<lambda>r s'. r = None \<and>
     ttl_stored s' = [6 \<mapsto> (20, 90), 7 \<mapsto> (30, 99)])"
proof
  note refines = ttl_shard_refines_policy [OF ttl_example_ok(1) sample_visits, unfolded ttl_example_ok(2,3)]
  let ?M = "[5 \<mapsto> (10, 50), 6 \<mapsto> (20, 90)] :: (nat, nat) timed"
  have "live 50 ?M 5 = None" by (simp add: live_def)
  then show "runs_to (ttl_get_inner 50 5) ttl_example (\<lambda>r s'. r = None \<and> ttl_stored s' = [6 \<mapsto> (20, 90)])"
    by (intro runs_to_mono [OF refines [THEN conjunct1, of 50 5]]) (auto simp: ttl_spec_get_def fun_eq_iff)
  have live: "live 40 ?M 7 = None" "?M(7 := None) = ?M" "card (dom ?M) = 2" by (simp_all add: live_def fun_eq_iff)
  have sooner: "soonest ?M j \<longleftrightarrow> j = 5" for j
    by (auto simp: soonest_def split: if_splits)
  have "r = None \<and> M = [6 \<mapsto> (20, 90), 7 \<mapsto> (30, 99)]" if "ttl_spec_insert 40 2 7 30 99 ?M (r, M)" for r M
    using that unfolding ttl_spec_insert_def live option.case sooner by (auto simp: fun_eq_iff)
  then show "runs_to (ttl_insert_inner sample_env 40 7 30 99) ttl_example (\<lambda>r s'. r = None \<and>
      ttl_stored s' = [6 \<mapsto> (20, 90), 7 \<mapsto> (30, 99)])"
    by (intro runs_to_mono [OF refines [THEN conjunct2, THEN conjunct1, of 40 7 30 99]]) blast
qed

text \<open>
  \<^bold>\<open>C13.\<close> Any client of a \<open>TtlCache\<close>, at any times. For every non-zero capacity, default lifetime and
  hasher, after any sequence of calls with any readings of the clock nothing has panicked; from
  then on, at any reading, \<open>get\<close> returns a value only if it is the last one written for its key, not
  removed or cleared since, and its deadline still lies ahead; \<open>len\<close> never exceeds the capacity.
\<close>

theorem ttl_any_calls:
  fixes xs :: "('k, 'v) timed_call list"
  assumes "cap \<noteq> 0" and "visits_all E"
  shows "\<exists>c. ttl_new cap ttl = Inr c \<and>
    runs_to (run_calls (ttl_perform H E) xs) c (\<lambda>_ c'. ttl_capacity_of c' = cap \<and>
      (\<forall>now k. runs_to (ttl_get H now k) c' (\<lambda>r _. \<forall>v. r = Some v \<longrightarrow>
         (\<exists>d. fold (written E ttl) xs Map.empty k = Some (v, d) \<and> now < d))) \<and>
      (\<forall>now. runs_to (ttl_len now) c' (\<lambda>n _. n \<le> unat cap)))"
proof -
  let ?c = "ttl_with_capacity cap ttl :: ('k, 'v) ttl_cache"
  have new: "ttl_cache_inv H ?c" "ttl_content H ?c = Map.empty" "ttl_new cap ttl = Inr ?c"
      "total_capacity ?c = cap" "default_ttl ?c = ttl"
    using assms(1) by (simp_all only: ttl_new_inv not_False_eq_True)
  have "runs_to (run_calls (ttl_perform H E) xs) ?c (\<lambda>_ c'. ttl_cache_inv H c' \<and> same_config ?c c' \<and>
      ttl_content H c' \<subseteq>\<^sub>m fold (written E ttl) xs Map.empty)"
    using ttl_run_calls [OF new(1) assms(2), of Map.empty xs] new(2,5) by simp
  then have "runs_to (run_calls (ttl_perform H E) xs) ?c (\<lambda>_ c'. ttl_capacity_of c' = cap \<and>
      (\<forall>now k. runs_to (ttl_get H now k) c' (\<lambda>r _. \<forall>v. r = Some v \<longrightarrow>
         (\<exists>d. fold (written E ttl) xs Map.empty k = Some (v, d) \<and> now < d))) \<and>
      (\<forall>now. runs_to (ttl_len now) c' (\<lambda>n _. n \<le> unat cap)))"
  proof (rule runs_to_mono, intro conjI allI)
    fix u c' assume *: "ttl_cache_inv H c' \<and> same_config ?c c' \<and>
      ttl_content H c' \<subseteq>\<^sub>m fold (written E ttl) xs Map.empty"
    then show cap: "ttl_capacity_of c' = cap"
      using new(4) same_config_capacity [of ?c c'] by (simp add: ttl_capacity_of_def)
    show "runs_to (ttl_len now) c' (\<lambda>n _. n \<le> unat cap)" for now
      using cap by (intro runs_to_mono [OF ttl_len_cache [OF conjunct1 [OF *]]]) (simp add: ttl_capacity_of_def)
    have written: "fold (written E ttl) xs Map.empty k = Some b" if "ttl_content H c' k = Some b" for k b
      using * that unfolding map_le_def by (metis domI)
    show "runs_to (ttl_get H now k) c' (\<lambda>r _. \<forall>v. r = Some v \<longrightarrow>
        (\<exists>d. fold (written E ttl) xs Map.empty k = Some (v, d) \<and> now < d))" for now k
      by (rule runs_to_mono [OF ttl_get_cache [OF conjunct1 [OF *]]])
        (auto simp: ttl_spec_get_def live_Some dest!: written)
  qed
  with new(3) show ?thesis by blast
qed

theorem ttl_any_calls_witness:
  "\<exists>c. ttl_new 64 100 = Inr c \<and>
    runs_to (run_calls (ttl_perform sample_hashing sample_env) [At_insert 0 1 7 (70 :: nat), At_get 50 7]) c
      (\<lambda>_ c'. runs_to (ttl_get sample_hashing 100 7) c' (\<lambda>r _. r = None))"
proof -
  have ghost: "fold (written sample_env 100) [At_insert 0 1 7 70, At_get 50 7] Map.empty = [7 \<mapsto> (70, 100)]"
    by (simp add: compute_deadline_def checked_add_def sample_env_def)
  have none: "runs_to (ttl_get sample_hashing 100 7) c' (\<lambda>r _. r = None)"
    if "\<forall>now k. runs_to (ttl_get sample_hashing now k) c' (\<lambda>r _. \<forall>v. r = Some v \<longrightarrow>
      (\<exists>d. [7 \<mapsto> (70, 100)] k = Some (v, d) \<and> now < d))" for c' :: "(nat, nat) ttl_cache"
    by (rule runs_to_mono [OF that [THEN spec, THEN spec, of 100 7]]) (auto simp: not_None_eq [symmetric])
  have "(64 :: usize) \<noteq> 0" by simp
  from ttl_any_calls [OF this sample_visits, of 100 sample_hashing "[At_insert 0 1 7 70, At_get 50 7]"]
  show ?thesis
    unfolding ghost by (elim exE conjE) (auto elim!: runs_to_mono intro: none)
qed

text \<open>
  \<^bold>\<open>C36.\<close> The lifetime of an entry. On any well-formed cache, an insert with a lifetime whose deadline
  lies after the reading taken under the lock makes the value visible to a following \<open>get\<close> or
  \<open>contains_key\<close> exactly at the readings before that deadline; at the deadline and later both
  report the key as absent.
\<close>

theorem ttl_lifetime:
  assumes "ttl_cache_inv H c" and "visits_all E" and "now < compute_deadline E asked ttl"
  shows "runs_to (seq_exec (ttl_insert_with_ttl H E asked now k v ttl)
      (bind_exec (ttl_contains_key H later k) (\<lambda>there.
       bind_exec (ttl_get H later k) (\<lambda>got. ret (there, got))))) c
    (\<lambda>r c'. r = (if later < compute_deadline E asked ttl then (True, Some v) else (False, None)) \<and>
       ttl_cache_inv H c')"
proof -
  have ins: "runs_to (ttl_insert_with_ttl H E asked now k v ttl) c (\<lambda>_ c'. ttl_cache_inv H c' \<and>
      ttl_content H c' k = Some (v, compute_deadline E asked ttl))"
    unfolding ttl_insert_with_ttl_def Let_def
    by (rule runs_to_mono [OF ttl_insert_cache [OF assms(1,2)]]) simp
  show ?thesis
    by (rule runs_to_seq [OF ins], elim conjE,
        rule runs_to_bind [OF ttl_contains_cache], assumption, elim conjE,
        rule runs_to_bind [OF ttl_get_cache], assumption, elim conjE,
        rule runs_to_ret) (auto simp: ttl_spec_get_key live_key live_value_def unexpired_def)
qed

theorem ttl_lifetime_witness:
  "runs_to (seq_exec (ttl_insert_with_ttl sample_hashing sample_env 10 12 5 (50 :: nat) 30)
      (bind_exec (ttl_contains_key sample_hashing 40 5) (\<lambda>there.
       bind_exec (ttl_get sample_hashing 40 5) (\<lambda>got. ret (there, got))))) (ttl_with_capacity 64 100)
    (\<lambda>r c'. r = (False, None) \<and> ttl_cache_inv sample_hashing c')"
proof -
  have d: "compute_deadline sample_env 10 30 = 40"
    by (simp add: compute_deadline_def checked_add_def sample_env_def)
  have inv: "ttl_cache_inv sample_hashing (ttl_with_capacity 64 100 :: (nat, nat) ttl_cache)"
    by (rule ttl_new_inv) simp
  from ttl_lifetime [OF inv sample_visits, of 12 10 30 5 50 40] show ?thesis by (simp add: d)
qed



end
