(* ===== verification/Sketch.thy ===== *)
theory Sketch
  imports Sharding
begin

section \<open>The Count-Min Sketch of TinyLfuCache: the model\<close>

text \<open>
  \<open>CountMinSketch\<close> of \<open>src/tinylfu.rs\<close>: four rows of \<open>width\<close> counters of eight bits in one vector, a
  count of the samples since the counters were last halved, and the window after which they are.
  A key's cell in row \<open>d\<close> is its hash with seed \<open>d\<close> modulo the width; a remainder by a zero width
  is a panic. Counters saturate and reads and writes outside the vector are ignored, as in the
  source. \<open>usize\<close> and \<open>u64\<close> have the same width here, so the casts between them do nothing; the
  seed is hashed through its eight bytes in little-endian order.
\<close>

definition SKETCH_DEPTH :: nat where
  "SKETCH_DEPTH = 4"

definition MIN_SKETCH_WIDTH :: usize where
  "MIN_SKETCH_WIDTH = 64"

record count_min_sketch =
  counters :: "u8 list"
  width :: usize
  width_u64 :: u64
  samples :: u64
  sample_window :: u64

text \<open>\<open>usize::next_power_of_two\<close>; where no power of two fits, the optimised build wraps to zero.\<close>

definition next_power_of_two :: "usize \<Rightarrow> usize" where
  "next_power_of_two n = (case find (\<lambda>k. unat n \<le> 2 ^ k) [0..<64] of Some k \<Rightarrow> 2 ^ k | None \<Rightarrow> 0)"

definition cms_new :: "usize \<Rightarrow> count_min_sketch" where
  "cms_new capacity =
     (let w = next_power_of_two (max (sat_mul capacity 2) MIN_SKETCH_WIDTH);
          window = max (sat_mul capacity 10) 64
      in \<lparr>counters = replicate (unat (sat_mul w (of_nat SKETCH_DEPTH))) 0, width = w, width_u64 = w,
          samples = 0, sample_window = window\<rparr>)"

definition u64_bytes :: "u64 \<Rightarrow> u8 list" where
  "u64_bytes x = map (\<lambda>i. ucast (drop_bit (8 * i) x)) [0..<8]"

definition hash_with_seed :: "'k hashing \<Rightarrow> 'k \<Rightarrow> u64 \<Rightarrow> u64" where
  "hash_with_seed H key seed = hasher_finish H (u64_bytes seed @ key_bytes H key)"

definition cell :: "'k hashing \<Rightarrow> nat \<Rightarrow> 'k \<Rightarrow> (count_min_sketch, usize) exec" where
  "cell H d key s =
     (let h = hash_with_seed H key (of_nat d)
      in if width_u64 s = 0 then (Panicked RemainderByZero, s)
         else let col = h mod width_u64 s
              in (Done (sat_add (sat_mul (of_nat d) (width s)) col), s))"

text \<open>\<open>counters.get(idx)\<close> with its default, and a write through \<open>counters.get_mut(idx)\<close>.\<close>

definition counter_at :: "u8 list \<Rightarrow> usize \<Rightarrow> u8" where
  "counter_at cs idx = (if unat idx < length cs then cs ! unat idx else 0)"

definition bump_counter :: "u8 list \<Rightarrow> usize \<Rightarrow> u8 list" where
  "bump_counter cs idx = (if unat idx < length cs then cs[unat idx := sat_add (cs ! unat idx) 1] else cs)"

subsection \<open>The operations\<close>

text \<open>The loops over the rows, from the list of rows still to visit.\<close>

fun estimate_rows :: "'k hashing \<Rightarrow> 'k \<Rightarrow> nat list \<Rightarrow> u8 \<Rightarrow> (count_min_sketch, u8) exec" where
  "estimate_rows H key [] least = ret least"
| "estimate_rows H key (d # ds) least =
     bind_exec (cell H d key) (\<lambda>idx.
     bind_exec (gets (\<lambda>s. counter_at (counters s) idx)) (\<lambda>observed.
       estimate_rows H key ds (if observed < least then observed else least)))"

definition estimate :: "'k hashing \<Rightarrow> 'k \<Rightarrow> (count_min_sketch, u8) exec" where
  "estimate H key = estimate_rows H key [0..<SKETCH_DEPTH] (- 1)"

fun increment_rows :: "'k hashing \<Rightarrow> 'k \<Rightarrow> nat list \<Rightarrow> (count_min_sketch, unit) exec" where
  "increment_rows H key [] = ret ()"
| "increment_rows H key (d # ds) =
     bind_exec (cell H d key) (\<lambda>idx.
     seq_exec (modify (\<lambda>s. s\<lparr>counters := bump_counter (counters s) idx\<rparr>))
     (increment_rows H key ds))"

definition age :: "count_min_sketch \<Rightarrow> count_min_sketch" where
  "age s = s\<lparr>counters := map (drop_bit 1) (counters s)\<rparr>"

definition increment :: "'k hashing \<Rightarrow> 'k \<Rightarrow> (count_min_sketch, unit) exec" where
  "increment H key =
     seq_exec (increment_rows H key [0..<SKETCH_DEPTH])
     (seq_exec (modify (\<lambda>s. s\<lparr>samples := sat_add (samples s) 1\<rparr>))
     (modify (\<lambda>s. if sample_window s \<le> samples s then (age s)\<lparr>samples := 0\<rparr> else s)))"

definition cms_reset :: "count_min_sketch \<Rightarrow> count_min_sketch" where
  "cms_reset s = s\<lparr>counters := map (\<lambda>_. 0) (counters s), samples := 0\<rparr>"

subsection \<open>The shape of a sketch\<close>

text \<open>
  A sketch as its constructor shapes it: the width is not zero and four rows of it fit in a word,
  the vector holds exactly the four rows, and the window is at least 64 accesses long and not full.
\<close>

definition sketch_ok :: "count_min_sketch \<Rightarrow> bool" where
  "sketch_ok s \<longleftrightarrow> 0 < unat (width s) \<and> 4 * unat (width s) < 2 ^ 64 \<and> width_u64 s = width s \<and>
     length (counters s) = 4 * unat (width s) \<and>
     64 \<le> unat (sample_window s) \<and> unat (samples s) < unat (sample_window s)"

definition column :: "'k hashing \<Rightarrow> count_min_sketch \<Rightarrow> nat \<Rightarrow> 'k \<Rightarrow> nat" where
  "column H s d key = unat (hash_with_seed H key (of_nat d)) mod unat (width s)"

definition position :: "'k hashing \<Rightarrow> count_min_sketch \<Rightarrow> nat \<Rightarrow> 'k \<Rightarrow> nat" where
  "position H s d key = d * unat (width s) + column H s d key"

lemma column_lt: "sketch_ok s \<Longrightarrow> column H s d key < unat (width s)"
  by (simp add: column_def sketch_ok_def)

lemma position_lt:
  assumes "sketch_ok s" and "d < 4"
  shows "position H s d key < length (counters s)"
proof -
  have "d * unat (width s) + column H s d key < (d + 1) * unat (width s)"
    using column_lt [OF assms(1)] by simp
  also have "\<dots> \<le> 4 * unat (width s)" using assms(2) by (intro mult_le_mono1) simp
  finally show ?thesis using assms(1) by (simp add: position_def sketch_ok_def)
qed

lemma position_row:
  assumes "sketch_ok s" and "position H s d j = position H s e k"
  shows "d = e"
proof -
  have row: "(x * w + c) div w = x" if "c < w" for x w c :: nat
    using that by (cases "w = 0") simp_all
  have "position H s d j div unat (width s) = d" "position H s e k div unat (width s) = e"
    using row [OF column_lt [OF assms(1)]] by (simp_all only: position_def)
  with assms(2) show ?thesis by simp
qed

lemma cell_eq:
  assumes ok: "sketch_ok s" and d: "d < 4"
  shows "cell H d key s = (Done (of_nat (position H s d key)), s)"
    and "unat (of_nat (position H s d key) :: usize) = position H s d key"
proof -
  have lt: "position H s d key < 2 ^ 64"
    using position_lt [OF assms, of H key] ok by (simp add: sketch_ok_def)
  then show un: "unat (of_nat (position H s d key) :: usize) = position H s d key"
    by (simp add: unat_of_nat)
  have dw: "d * unat (width s) < 2 ^ 64" using lt by (simp add: position_def)
  have d': "unat (of_nat d :: usize) = d" using d by (simp add: unat_of_nat)
  have mul: "unat (sat_mul (of_nat d) (width s) :: usize) = d * unat (width s)"
    using dw d' by (simp add: sat_simps)
  have col: "unat (hash_with_seed H key (of_nat d) mod width s) = column H s d key"
    by (simp add: column_def unat_mod)
  have "unat (sat_add (sat_mul (of_nat d) (width s)) (hash_with_seed H key (of_nat d) mod width s)) = position H s d key"
    using lt by (simp add: unat_sat_add mul col) (simp add: position_def)
  then have "sat_add (sat_mul (of_nat d) (width s)) (hash_with_seed H key (of_nat d) mod width s) = of_nat (position H s d key)"
    using un by (simp only: word_unat_eq_iff)
  moreover have "width_u64 s \<noteq> 0" using ok by (auto simp: sketch_ok_def)
  ultimately show "cell H d key s = (Done (of_nat (position H s d key)), s)"
    using ok by (simp add: cell_def Let_def sketch_ok_def)
qed

lemma sketch_shape:
  "width s' = width s \<Longrightarrow> position H s' d k = position H s d k"
  by (simp add: position_def column_def)

subsection \<open>What the operations compute\<close>

text \<open>The least of the four counters of a key.\<close>

definition least_counter :: "'k hashing \<Rightarrow> count_min_sketch \<Rightarrow> 'k \<Rightarrow> u8" where
  "least_counter H s key = fold (\<lambda>d m. min (counters s ! position H s d key) m) [0..<4] (- 1)"

definition bumped :: "'k hashing \<Rightarrow> 'k \<Rightarrow> nat list \<Rightarrow> count_min_sketch \<Rightarrow> u8 list" where
  "bumped H key ds s = fold (\<lambda>d cs. bump_counter cs (of_nat (position H s d key))) ds (counters s)"

definition incremented :: "'k hashing \<Rightarrow> 'k \<Rightarrow> count_min_sketch \<Rightarrow> count_min_sketch" where
  "incremented H key s =
     (let t = s\<lparr>counters := bumped H key [0..<4] s, samples := sat_add (samples s) 1\<rparr>
      in if sample_window s \<le> samples t then (age t)\<lparr>samples := 0\<rparr> else t)"

lemma counter_at_position:
  assumes "sketch_ok s" and "d < 4"
  shows "counter_at (counters s) (of_nat (position H s d key)) = counters s ! position H s d key"
  using position_lt [OF assms, of H key] by (simp add: counter_at_def cell_eq(2) [OF assms])

lemma estimate_rows_eq:
  assumes "sketch_ok s" and "set ds \<subseteq> {..<4}"
  shows "estimate_rows H key ds least s =
    (Done (fold (\<lambda>d m. min (counters s ! position H s d key) m) ds least), s)"
  using assms
proof (induction ds arbitrary: least)
  case (Cons d ds)
  have "(if o' < l then o' else l) = min o' l" for o' l :: u8 by (auto simp: min_def)
  with Cons show ?case
    by (simp add: cell_eq(1) counter_at_position bind_exec_Done)
qed simp

lemma estimate_eq: "sketch_ok s \<Longrightarrow> estimate H key s = (Done (least_counter H s key), s)"
  unfolding estimate_def least_counter_def SKETCH_DEPTH_def by (rule estimate_rows_eq) auto

lemma unat_fold_min:
  "n \<le> unat (fold (\<lambda>d m. min (c d) m) ds least :: u8) \<longleftrightarrow> n \<le> unat least \<and> (\<forall>d \<in> set ds. n \<le> unat (c d))"
  by (induction ds arbitrary: least) (auto simp: min_def word_le_nat_alt)

lemma least_counter_ge:
  "n \<le> unat (least_counter H s key) \<longleftrightarrow> n \<le> 255 \<and> (\<forall>d < 4. n \<le> unat (counters s ! position H s d key))"
  unfolding least_counter_def unat_fold_min by (auto simp: unat_max)

lemma least_counter_le:
  "d < 4 \<Longrightarrow> unat (least_counter H s key) \<le> unat (counters s ! position H s d key)"
  using least_counter_ge [of "unat (least_counter H s key)" H s key] by simp

lemma length_bump [simp]: "length (bump_counter cs i) = length cs"
  by (simp add: bump_counter_def)

lemma length_bumped [simp]: "length (bumped H key ds s) = length (counters s)"
proof -
  have "length (fold (\<lambda>d cs. bump_counter cs (p d)) ds cs) = length cs" for p ds and cs :: "u8 list"
    by (induction ds arbitrary: cs) simp_all
  then show ?thesis by (simp add: bumped_def)
qed

lemma increment_rows_eq:
  assumes "sketch_ok s" and "set ds \<subseteq> {..<4}"
  shows "increment_rows H key ds s = (Done (), s\<lparr>counters := bumped H key ds s\<rparr>)"
  using assms
proof (induction ds arbitrary: s)
  case Nil
  then show ?case by (simp add: bumped_def)
next
  case (Cons d ds)
  let ?s = "s\<lparr>counters := bump_counter (counters s) (of_nat (position H s d key))\<rparr>"
  have ok: "sketch_ok ?s" using Cons.prems(1) by (simp add: sketch_ok_def)
  have "bumped H key ds ?s = bumped H key (d # ds) s"
    by (simp add: bumped_def position_def column_def)
  with Cons ok show ?case by (simp add: cell_eq(1) bind_exec_Done)
qed

lemma increment_eq:
  assumes "sketch_ok s"
  shows "increment H key s = (Done (), incremented H key s)"
proof -
  have "increment_rows H key [0..<4] s = (Done (), s\<lparr>counters := bumped H key [0..<4] s\<rparr>)"
    using assms by (intro increment_rows_eq) auto
  then show ?thesis
    by (simp add: increment_def SKETCH_DEPTH_def seq_exec_Done incremented_def Let_def age_def)
qed

text \<open>Each of the key's four counters goes up by one, and no other.\<close>

lemma nth_bumped:
  assumes ok: "sketch_ok s" and ds: "set ds \<subseteq> {..<4}" "distinct ds" and i: "i < length (counters s)"
  shows "bumped H key ds s ! i =
    (if i \<in> (\<lambda>d. position H s d key) ` set ds then sat_add (counters s ! i) 1 else counters s ! i)"
  using ds
proof (induction ds rule: rev_induct)
  case Nil
  then show ?case by (simp add: bumped_def)
next
  case (snoc d ds)
  have d: "d < 4" using snoc.prems by simp
  have bump: "bumped H key (ds @ [d]) s = bump_counter (bumped H key ds s) (of_nat (position H s d key))"
    by (simp add: bumped_def)
  have new: "position H s d key \<notin> (\<lambda>e. position H s e key) ` set ds"
    using snoc.prems(2) position_row [OF ok] by fastforce
  show ?case
    using snoc new i position_lt [OF ok d, of H key]
    by (auto simp: bump bump_counter_def cell_eq(2) [OF ok d] nth_list_update)
qed

lemma unat_bumped:
  assumes ok: "sketch_ok s" and d: "d < 4"
  shows "unat (bumped H key [0..<4] s ! position H s d j) =
    (if position H s d j = position H s d key
     then min (Suc (unat (counters s ! position H s d j))) 255
     else unat (counters s ! position H s d j))"
proof -
  have "position H s d j \<in> (\<lambda>e. position H s e key) ` set [0..<4] \<longleftrightarrow> position H s d j = position H s d key"
    using d position_row [OF ok] by fastforce
  moreover have "bumped H key [0..<4] s ! position H s d j =
      (if position H s d j \<in> (\<lambda>e. position H s e key) ` set [0..<4]
       then sat_add (counters s ! position H s d j) 1 else counters s ! position H s d j)"
    by (rule nth_bumped [OF ok _ _ position_lt [OF ok d]]) auto
  ultimately show ?thesis by (simp add: unat_sat_add)
qed

lemma unat_halve: "unat (drop_bit 1 (c :: u8)) = unat c div 2"
  by (simp add: unat_drop_bit_eq drop_bit_Suc unat_div)

end
