(* ===== verification/Sketch_Counts.thy ===== *)
theory Sketch_Counts
  imports Sketch Cache_Contract
begin

section \<open>The Count-Min Sketch of TinyLfuCache: its properties\<close>

text \<open>
  The sketch is compared with exact counts kept per key: \<open>exact_step\<close> counts an access (up to 255)
  and halves every count when the window is full. Whatever the hash function, the estimate of a key
  is never below its exact count, and it equals it as soon as one row is free of collisions.
\<close>

subsection \<open>The shape of a new sketch\<close>

lemma next_power_of_two_small:
  assumes "0 < unat n" and "unat n \<le> 2 ^ 63"
  obtains j where "j < 64" and "unat (next_power_of_two n) = 2 ^ j" and "unat n \<le> 2 ^ j"
    and "2 ^ j < 2 * unat n"
proof -
  let ?P = "\<lambda>k. unat n \<le> 2 ^ k"
  obtain j where j: "find ?P [0..<64] = Some j"
    using assms(2) by (cases "find ?P [0..<64]") (auto simp: find_None_iff dest!: spec [of _ 63])
  then have "j < 64" "unat n \<le> 2 ^ j" "\<forall>i < j. \<not> ?P i"
    by (auto simp: find_Some_iff nth_append)
  moreover have "2 ^ j < 2 * unat n"
    using assms(1) calculation(3) by (cases j) auto
  moreover have "unat (next_power_of_two n) = 2 ^ j"
    using j \<open>j < 64\<close> by (simp add: next_power_of_two_def unat_two_power)
  ultimately show ?thesis using that by blast
qed

lemma cms_new_shape:
  assumes "unat cap < 2 ^ 60"
  shows "sketch_ok (cms_new cap)"
    and "unat (sample_window (cms_new cap)) = max (10 * unat cap) 64"
    and "\<exists>j. unat (width (cms_new cap)) = 2 ^ j"
    and "max (2 * unat cap) 64 \<le> unat (width (cms_new cap))"
    and "unat (width (cms_new cap)) < 2 * max (2 * unat cap) 64"
    and "set (counters (cms_new cap)) = {0}"
proof -
  let ?n = "max (sat_mul cap 2) MIN_SKETCH_WIDTH"
  have n: "unat ?n = max (2 * unat cap) 64"
    using assms by (simp add: max_def MIN_SKETCH_WIDTH_def word_le_nat_alt unat_sat_mul)
  then have "0 < unat ?n" "unat ?n \<le> 2 ^ 63" using assms by simp_all
  then obtain j where j: "j < 64" "unat (next_power_of_two ?n) = 2 ^ j" "unat ?n \<le> 2 ^ j"
      "2 ^ j < 2 * unat ?n"
    by (rule next_power_of_two_small)
  have w: "width (cms_new cap) = next_power_of_two ?n" by (simp add: cms_new_def Let_def)
  show "\<exists>j. unat (width (cms_new cap)) = 2 ^ j" unfolding w using j(2) by blast
  show ge: "max (2 * unat cap) 64 \<le> unat (width (cms_new cap))"
    and lt: "unat (width (cms_new cap)) < 2 * max (2 * unat cap) 64"
    unfolding w using j(2-4) n by simp_all
  show win: "unat (sample_window (cms_new cap)) = max (10 * unat cap) 64"
    using assms by (simp add: cms_new_def Let_def max_def word_le_nat_alt unat_sat_mul)
  have small: "4 * unat (width (cms_new cap)) < 2 ^ 64" using lt assms by simp
  then have len: "length (counters (cms_new cap)) = 4 * unat (width (cms_new cap))"
    unfolding w by (simp add: cms_new_def Let_def SKETCH_DEPTH_def unat_sat_mul)
  have "samples (cms_new cap) = 0" "width_u64 (cms_new cap) = width (cms_new cap)"
    by (simp_all add: cms_new_def Let_def)
  then show "sketch_ok (cms_new cap)"
    using small len win ge by (simp add: sketch_ok_def)
  have "counters (cms_new cap) \<noteq> []" using len ge by auto
  then show "set (counters (cms_new cap)) = {0}"
    by (auto simp: cms_new_def Let_def)
qed

lemma per_shard_small: "cap \<noteq> 0 \<Longrightarrow> unat (per_shard_capacity cap (shard_count cap)) < 2 ^ 60"
proof -
  assume "cap \<noteq> 0"
  moreover have "unat cap < 2 ^ 64" by (rule unat_bounds)
  ultimately show ?thesis by (auto simp: unat_per_shard_count unat_shard_count)
qed

subsection \<open>Increments keep the shape\<close>

lemma incremented_shape [simp]:
  "width (incremented H key s) = width s" "width_u64 (incremented H key s) = width_u64 s"
  "sample_window (incremented H key s) = sample_window s"
  "length (counters (incremented H key s)) = length (counters s)"
  by (simp_all add: incremented_def Let_def age_def)

lemma unat_samples:
  assumes "sketch_ok s"
  shows "unat (sat_add (samples s) 1) = Suc (unat (samples s))"
proof -
  have "unat (sample_window s) < 2 ^ 64" by (rule unat_bounds)
  with assms show ?thesis by (simp add: unat_sat_add sketch_ok_def)
qed

lemma incremented_samples:
  assumes "sketch_ok s"
  shows "unat (samples (incremented H key s)) =
    (if unat (sample_window s) \<le> Suc (unat (samples s)) then 0 else Suc (unat (samples s)))"
  using unat_samples [OF assms] by (simp add: incremented_def Let_def word_le_nat_alt)

lemma incremented_ok: "sketch_ok s \<Longrightarrow> sketch_ok (incremented H key s)"
  by (auto simp: sketch_ok_def incremented_samples [unfolded sketch_ok_def])

lemma cms_reset_ok: "sketch_ok s \<Longrightarrow> sketch_ok (cms_reset s)"
  by (auto simp: sketch_ok_def cms_reset_def)

lemma incremented_counter:
  assumes "sketch_ok s" and "d < 4"
  shows "unat (counters (incremented H key s) ! position H s d j) =
    (let c = unat (counters s ! position H s d j);
         c' = (if position H s d j = position H s d key then min (Suc c) 255 else c)
     in if unat (sample_window s) \<le> Suc (unat (samples s)) then c' div 2 else c')"
  using unat_bumped [OF assms, of H key j] position_lt [OF assms, of H j] unat_samples [OF assms(1)]
  by (simp add: incremented_def Let_def age_def word_le_nat_alt unat_halve [unfolded One_nat_def])

subsection \<open>Exact counts\<close>

text \<open>
  The reference: the number of accesses since the last halving and one count per key, for a given
  window; and the counts after a sequence of accesses from the start.
\<close>

fun exact_step :: "nat \<Rightarrow> 'k \<Rightarrow> nat \<times> ('k \<Rightarrow> nat) \<Rightarrow> nat \<times> ('k \<Rightarrow> nat)" where
  "exact_step window k (n, f) =
     (let g = f(k := min (Suc (f k)) 255)
      in if window \<le> Suc n then (0, \<lambda>j. g j div 2) else (Suc n, g))"

definition exact_count :: "nat \<Rightarrow> 'k list \<Rightarrow> 'k \<Rightarrow> nat" where
  "exact_count window ks = snd (fold (exact_step window) ks (0, \<lambda>_. 0))"

definition exact_window :: "usize \<Rightarrow> nat" where
  "exact_window cap = max (10 * unat cap) 64"

lemma halve_related:
  fixes g c :: nat
  assumes "g \<le> c \<and> (P \<longrightarrow> g = c)" and "v = (if b then c div 2 else c)"
    and "w = (if b then g div 2 else g)"
  shows "w \<le> v \<and> (P \<longrightarrow> w = v)"
  using assms by (auto intro: div_le_mono)

text \<open>A row dominates the exact counts, and agrees with them on a key that shares its cell with no other.\<close>

definition row_tracks :: "'k hashing \<Rightarrow> count_min_sketch \<Rightarrow> 'k set \<Rightarrow> nat \<times> ('k \<Rightarrow> nat) \<Rightarrow> bool" where
  "row_tracks H s S nf \<longleftrightarrow> unat (samples s) = fst nf \<and>
     (\<forall>d < 4. \<forall>k. snd nf k \<le> unat (counters s ! position H s d k) \<and>
        ((\<forall>j \<in> S. position H s d j = position H s d k \<longrightarrow> j = k) \<longrightarrow>
           snd nf k = unat (counters s ! position H s d k)))"

lemma row_tracks_step:
  assumes ok: "sketch_ok s" and tracks: "row_tracks H s S nf" and "k \<in> S"
    and window: "unat (sample_window s) = window"
  shows "row_tracks H (incremented H k s) S (exact_step window k nf)"
proof -
  obtain n f where nf: "nf = (n, f)" by (cases nf)
  let ?g = "f(k := min (Suc (f k)) 255)" and ?s = "incremented H k s"
  have n: "unat (samples s) = n" using tracks nf by (simp add: row_tracks_def)
  have step: "exact_step window k nf = (if window \<le> Suc n then (0, \<lambda>j. ?g j div 2) else (Suc n, ?g))"
    by (simp add: nf Let_def)
  have pos: "position H ?s d j = position H s d j" for d j by (rule sketch_shape) simp
  have cell: "snd (exact_step window k nf) j \<le> unat (counters ?s ! position H s d j) \<and>
      ((\<forall>i \<in> S. position H s d i = position H s d j \<longrightarrow> i = j) \<longrightarrow>
        snd (exact_step window k nf) j = unat (counters ?s ! position H s d j))" if d: "d < 4" for d j
  proof -
    let ?c = "\<lambda>j. unat (counters s ! position H s d j)"
    let ?c' = "if position H s d j = position H s d k then min (Suc (?c j)) 255 else ?c j"
    have base: "f i \<le> ?c i" "(\<forall>l \<in> S. position H s d l = position H s d i \<longrightarrow> l = i) \<Longrightarrow> f i = ?c i" for i
      using tracks d nf by (auto simp: row_tracks_def)
    have "?g j \<le> ?c' \<and> ((\<forall>i \<in> S. position H s d i = position H s d j \<longrightarrow> i = j) \<longrightarrow> ?g j = ?c')"
    proof (cases "j = k")
      case True
      have "min (Suc (f k)) 255 \<le> min (Suc (?c k)) 255" using base(1) [of k] by (intro min.mono) simp_all
      with True base(2) [of k] show ?thesis by simp
    next
      case False
      with base [of j] \<open>k \<in> S\<close> unat_bounds(2) [of "counters s ! position H s d j"] show ?thesis by auto
    qed
    moreover have "unat (counters ?s ! position H s d j) = (if window \<le> Suc n then ?c' div 2 else ?c')"
      using incremented_counter [OF ok d, of H k j] by (simp only: window n Let_def)
    moreover have "snd (exact_step window k nf) j = (if window \<le> Suc n then ?g j div 2 else ?g j)"
      by (simp only: step split: if_split) simp
    ultimately show ?thesis by (rule halve_related)
  qed
  have "unat (samples ?s) = fst (exact_step window k nf)"
    unfolding step using incremented_samples [OF ok, of H k] by (simp only: window n fst_conv split: if_split) simp
  with cell show ?thesis unfolding row_tracks_def pos by blast
qed

lemma increments_track:
  assumes "sketch_ok s" and "row_tracks H s S nf" and "set ks \<subseteq> S"
    and "unat (sample_window s) = window"
  shows "\<exists>s'. run_calls (increment H) ks s = (Done (), s') \<and> sketch_ok s' \<and>
    width s' = width s \<and> row_tracks H s' S (fold (exact_step window) ks nf)"
  using assms
proof (induction ks arbitrary: s nf)
  case (Cons k ks)
  let ?s = "incremented H k s"
  have "row_tracks H ?s S (exact_step window k nf)"
    using Cons.prems by (intro row_tracks_step) auto
  moreover have "sketch_ok ?s" using Cons.prems(1) by (rule incremented_ok)
  ultimately obtain s' where "run_calls (increment H) ks ?s = (Done (), s')" "sketch_ok s'"
      "width s' = width ?s" "row_tracks H s' S (fold (exact_step window) ks (exact_step window k nf))"
    using Cons.IH [of ?s "exact_step window k nf"] Cons.prems(3,4) by auto
  then show ?case
    using seq_exec_Done [of "increment H k" s "()" ?s "run_calls (increment H) ks"]
      increment_eq [OF Cons.prems(1), of H k] by simp
qed simp

lemma new_tracks: "unat cap < 2 ^ 60 \<Longrightarrow> row_tracks H (cms_new cap) S (0, \<lambda>_. 0)"
proof -
  assume cap: "unat cap < 2 ^ 60"
  have "counters (cms_new cap) ! position H (cms_new cap) d k = 0" if "d < 4" for d k
    using position_lt [OF cms_new_shape(1) [OF cap] that, of H k] cms_new_shape(6) [OF cap]
    by (metis nth_mem singletonD)
  moreover have "samples (cms_new cap) = 0" by (simp add: cms_new_def Let_def)
  ultimately show ?thesis by (simp add: row_tracks_def)
qed

subsection \<open>One key against another\<close>

text \<open>
  When only \<open>k\<close> is accessed, its estimate \<open>c\<close>, the counter \<open>v\<close> of another key in a row they do not
  share, and the number \<open>n\<close> of samples evolve by \<open>duel\<close>; within three windows the estimate wins.
\<close>

fun duel :: "nat \<Rightarrow> nat \<times> nat \<times> nat \<Rightarrow> nat \<times> nat \<times> nat" where
  "duel w (n, c, v) =
     (let c' = min (Suc c) 255
      in if w \<le> Suc n then (0, c' div 2, v div 2) else (Suc n, c', v))"

lemma duel_within:
  assumes "c \<le> 255" and "n + j < w"
  shows "(duel w ^^ j) (n, c, v) = (n + j, min (c + j) 255, v)"
  using assms(2)
proof (induction j)
  case 0
  then show ?case using assms(1) by simp
next
  case (Suc j)
  then show ?case by (simp add: Let_def min_def)
qed

lemma duel_phase:
  assumes "c \<le> 255" and "n < w"
  shows "(duel w ^^ (w - n)) (n, c, v) = (0, min (c + (w - n)) 255 div 2, v div 2)"
proof -
  obtain j where j: "w = n + Suc j" using assms(2) less_iff_Suc_add [of n w] by auto
  then have "(duel w ^^ j) (n, c, v) = (n + j, min (c + j) 255, v)"
    using assms(1) by (intro duel_within) simp_all
  with j show ?thesis by (simp add: Let_def min_def)
qed

lemma duel_won:
  assumes "64 \<le> w" and "n < w" and "c \<le> 255" and "v \<le> 255"
  obtains m n' c' v' where "0 < m" and "m \<le> 3 * w" and "(duel w ^^ m) (n, c, v) = (n', c', v')"
    and "v' < c'"
proof -
  let ?c1 = "min (c + (w - n)) 255 div 2"
  let ?c2 = "min (?c1 + w) 255 div 2"
  have 1: "(duel w ^^ (w - n)) (n, c, v) = (0, ?c1, v div 2)" using assms by (intro duel_phase)
  have half: "min x 255 div 2 \<le> 255" for x :: nat
    by (rule order_trans [OF div_le_dividend]) (rule min.cobounded2)
  have w: "0 < w" "0 + 32 < w" using assms(1) by linarith+
  have 2: "(duel w ^^ w) (0, ?c1, v div 2) = (0, ?c2, v div 2 div 2)"
    using duel_phase [OF half w(1)] by (simp only: diff_zero)
  have 3: "(duel w ^^ 32) (0, ?c2, v div 2 div 2) = (32, min (?c2 + 32) 255, v div 2 div 2)"
    using duel_within [OF half w(2)] by (simp only: add_0)
  have run: "(duel w ^^ (32 + (w + (w - n)))) (n, c, v) = (32, min (?c2 + 32) 255, v div 2 div 2)"
    by (simp only: funpow_add comp_apply 1 2 3)
  have won: "v div 2 div 2 < min (?c2 + 32) 255"
  proof -
    have less: "y < min (x + 32) 255" if "32 \<le> x" "y \<le> 63" for x y :: nat using that by simp
    have "64 \<le> min (x + w) 255" for x using assms(1) by simp
    then have "64 div 2 \<le> ?c2" by (rule div_le_mono)
    moreover have "(64 :: nat) div 2 = 32" by simp
    ultimately have "32 \<le> ?c2" by (simp only:)
    moreover have "v div 2 div 2 \<le> 63" using assms(4) by simp
    ultimately show ?thesis by (rule less)
  qed
  have "32 + (w + (w - n)) \<le> 3 * w" using assms(1) by simp
  with that [OF _ _ run won] show ?thesis by simp
qed

lemma least_counter_attained:
  obtains d where "d < 4" and "unat (counters s ! position H s d k) = unat (least_counter H s k)"
proof -
  let ?m = "unat (least_counter H s k)"
  have "\<exists>d < 4. unat (counters s ! position H s d k) \<le> ?m"
  proof (rule ccontr)
    assume "\<not> ?thesis"
    then have gt: "\<forall>d < 4. Suc ?m \<le> unat (counters s ! position H s d k)" by auto
    then have "Suc ?m \<le> 255"
      using unat_bounds(2) [of "counters s ! position H s 0 k"] order_trans by fastforce
    with gt have "Suc ?m \<le> ?m" by (simp add: least_counter_ge)
    then show False by simp
  qed
  then show ?thesis using that least_counter_le [of _ H s k] by (metis order_antisym)
qed

lemma least_counter_incremented:
  assumes ok: "sketch_ok s"
  shows "unat (least_counter H (incremented H k s) k) =
    (let c' = min (Suc (unat (least_counter H s k))) 255
     in if unat (sample_window s) \<le> Suc (unat (samples s)) then c' div 2 else c')"
proof -
  let ?h = "\<lambda>c. if unat (sample_window s) \<le> Suc (unat (samples s)) then min (Suc c) 255 div 2 else min (Suc c) 255"
  let ?s = "incremented H k s" and ?m = "unat (least_counter H s k)"
  have pos: "position H ?s d j = position H s d j" for d j by (rule sketch_shape) simp
  have cell: "unat (counters ?s ! position H s d k) = ?h (unat (counters s ! position H s d k))" if "d < 4" for d
    using incremented_counter [OF ok that, of H k k] by (simp only: Let_def simp_thms if_True)
  have mono: "?h a \<le> ?h b" if "a \<le> b" for a b
  proof -
    have "min (Suc a) 255 \<le> min (Suc b) 255" using that by simp
    then show ?thesis by (simp only: div_le_mono split: if_split) simp
  qed
  obtain d where d: "d < 4" "unat (counters s ! position H s d k) = ?m" by (rule least_counter_attained)
  have "unat (least_counter H ?s k) \<le> ?h ?m"
    using least_counter_le [OF d(1), of H ?s k] cell [OF d(1)] d(2) by (simp only: pos)
  moreover have "?h ?m \<le> unat (least_counter H ?s k)"
  proof -
    have "min (Suc ?m) 255 \<le> 255" by simp
    then have "?h ?m \<le> 255" using div_le_dividend [of "min (Suc ?m) 255" 2]
      by (auto intro: order_trans)
    moreover have "?h ?m \<le> unat (counters ?s ! position H ?s e k)" if "e < 4" for e
      unfolding pos cell [OF that] using that by (intro mono least_counter_le)
    ultimately show ?thesis by (simp only: least_counter_ge) blast
  qed
  ultimately show ?thesis by (simp only: Let_def)
qed

definition duel_state :: "'k hashing \<Rightarrow> nat \<Rightarrow> 'k \<Rightarrow> 'k \<Rightarrow> count_min_sketch \<Rightarrow> nat \<times> nat \<times> nat" where
  "duel_state H d k u s =
     (unat (samples s), unat (least_counter H s k), unat (counters s ! position H s d u))"

lemma duel_incremented:
  assumes ok: "sketch_ok s" and "d < 4" and "column H s d u \<noteq> column H s d k"
  shows "duel_state H d k u (incremented H k s) = duel (unat (sample_window s)) (duel_state H d k u s)"
proof -
  have "position H (incremented H k s) d u = position H s d u" by (rule sketch_shape) simp
  moreover have "position H s d u \<noteq> position H s d k" using assms(3) by (simp add: position_def)
  ultimately show ?thesis
    using incremented_counter [OF ok assms(2), of H k u] incremented_samples [OF ok, of H k]
      least_counter_incremented [OF ok, of H k]
    by (simp add: duel_state_def Let_def)
qed

lemma increments_win:
  assumes ok: "sketch_ok s" and d: "d < 4" and col: "column H s d u \<noteq> column H s d k"
  obtains m where "m \<le> 3 * unat (sample_window s)" and "0 < m"
    and "least_counter H ((incremented H k ^^ m) s) u < least_counter H ((incremented H k ^^ m) s) k"
proof -
  let ?w = "unat (sample_window s)" and ?s = "\<lambda>m. (incremented H k ^^ m) s"
  have step: "sketch_ok (?s m) \<and> width (?s m) = width s \<and> sample_window (?s m) = sample_window s \<and>
      duel_state H d k u (?s m) = (duel ?w ^^ m) (duel_state H d k u s)" for m
  proof (induction m)
    case (Suc m)
    have "column H (?s m) d u \<noteq> column H (?s m) d k" using Suc col by (simp add: column_def)
    with Suc show ?case using duel_incremented [of "?s m" d H u k] d by (simp add: incremented_ok)
  qed (simp add: ok)
  have "64 \<le> ?w" "unat (samples s) < ?w" using ok by (simp_all add: sketch_ok_def)
  from duel_won [OF this unat_bounds(2) unat_bounds(2)] obtain m n' c' v'
    where m: "0 < m" "m \<le> 3 * ?w" "v' < c'" "(duel ?w ^^ m) (duel_state H d k u s) = (n', c', v')"
    unfolding duel_state_def by metis
  then have "duel_state H d k u (?s m) = (n', c', v')" using step by simp
  then have "unat (least_counter H (?s m) k) = c'" "unat (least_counter H (?s m) u) \<le> v'"
    using least_counter_le [OF d, of H "?s m" u] by (simp_all add: duel_state_def)
  with m(3) have "least_counter H (?s m) u < least_counter H (?s m) k" by (simp add: word_less_nat_alt)
  then show ?thesis using that m(1,2) by blast
qed

subsection \<open>Properties\<close>

text \<open>
  \<^bold>\<open>C29.\<close> The shape of every shard's sketch, for every non-zero capacity of the cache: no arithmetic
  saturates or wraps, the width is a power of two, at least 64 and at least twice the shard's
  capacity but less than twice that bound, the table has exactly four rows, all zero, and the
  counters are halved every ten capacities (at least 64) of accesses.
\<close>

theorem cms_layout:
  assumes "cap \<noteq> 0"
  defines "p \<equiv> per_shard_capacity cap (shard_count cap)"
  shows "sketch_ok (cms_new p) \<and> (\<exists>j. unat (width (cms_new p)) = 2 ^ j) \<and>
    max (2 * unat p) 64 \<le> unat (width (cms_new p)) \<and>
    unat (width (cms_new p)) < 2 * max (2 * unat p) 64 \<and>
    length (counters (cms_new p)) = 4 * unat (width (cms_new p)) \<and> set (counters (cms_new p)) = {0} \<and>
    unat (sample_window (cms_new p)) = exact_window p"
  using cms_new_shape [OF per_shard_small [OF assms(1)]] unfolding p_def exact_window_def
  by (simp add: sketch_ok_def)

theorem cms_layout_witness:
  "(100 :: usize) \<noteq> 0 \<and> sketch_ok (cms_new 25) \<and> 64 \<le> unat (width (cms_new 25)) \<and>
   unat (width (cms_new 25)) < 128"
proof -
  have "unat (per_shard_capacity 100 (shard_count 100)) = 25"
    by (simp add: unat_per_shard_count unat_shard_count)
  then have "per_shard_capacity 100 (shard_count 100) = 25" by (simp add: word_unat_eq_iff)
  then show ?thesis using cms_layout [of 100] by simp
qed

text \<open>
  \<^bold>\<open>C22.\<close> The sketch never underestimates. After any sequence of accesses on a new sketch, halvings
  included and whatever the hash function, recording them has not panicked, the estimate of every
  key is at least its exact count, and the estimate changes nothing.
\<close>

theorem cms_never_underestimates:
  assumes "unat cap < 2 ^ 60"
  shows "runs_to (run_calls (increment H) ks) (cms_new cap) (\<lambda>_ s. \<forall>k.
    runs_to (estimate H k) s (\<lambda>e t. exact_count (exact_window cap) ks k \<le> unat e \<and> t = s))"
proof -
  note new = cms_new_shape [OF assms]
  obtain s where s: "run_calls (increment H) ks (cms_new cap) = (Done (), s)" "sketch_ok s"
      "row_tracks H s (set ks) (fold (exact_step (exact_window cap)) ks (0, \<lambda>_. 0))"
    using increments_track [OF new(1) new_tracks [OF assms] subset_refl, of "exact_window cap" H ks]
      new(2) by (auto simp: exact_window_def)
  have "exact_count (exact_window cap) ks k \<le> unat (least_counter H s k)" for k
  proof -
    have *: "exact_count (exact_window cap) ks k \<le> unat (counters s ! position H s d k)" if "d < 4" for d
      using s(3) that by (simp add: row_tracks_def exact_count_def)
    have "exact_count (exact_window cap) ks k \<le> 255"
      using * [of 0] unat_bounds(2) [of "counters s ! position H s 0 k"] by simp
    with * show ?thesis by (simp add: least_counter_ge)
  qed
  with s show ?thesis by (auto simp: runs_to_def estimate_eq)
qed

theorem cms_never_underestimates_witness:
  "runs_to (run_calls (increment sample_hashing) [5, 7, 5]) (cms_new 8) (\<lambda>_ s.
     runs_to (estimate sample_hashing 5) s (\<lambda>e t. 2 \<le> unat e))"
proof -
  have "exact_count (exact_window 8) [5, 7, 5 :: nat] 5 = 2"
    by (simp add: exact_count_def exact_window_def Let_def)
  then show ?thesis
    using cms_never_underestimates [of 8 sample_hashing "[5, 7, 5]"]
    by (fastforce elim: runs_to_mono)
qed

text \<open>
  \<^bold>\<open>C23.\<close> Without collisions the sketch counts exactly. If in some row no other accessed key falls
  into the cell of \<open>k\<close>, the estimate of \<open>k\<close> after any sequence of accesses is its exact count:
  accesses up to 255, halved at the end of every window.
\<close>

theorem cms_exact_without_collisions:
  assumes "unat cap < 2 ^ 60" and "d < 4"
    and "\<forall>j \<in> set ks. column H (cms_new cap) d j = column H (cms_new cap) d k \<longrightarrow> j = k"
  shows "runs_to (run_calls (increment H) ks) (cms_new cap) (\<lambda>_ s.
    runs_to (estimate H k) s (\<lambda>e t. unat e = exact_count (exact_window cap) ks k))"
proof -
  note new = cms_new_shape [OF assms(1)]
  obtain s where s: "run_calls (increment H) ks (cms_new cap) = (Done (), s)" "sketch_ok s"
      "width s = width (cms_new cap)"
      "row_tracks H s (set ks) (fold (exact_step (exact_window cap)) ks (0, \<lambda>_. 0))"
    using increments_track [OF new(1) new_tracks [OF assms(1)] subset_refl, of "exact_window cap" H ks]
      new(2) by (auto simp: exact_window_def)
  let ?n = "exact_count (exact_window cap) ks k"
  have ge: "?n \<le> unat (counters s ! position H s e k)" if "e < 4" for e
    using s(4) that by (simp add: row_tracks_def exact_count_def)
  have "\<forall>j \<in> set ks. position H s d j = position H s d k \<longrightarrow> j = k"
    using assms(3) s(3) by (simp add: position_def column_def)
  then have eq: "?n = unat (counters s ! position H s d k)"
    using s(4) assms(2) by (simp add: row_tracks_def exact_count_def)
  have "?n \<le> unat (least_counter H s k)"
    using ge eq unat_bounds(2) [of "counters s ! position H s d k"] by (simp add: least_counter_ge)
  then have "unat (least_counter H s k) = ?n"
    using least_counter_le [OF assms(2), of H s k] eq by simp
  with s(1,2) show ?thesis by (simp add: runs_to_def estimate_eq)
qed

lemma sample_width: "width (cms_new 8) = 64"
  by (simp add: cms_new_def Let_def MIN_SKETCH_WIDTH_def sat_mul_def next_power_of_two_def upt_rec)

theorem cms_exact_without_collisions_witness:
  "runs_to (run_calls (increment sample_hashing) [5, 7, 5]) (cms_new 8) (\<lambda>_ s.
     runs_to (estimate sample_hashing 5) s (\<lambda>e t. unat e = 2))"
proof -
  have count: "exact_count (exact_window 8) [5, 7, 5 :: nat] 5 = 2"
    by (simp add: exact_count_def exact_window_def Let_def)
  have "column sample_hashing (cms_new 8) 0 7 \<noteq> column sample_hashing (cms_new 8) 0 5"
    by (simp add: column_def sample_width hash_with_seed_def sample_hashing_def u64_bytes_def upt_rec)
  then show ?thesis
    using cms_exact_without_collisions [of 8 0 "[5, 7, 5]" sample_hashing 5] count
    by (fastforce elim: runs_to_mono)
qed

end
