(* ===== verification/Tinylfu.thy ===== *)
theory Tinylfu
  imports Arena_Steps Sketch_Counts
begin

section \<open>TinyLfuCache: the model\<close>

text \<open>
  \<open>src/tinylfu.rs\<close>. A shard is an arena with a capacity, as in \<open>LruCache\<close>, and a Count-Min Sketch.
  Every \<open>get\<close> and \<open>insert\<close> first records the key in the sketch; an insert of a new key into a full
  shard is admitted only if its estimate exceeds that of the least recently used key. The helpers of
  \<open>Inner\<close> repeat those of \<open>lru.rs\<close> text for text and are the arena's operations at this type. The
  early return of \<open>inner.tail?\<close> and the rejection both end the insert with \<open>None\<close>; \<open>tlfu_admit\<close>
  returns false for them.
\<close>

record ('k, 'v) tlfu_inner = "('k, 'v, unit) arena" +
  tlfu_capacity :: usize
  sketch :: count_min_sketch

type_synonym ('k, 'v) tlfu_cache = "('k, 'v) tlfu_inner cache"

type_synonym ('k, 'v) tlfu_node = "('k, 'v, unit) node_scheme"

definition tlfu_inner_with_capacity :: "usize \<Rightarrow> ('k, 'v) tlfu_inner" where
  "tlfu_inner_with_capacity cap =
     \<lparr>nodes = [], free = [], head = None, tail = None, key_map = hm_empty, tlfu_capacity = cap,
      sketch = cms_new cap\<rparr>"

definition tlfu_alloc :: "('k, 'v) tlfu_node \<Rightarrow> (('k, 'v) tlfu_inner, nat) exec" where
  "tlfu_alloc = alloc"

definition tlfu_dealloc :: "nat \<Rightarrow> (('k, 'v) tlfu_inner, ('k, 'v) tlfu_node) exec" where
  "tlfu_dealloc = dealloc"

definition tlfu_unlink :: "nat \<Rightarrow> (('k, 'v) tlfu_inner, unit) exec" where
  "tlfu_unlink = unlink"

definition tlfu_push_front :: "nat \<Rightarrow> (('k, 'v) tlfu_inner, unit) exec" where
  "tlfu_push_front = push_front"

definition tlfu_promote :: "nat \<Rightarrow> (('k, 'v) tlfu_inner, unit) exec" where
  "tlfu_promote = promote"

lemmas tlfu_helpers = tlfu_alloc_def tlfu_dealloc_def tlfu_unlink_def tlfu_push_front_def
  tlfu_promote_def

text \<open>A call of a method of the shard's sketch.\<close>

definition on_sketch :: "(count_min_sketch, 'a) exec \<Rightarrow> (('k, 'v) tlfu_inner, 'a) exec" where
  "on_sketch f s = (case f (sketch s) of (r, sk) \<Rightarrow> (r, s\<lparr>sketch := sk\<rparr>))"

subsection \<open>The bodies of the methods, under the lock\<close>

definition tlfu_get_inner :: "'k hashing \<Rightarrow> 'k \<Rightarrow> (('k, 'v) tlfu_inner, 'v option) exec" where
  "tlfu_get_inner H key =
     seq_exec (on_sketch (increment H key))
     (bind_exec (gets (\<lambda>s. hm_get (key_map s) key)) (\<lambda>found. case found of
       None \<Rightarrow> ret None
     | Some idx \<Rightarrow>
         seq_exec (tlfu_promote idx)
         (bind_exec (slot idx) (\<lambda>n. ret (map_option node_value n)))))"

definition tlfu_admit :: "'k hashing \<Rightarrow> 'k \<Rightarrow> (('k, 'v) tlfu_inner, bool) exec" where
  "tlfu_admit H key =
     bind_exec (gets (\<lambda>s. unat (tlfu_capacity s) \<le> hm_len (key_map s))) (\<lambda>full.
       if full then
         bind_exec (on_sketch (estimate H key)) (\<lambda>candidate_freq.
         bind_exec (gets tail) (\<lambda>t. case t of
           None \<Rightarrow> ret False
         | Some tail_idx \<Rightarrow>
             bind_exec (occupied tail_idx) (\<lambda>n.
             let victim_key = node_key n in
             bind_exec (on_sketch (estimate H victim_key)) (\<lambda>victim_freq.
             if candidate_freq \<le> victim_freq then ret False
             else
               seq_exec (tlfu_unlink tail_idx)
               (bind_exec (tlfu_dealloc tail_idx) (\<lambda>_.
               seq_exec (modify (\<lambda>s. s\<lparr>key_map := hm_remove victim_key (key_map s)\<rparr>))
               (ret True)))))))
       else ret True)"

definition tlfu_insert_inner :: "'k hashing \<Rightarrow> 'k \<Rightarrow> 'v \<Rightarrow> (('k, 'v) tlfu_inner, 'v option) exec" where
  "tlfu_insert_inner H key value =
     seq_exec (on_sketch (increment H key))
     (bind_exec (gets (\<lambda>s. hm_get (key_map s) key)) (\<lambda>found. case found of
       Some idx \<Rightarrow>
         bind_exec (occupied idx) (\<lambda>old.
           seq_exec (mutate idx (\<lambda>n. n\<lparr>node_value := value\<rparr>))
           (seq_exec (tlfu_promote idx)
           (ret (Some (node_value old)))))
     | None \<Rightarrow>
         bind_exec (tlfu_admit H key) (\<lambda>admitted.
           if admitted then
             bind_exec (tlfu_alloc \<lparr>node_key = key, node_value = value, node_prev = None, node_next = None\<rparr>)
             (\<lambda>idx. seq_exec (tlfu_push_front idx)
               (seq_exec (modify (\<lambda>s. s\<lparr>key_map := hm_insert key idx (key_map s)\<rparr>))
               (ret None)))
           else ret None)))"

definition tlfu_remove_inner :: "'k \<Rightarrow> (('k, 'v) tlfu_inner, 'v option) exec" where
  "tlfu_remove_inner key =
     bind_exec (gets (\<lambda>s. hm_get (key_map s) key)) (\<lambda>found. case found of
       None \<Rightarrow> ret None
     | Some idx \<Rightarrow>
         seq_exec (modify (\<lambda>s. s\<lparr>key_map := hm_remove key (key_map s)\<rparr>))
         (seq_exec (tlfu_unlink idx)
         (bind_exec (tlfu_dealloc idx) (\<lambda>node. ret (Some (node_value node))))))"

definition tlfu_contains_inner :: "'k \<Rightarrow> (('k, 'v) tlfu_inner, bool) exec" where
  "tlfu_contains_inner key = gets (\<lambda>s. hm_contains (key_map s) key)"

definition tlfu_len_inner :: "(('k, 'v) tlfu_inner, nat) exec" where
  "tlfu_len_inner = gets (\<lambda>s. hm_len (key_map s))"

definition tlfu_clear_inner :: "(('k, 'v) tlfu_inner, unit) exec" where
  "tlfu_clear_inner = seq_exec (modify clear_arena) (modify (\<lambda>s. s\<lparr>sketch := cms_reset (sketch s)\<rparr>))"

subsection \<open>The cache\<close>

definition tlfu_with_capacity :: "usize \<Rightarrow> ('k, 'v) tlfu_cache" where
  "tlfu_with_capacity capacity =
     (let num_shards = shard_count capacity;
          per_shard = per_shard_capacity capacity num_shards
      in \<lparr>total_capacity = capacity,
          sharded_inner = from_factory num_shards (\<lambda>_. tlfu_inner_with_capacity per_shard)\<rparr>)"

definition tlfu_new :: "usize \<Rightarrow> cache_error + ('k, 'v) tlfu_cache" where
  "tlfu_new capacity =
     (case ok_or (nonzero_new capacity) InvalidCapacity of
        Inl e \<Rightarrow> Inl e
      | Inr cap \<Rightarrow> Inr (tlfu_with_capacity cap))"

definition tlfu_get :: "'k hashing \<Rightarrow> 'k \<Rightarrow> (('k, 'v) tlfu_cache, 'v option) exec" where
  "tlfu_get H key = on_shards (with_shard H key (tlfu_get_inner H key))"

definition tlfu_insert :: "'k hashing \<Rightarrow> 'k \<Rightarrow> 'v \<Rightarrow> (('k, 'v) tlfu_cache, 'v option) exec" where
  "tlfu_insert H key value = on_shards (with_shard H key (tlfu_insert_inner H key value))"

definition tlfu_remove :: "'k hashing \<Rightarrow> 'k \<Rightarrow> (('k, 'v) tlfu_cache, 'v option) exec" where
  "tlfu_remove H key = on_shards (with_shard H key (tlfu_remove_inner key))"

definition tlfu_contains_key :: "'k hashing \<Rightarrow> 'k \<Rightarrow> (('k, 'v) tlfu_cache, bool) exec" where
  "tlfu_contains_key H key = on_shards (with_shard H key (tlfu_contains_inner key))"

definition tlfu_len :: "(('k, 'v) tlfu_cache, nat) exec" where
  "tlfu_len = bind_exec (on_shards (each_shard tlfu_len_inner)) (\<lambda>ns. ret (sum_list ns))"

definition tlfu_clear :: "(('k, 'v) tlfu_cache, unit) exec" where
  "tlfu_clear = bind_exec (on_shards (each_shard tlfu_clear_inner)) (\<lambda>_. ret ())"

definition tlfu_capacity_of :: "('k, 'v) tlfu_cache \<Rightarrow> usize" where
  "tlfu_capacity_of c = total_capacity c"

definition tlfu_is_empty :: "(('k, 'v) tlfu_cache, bool) exec" where
  "tlfu_is_empty = is_empty_of tlfu_len"

end
