(* ===== verification/Tinylfu_Policy.thy ===== *)
theory Tinylfu_Policy
  imports Tinylfu
begin

section \<open>TinyLfuCache: the admission policy\<close>

text \<open>
  A shard abstracts to its recency list and the estimates of its sketch. \<open>tlfu_spec_insert\<close> is the
  documented policy over them: a present key is replaced and becomes the most recent; a new key
  enters a shard with room; in a full shard it replaces the least recent entry if its estimate is
  strictly greater, and otherwise leaves the list as it is.
\<close>

definition tlfu_list :: "('k, 'v) tlfu_inner \<Rightarrow> ('k, 'v) mru" where
  "tlfu_list s = map (apsnd fst) (contents s)"

definition tlfu_spec_insert ::
  "nat \<Rightarrow> ('k \<Rightarrow> u8) \<Rightarrow> 'k \<Rightarrow> 'v \<Rightarrow> ('k, 'v) mru \<Rightarrow> 'v option \<times> ('k, 'v) mru" where
  "tlfu_spec_insert cap est k v E =
     (case map_of E k of
        Some old \<Rightarrow> (Some old, mru_put k v E)
      | None \<Rightarrow> (None,
          if length E < cap then (k, v) # E
          else if est k \<le> est (fst (last E)) then E
          else (k, v) # butlast E))"

definition tlfu_ok :: "('k, 'v) tlfu_inner \<Rightarrow> bool" where
  "tlfu_ok s \<longleftrightarrow> arena_inv s \<and> 0 < unat (tlfu_capacity s) \<and>
     length (tlfu_list s) \<le> unat (tlfu_capacity s) \<and> sketch_ok (sketch s)"

text \<open>The sketch a shard has after one more access of \<open>k\<close>.\<close>

abbreviation counted :: "'k hashing \<Rightarrow> 'k \<Rightarrow> ('k, 'v) tlfu_inner \<Rightarrow> ('k, 'v) tlfu_inner" where
  "counted H k s \<equiv> s\<lparr>sketch := incremented H k (sketch s)\<rparr>"

text \<open>What an operation leaves unchanged besides the list.\<close>

definition same_rest :: "('k, 'v) tlfu_inner \<Rightarrow> ('k, 'v) tlfu_inner \<Rightarrow> bool" where
  "same_rest s s' \<longleftrightarrow> tlfu_capacity s' = tlfu_capacity s \<and> sketch s' = sketch s"

lemma same_rest_frame: "arena_frame s s' \<Longrightarrow> same_rest s s'"
  by (cases s; cases s') (simp add: arena_frame_def same_rest_def)

lemma same_rest_trans: "same_rest s t \<Longrightarrow> same_rest t u \<Longrightarrow> same_rest s u"
  by (simp add: same_rest_def)

lemma same_rest_key_map [simp]: "same_rest s (t\<lparr>key_map := m\<rparr>) = same_rest s t"
  by (simp add: same_rest_def)

lemma sketch_update_arena [simp]:
  "arena_inv (s\<lparr>sketch := k\<rparr>) = arena_inv s" "tlfu_list (s\<lparr>sketch := k\<rparr>) = tlfu_list s"
  by (simp_all add: tlfu_list_def contents_def order_def entries_def arena_inv_def arena_rep_def
      arena_slots_def keys_rep_def)

lemma counted_ok: "tlfu_ok s \<Longrightarrow> tlfu_ok (counted H k s)"
  by (simp add: tlfu_ok_def incremented_ok)

lemma on_sketch_eq:
  assumes "tlfu_ok s"
  shows "on_sketch (increment H k) s = (Done (), counted H k s)"
    and "on_sketch (estimate H k) s = (Done (least_counter H (sketch s) k), s)"
  using assms by (simp_all add: on_sketch_def tlfu_ok_def increment_eq estimate_eq)

lemma on_sketch_then:
  assumes "tlfu_ok s"
  shows "seq_exec (on_sketch (increment H k)) m s = m (counted H k s)"
    and "bind_exec (on_sketch (estimate H k)) f s = f (least_counter H (sketch s) k) s"
  using on_sketch_eq [OF assms, of H k] by (simp_all add: exec_apply)

lemma tlfu_okD:
  assumes "tlfu_ok s"
  shows "arena_inv s" and "distinct (map fst (tlfu_list s))"
    and "hm_len (key_map s) = length (tlfu_list s)"
    and "hm_get (key_map s) k = None \<longleftrightarrow> map_of (tlfu_list s) k = None"
  using assms by (simp_all add: tlfu_ok_def tlfu_list_def arena_invD arena_inv_len
      arena_inv_lookup_None map_of_apsnd)

lemma tlfu_okI:
  "arena_inv s' \<Longrightarrow> length (tlfu_list s') \<le> unat (tlfu_capacity s) \<Longrightarrow> same_rest s s' \<Longrightarrow> tlfu_ok s \<Longrightarrow> tlfu_ok s'"
  by (simp add: tlfu_ok_def same_rest_def)

subsection \<open>The operations\<close>

text \<open>The read under the lock, once the sketch has been updated.\<close>

lemma tlfu_get_refines:
  assumes ok: "tlfu_ok s"
  shows "runs_to (tlfu_get_inner H k) s (\<lambda>r s'. (r, tlfu_list s') = lru_spec_get k (tlfu_list s) \<and>
           tlfu_ok s' \<and> same_rest (counted H k s) s')"
proof -
  let ?s = "counted H k s"
  have ok': "tlfu_ok ?s" using ok by (rule counted_ok)
  show ?thesis
  proof (cases "hm_get (key_map s) k")
    case None
    then have "tlfu_get_inner H k s = (Done None, ?s)"
      by (simp add: tlfu_get_inner_def on_sketch_then(1) [OF ok] on_sketch_eq(1) [OF ok])
    moreover have "map_of (tlfu_list s) k = None" using None tlfu_okD(4) [OF ok] by simp
    ultimately show ?thesis
      using ok' by (auto simp: lru_spec_get_def mru_touch_def same_rest_def intro!: runs_toI)
  next
    case (Some i)
    then have "hm_get (key_map ?s) k = Some i" by simp
    with tlfu_okD(1) [OF ok'] obtain s' n where t: "promote i ?s = (Done (), s')" "relink ?s s'"
        "arena_inv s'" "contents s' = mru_touch k (contents ?s)" "i < length (nodes s')"
        "nodes s' ! i = Some n" "map_of (contents ?s) k = Some (node_value n, node.more n)"
      by (rule touch_step)
    have rest: "same_rest ?s s'" using relink_frame [OF t(2)] by (rule same_rest_frame)
    have list: "tlfu_list s' = mru_touch k (tlfu_list ?s)"
      using t(4) by (simp add: tlfu_list_def mru_touch_apsnd)
    have "tlfu_get_inner H k s = (Done (Some (node_value n)), s')"
      using Some t by (simp add: tlfu_get_inner_def on_sketch_then(1) [OF ok] on_sketch_eq(1) [OF ok]
          tlfu_helpers seq_exec_def bind_exec_def slot_def)
    moreover have "tlfu_ok s'"
      using ok' tlfu_okD(2) [OF ok'] list
      by (intro tlfu_okI [OF t(3) _ rest ok']) (simp add: length_mru_touch tlfu_ok_def)
    moreover have "map_of (tlfu_list ?s) k = Some (node_value n)"
      using t(7) by (simp only: tlfu_list_def map_of_apsnd) simp
    ultimately show ?thesis
      using list rest by (auto simp: lru_spec_get_def intro!: runs_toI)
  qed
qed

lemma tlfu_remove_refines:
  assumes ok: "tlfu_ok s"
  shows "runs_to (tlfu_remove_inner k) s (\<lambda>r s'. (r, tlfu_list s') = lru_spec_remove k (tlfu_list s) \<and>
           tlfu_ok s' \<and> same_rest s s')"
proof (cases "hm_get (key_map s) k")
  case None
  then have "tlfu_remove_inner k s = (Done None, s)" by (simp add: tlfu_remove_inner_def)
  moreover have "map_of (tlfu_list s) k = None" using None tlfu_okD(4) [OF ok] by simp
  ultimately show ?thesis
    using ok by (auto simp: lru_spec_remove_def mru_drop_absent same_rest_def intro!: runs_toI)
next
  case (Some i)
  from tlfu_okD(1) [OF ok] Some obtain s1 s2 n
    where d: "unlink i (s\<lparr>key_map := hm_remove k (key_map s)\<rparr>) = (Done (), s1)"
      "dealloc i s1 = (Done n, s2)" "arena_frame (s\<lparr>key_map := hm_remove k (key_map s)\<rparr>) s2"
      "arena_inv s2" "contents s2 = mru_drop k (contents s)"
      "map_of (contents s) k = Some (node_value n, node.more n)"
    by (rule remove_step)
  have run: "tlfu_remove_inner k s = (Done (Some (node_value n)), s2)"
    using Some d(1,2) by (simp add: tlfu_remove_inner_def tlfu_helpers seq_exec_def bind_exec_def)
  have rest: "same_rest s s2" using same_rest_frame [OF d(3)] by (simp add: same_rest_def)
  have list: "tlfu_list s2 = mru_drop k (tlfu_list s)"
    using d(5) by (simp add: tlfu_list_def mru_drop_apsnd)
  have "tlfu_ok s2"
    using ok length_mru_drop_le [of k "tlfu_list s"] list
    by (intro tlfu_okI [OF d(4) _ rest ok]) (simp add: tlfu_ok_def)
  with run list rest d(6) show ?thesis
    by (auto simp: lru_spec_remove_def tlfu_list_def map_of_apsnd intro!: runs_toI)
qed

text \<open>The admission step: the victim goes exactly when the candidate's estimate is greater.\<close>

lemma tlfu_admit_spec:
  fixes H :: "'k hashing" and k :: 'k and s :: "('k, 'v) tlfu_inner"
  assumes ok: "tlfu_ok s"
  defines "room \<equiv> length (tlfu_list s) < unat (tlfu_capacity s)"
    and "wins \<equiv> least_counter H (sketch s) (fst (last (tlfu_list s))) < least_counter H (sketch s) k"
  shows "runs_to (tlfu_admit H k) s (\<lambda>r s'. r = (room \<or> wins) \<and> arena_inv s' \<and> same_rest s s' \<and>
           (\<not> r \<longrightarrow> s' = s) \<and> (r \<longrightarrow> tlfu_list s' = (if room then tlfu_list s else butlast (tlfu_list s))))"
proof (cases room)
  case True
  with ok show ?thesis
    by (intro runs_toI [where a = True and s' = s])
      (simp_all add: tlfu_admit_def tlfu_okD room_def same_rest_def)
next
  case False
  note est = on_sketch_then(2) [OF ok, of H]
  have full: "unat (tlfu_capacity s) \<le> hm_len (key_map s)"
    using False tlfu_okD(3) [OF ok] by (simp add: room_def)
  have inv: "arena_inv s" using ok by (rule tlfu_okD)
  have ne: "contents s \<noteq> []" using False ok by (auto simp: room_def tlfu_ok_def tlfu_list_def)
  then obtain t where tail: "tail s = Some t" using tail_contents [OF inv] by auto
  from inv tail obtain s1 s2 n where e: "unlink t s = (Done (), s1)" "relink s s1"
      "dealloc t s1 = (Done n, s2)" "arena_frame s s2"
      "contents s = butlast (contents s) @ [payload n]"
      "arena_inv (s2\<lparr>key_map := hm_remove (node_key n) (key_map s)\<rparr>)"
      "contents s2 = butlast (contents s)" "t < length (nodes s)"
      "\<exists>m. nodes s ! t = Some m \<and> payload m = payload n"
    by (rule evict_step)
  from e(9) obtain m where m: "nodes s ! t = Some m" "payload m = payload n" by blast
  then have occ: "occupied t s = (Done m, s)" and key: "node_key m = node_key n"
    using e(8) by (simp_all add: occupied_def slot_def bind_exec_def payload_def)
  have after: "bind_exec (occupied t) f s = f m s" for f :: "('k, 'v) tlfu_node \<Rightarrow> (('k, 'v) tlfu_inner, 'a) exec"
    using occ by (rule bind_exec_Done)
  have "last (contents s) = payload n" using e(5) by (metis last_snoc)
  then have victim: "fst (last (tlfu_list s)) = node_key m"
    using ne key by (simp add: tlfu_list_def last_map payload_def)
  show ?thesis
  proof (cases wins)
    case True
    let ?s = "s2\<lparr>key_map := hm_remove (node_key m) (key_map s)\<rparr>"
    have evict: "seq_exec (tlfu_unlink t) (bind_exec (tlfu_dealloc t) (\<lambda>_.
        seq_exec (modify (\<lambda>s. s\<lparr>key_map := hm_remove (node_key m) (key_map s)\<rparr>)) (ret True))) s = (Done True, ?s)"
      using e(1,3) arena_frame_key_map [OF e(4)] by (simp add: tlfu_helpers seq_exec_def bind_exec_def)
    have "tlfu_admit H k s = (Done True, ?s)"
      using True full tail by (simp add: tlfu_admit_def est after evict Let_def wins_def victim not_le)
    moreover have "same_rest s ?s" using same_rest_frame [OF e(4)] by simp
    moreover have "tlfu_list ?s = butlast (tlfu_list s)"
      using e(7) by (simp add: tlfu_list_def map_butlast)
    ultimately show ?thesis using True False e(6) key by (auto intro!: runs_toI)
  next
    case lost: False
    then have "tlfu_admit H k s = (Done False, s)"
      using full tail
      by (simp add: tlfu_admit_def est after Let_def wins_def victim not_less)
    with lost False inv show ?thesis by (auto simp: same_rest_def intro!: runs_toI)
  qed
qed

lemma tlfu_insert_refines:
  assumes ok: "tlfu_ok s"
  shows "runs_to (tlfu_insert_inner H k v) s (\<lambda>r s'.
           (r, tlfu_list s') = tlfu_spec_insert (unat (tlfu_capacity s))
              (least_counter H (incremented H k (sketch s))) k v (tlfu_list s) \<and>
           tlfu_ok s' \<and> same_rest (counted H k s) s')"
proof (cases "hm_get (key_map s) k")
  case (Some i)
  let ?s = "counted H k s"
  have ok': "tlfu_ok ?s" using ok by (rule counted_ok)
  have get: "hm_get (key_map ?s) k = Some i" using Some by simp
  let ?f = "\<lambda>n. n\<lparr>node_value := v\<rparr> :: ('a, 'b, unit) node_scheme"
  from replace_step [OF tlfu_okD(1) [OF ok'] get, of ?f] obtain n s1 s'
    where o: "occupied i ?s = (Done n, ?s)"
      "mutate i ?f ?s = (Done (), s1)" "promote i s1 = (Done (), s')" "arena_frame ?s s'" "arena_inv s'"
      "contents s' = mru_put k (v, ()) (contents ?s)" "map_of (contents ?s) k = Some (node_value n, ())"
    by auto
  have run: "tlfu_insert_inner H k v s = (Done (Some (node_value n)), s')"
    using Some o(1-3) by (simp add: tlfu_insert_inner_def tlfu_helpers
        on_sketch_then(1) [OF ok] on_sketch_eq(1) [OF ok] seq_exec_def bind_exec_def)
  have "tlfu_list s' = mru_put k v (tlfu_list ?s)"
    using o(6) by (simp only: tlfu_list_def) (simp add: mru_put_def mru_drop_apsnd)
  then have list: "tlfu_list s' = mru_put k v (tlfu_list s)" by simp
  have "map_of (tlfu_list ?s) k = Some (node_value n)"
    using o(7) by (simp only: tlfu_list_def map_of_apsnd) simp
  then have old: "map_of (tlfu_list s) k = Some (node_value n)" by simp
  have rest: "same_rest ?s s'" using o(4) by (rule same_rest_frame)
  have "length (tlfu_list s') = length (tlfu_list s)"
    using list length_mru_drop [OF tlfu_okD(2) [OF ok] old] by (simp add: mru_put_def)
  then have "tlfu_ok s'" using ok by (intro tlfu_okI [OF o(5) _ rest ok']) (simp add: tlfu_ok_def)
  with run list old rest show ?thesis by (auto simp: tlfu_spec_insert_def intro!: runs_toI)
next
  case None
  let ?s = "counted H k s" and ?E = "tlfu_list s" and ?est = "least_counter H (incremented H k (sketch s))"
  have ok': "tlfu_ok ?s" using ok by (rule counted_ok)
  have absent: "map_of ?E k = None" using None tlfu_okD(4) [OF ok] by simp
  from tlfu_admit_spec [OF ok', of H k] obtain r s1 where admit: "tlfu_admit H k ?s = (Done r, s1)"
      "r = (length ?E < unat (tlfu_capacity s) \<or> ?est (fst (last ?E)) < ?est k)"
      "arena_inv s1" "same_rest ?s s1" "\<not> r \<longrightarrow> s1 = ?s"
      "r \<longrightarrow> tlfu_list s1 = (if length ?E < unat (tlfu_capacity s) then ?E else butlast ?E)"
    by (rule runs_toE) simp
  show ?thesis
  proof (cases r)
    case False
    then have "tlfu_insert_inner H k v s = (Done None, ?s)"
      using None admit(1,5) by (simp add: tlfu_insert_inner_def on_sketch_then(1) [OF ok] on_sketch_eq(1) [OF ok]
          bind_exec_Done)
    with False admit(2) ok' absent show ?thesis
      by (auto simp: tlfu_spec_insert_def same_rest_def not_less intro!: runs_toI)
  next
    case True
    then have s1: "tlfu_list s1 = (if length ?E < unat (tlfu_capacity s) then ?E else butlast ?E)"
      using admit(6) by blast
    then have "map_of (tlfu_list s1) k = None"
      using absent map_of_butlast [OF tlfu_okD(2) [OF ok], of k] by auto
    then have none: "hm_get (key_map s1) k = None"
      using arena_inv_lookup_None [OF admit(3)] by (simp add: tlfu_list_def map_of_apsnd)
    let ?n = "\<lparr>node_key = k, node_value = v, node_prev = None, node_next = None\<rparr> :: ('a, 'b, unit) node_scheme"
    from insert_step [OF admit(3), of ?n] none obtain i s2 s3 where a: "alloc ?n s1 = (Done i, s2)"
        "push_front i s2 = (Done (), s3)" "arena_frame s1 s3"
        "arena_inv (s3\<lparr>key_map := hm_insert k i (key_map s1)\<rparr>)"
        "contents (s3\<lparr>key_map := hm_insert k i (key_map s1)\<rparr>) = payload ?n # contents s1"
      by auto
    let ?t = "s3\<lparr>key_map := hm_insert k i (key_map s1)\<rparr>"
    have run: "tlfu_insert_inner H k v s = (Done None, ?t)"
      using None True admit(1) a(1,2) arena_frame_key_map [OF a(3)]
      by (simp add: tlfu_insert_inner_def tlfu_helpers on_sketch_then(1) [OF ok] on_sketch_eq(1) [OF ok]
          seq_exec_def bind_exec_def)
    have list: "tlfu_list ?t = (k, v) # tlfu_list s1"
      using a(5) by (simp add: tlfu_list_def payload_def)
    have rest: "same_rest ?s ?t" using same_rest_trans [OF admit(4) same_rest_frame [OF a(3)]] by simp
    have "length (tlfu_list ?t) \<le> unat (tlfu_capacity ?s)"
    proof -
      have "length ?E \<le> unat (tlfu_capacity s)" "0 < unat (tlfu_capacity s)"
        using ok by (simp_all add: tlfu_ok_def)
      then show ?thesis unfolding list s1 by simp
    qed
    then have "tlfu_ok ?t" by (rule tlfu_okI [OF a(4) _ rest ok'])
    moreover have "?est k \<le> ?est (fst (last ?E)) \<Longrightarrow> length ?E < unat (tlfu_capacity s)"
      using True admit(2) by (auto dest: leD)
    then have "tlfu_spec_insert (unat (tlfu_capacity s)) ?est k v ?E = (None, (k, v) # tlfu_list s1)"
      by (simp add: tlfu_spec_insert_def absent s1)
    ultimately show ?thesis using list rest by (intro runs_toI [where a = None and s' = ?t] run) simp
  qed
qed

end
