(* ===== verification/Tinylfu_Cache.thy ===== *)
theory Tinylfu_Cache
  imports Tinylfu_Policy
begin

section \<open>TinyLfuCache: the contract and the properties of the cache\<close>

text \<open>
  The shard meets \<open>shard_contract\<close> but not \<open>storing_contract\<close>: an insert may be refused. The last
  part shows that a refusal is never final: the refused access has been counted, so a key that is
  inserted again and again is let in unless the victim shares all its cells.
\<close>

definition tlfu_bound :: "('k, 'v) tlfu_inner \<Rightarrow> nat" where
  "tlfu_bound s = unat (tlfu_capacity s)"

definition tlfu_view :: "('k, 'v) tlfu_inner \<Rightarrow> 'k \<Rightarrow> 'v option" where
  "tlfu_view s = map_of (tlfu_list s)"

lemma same_rest_bound: "same_rest s s' \<Longrightarrow> tlfu_bound s' = tlfu_bound s"
  by (simp add: same_rest_def tlfu_bound_def)

lemma counted_bound [simp]: "tlfu_bound (s\<lparr>sketch := x\<rparr>) = tlfu_bound s"
  by (simp add: tlfu_bound_def)

lemma tlfu_spec_insert_view:
  assumes "distinct (map fst E)" and "(r, E') = tlfu_spec_insert cap est k v E"
  shows "r = map_of E k" and "map_of E' k = Some v \<or> map_of E' k = None"
    and "j \<noteq> k \<Longrightarrow> map_of E' j = map_of E j \<or> map_of E' j = None"
  using assms(2) map_of_butlast [OF assms(1), of j]
  by (auto simp: tlfu_spec_insert_def split: option.splits if_splits)

lemma tlfu_ok_new:
  fixes cap :: usize
  defines "s \<equiv> tlfu_inner_with_capacity cap :: ('k, 'v) tlfu_inner"
  assumes "0 < unat cap" and "unat cap < 2 ^ 60"
  shows "tlfu_ok s" and "tlfu_list s = []" and "tlfu_bound s = unat cap"
proof -
  have "arena_inv s" and c: "contents s = []"
    by (rule empty_step; simp add: s_def tlfu_inner_with_capacity_def)+
  moreover have "sketch_ok (cms_new cap)" using assms(3) by (rule cms_new_shape)
  moreover have "tlfu_capacity s = cap" "sketch s = cms_new cap"
    by (simp_all add: s_def tlfu_inner_with_capacity_def)
  ultimately show "tlfu_ok s" and "tlfu_list s = []" and "tlfu_bound s = unat cap"
    using assms(2) by (simp_all add: tlfu_ok_def tlfu_list_def tlfu_bound_def)
qed

lemma tlfu_clear_ok:
  assumes "tlfu_ok s"
  shows "runs_to tlfu_clear_inner s (\<lambda>_ s'. tlfu_ok s' \<and> tlfu_bound s' = tlfu_bound s \<and>
    tlfu_list s' = [] \<and> sketch s' = cms_reset (sketch s))"
proof -
  have "tlfu_capacity (clear_arena s) = tlfu_capacity s" "sketch (clear_arena s) = sketch s"
    by (simp_all add: clear_arena_def)
  with assms show ?thesis
    using clear_arena_step [of s]
    by (intro runs_toI [where a = "()" and s' = "(clear_arena s)\<lparr>sketch := cms_reset (sketch s)\<rparr>"])
      (simp_all add: tlfu_clear_inner_def tlfu_ok_def tlfu_bound_def cms_reset_ok, simp add: tlfu_list_def)
qed

interpretation tlfu_shard: shard_contract tlfu_ok "\<lambda>_. True" tlfu_bound tlfu_view
  "tlfu_get_inner H" "tlfu_insert_inner H" tlfu_remove_inner tlfu_contains_inner tlfu_len_inner
  tlfu_clear_inner for H :: "'k hashing"
proof unfold_locales
  fix s :: "('k, 'v) tlfu_inner" and k :: 'k and v :: 'v
  assume ok: "tlfu_ok s"
  have d: "distinct (map fst (tlfu_list s))" using ok by (rule tlfu_okD)
  show "runs_to (tlfu_get_inner H k) s (\<lambda>r s'. r = tlfu_view s k \<and> tlfu_ok s' \<and>
      tlfu_bound s' = tlfu_bound s \<and> tlfu_view s' = tlfu_view s)"
    by (rule runs_to_mono [OF tlfu_get_refines [OF ok]])
      (auto simp: lru_spec_get_def tlfu_view_def dest: same_rest_bound)
  show "runs_to (tlfu_insert_inner H k v) s (\<lambda>r s'. r = tlfu_view s k \<and> tlfu_ok s' \<and>
      tlfu_bound s' = tlfu_bound s \<and>
      (\<forall>j. j \<noteq> k \<longrightarrow> tlfu_view s' j = tlfu_view s j \<or> tlfu_view s' j = None) \<and>
      (tlfu_view s' k = Some v \<or> tlfu_view s' k = None))"
    unfolding tlfu_view_def
    by (rule runs_to_mono [OF tlfu_insert_refines [OF ok]])
      (auto dest: same_rest_bound tlfu_spec_insert_view [OF d])
  show "runs_to (tlfu_remove_inner k) s (\<lambda>r s'. (\<forall>v. tlfu_view s k = Some v \<longrightarrow> r = Some v) \<and>
      tlfu_ok s' \<and> tlfu_bound s' = tlfu_bound s \<and> tlfu_view s' = (tlfu_view s)(k := None))"
    by (rule runs_to_mono [OF tlfu_remove_refines [OF ok]])
      (auto simp: lru_spec_remove_def tlfu_view_def fun_eq_iff dest: same_rest_bound)
  show "runs_to (tlfu_contains_inner k) s (\<lambda>r s'. r = (tlfu_view s k \<noteq> None) \<and>
      tlfu_ok s' \<and> tlfu_bound s' = tlfu_bound s \<and> tlfu_view s' = tlfu_view s)"
    using ok tlfu_okD(4) [OF ok, of k]
    by (intro runs_toI [where s' = s])
      (simp_all add: tlfu_contains_inner_def hm_contains_def tlfu_view_def del: not_None_eq)
  show "runs_to tlfu_len_inner s (\<lambda>n s'. n = card (dom (tlfu_view s)) \<and> n \<le> tlfu_bound s \<and>
      tlfu_ok s' \<and> tlfu_bound s' = tlfu_bound s \<and> tlfu_view s' = tlfu_view s)"
    using ok distinct_card [OF d] by (intro runs_toI [where s' = s])
      (auto simp: tlfu_len_inner_def tlfu_okD tlfu_view_def dom_map_of_conv_image_fst tlfu_bound_def tlfu_ok_def)
  show "runs_to tlfu_clear_inner s (\<lambda>_ s'. tlfu_ok s' \<and> tlfu_bound s' = tlfu_bound s \<and>
      tlfu_view s' = Map.empty)"
    by (rule runs_to_mono [OF tlfu_clear_ok [OF ok]]) (simp add: tlfu_view_def)
  show "finite (dom (tlfu_view s))" by (simp add: tlfu_view_def finite_dom_map_of)
qed

subsection \<open>The cache\<close>

abbreviation tlfu_cache_inv :: "'k hashing \<Rightarrow> ('k, 'v) tlfu_cache \<Rightarrow> bool" where
  "tlfu_cache_inv \<equiv> cache_inv tlfu_ok tlfu_bound tlfu_view"

abbreviation tlfu_cache_view :: "'k hashing \<Rightarrow> ('k, 'v) tlfu_cache \<Rightarrow> 'k \<Rightarrow> 'v option" where
  "tlfu_cache_view \<equiv> cache_view tlfu_view"

definition tlfu_perform :: "'k hashing \<Rightarrow> ('k, 'v) call \<Rightarrow> (('k, 'v) tlfu_cache, unit) exec" where
  "tlfu_perform H = perform (tlfu_get H) (tlfu_insert H) (tlfu_remove H) (tlfu_contains_key H) tlfu_len tlfu_clear"

lemmas tlfu_methods = tlfu_get_def tlfu_insert_def tlfu_remove_def tlfu_contains_key_def tlfu_len_def
  tlfu_clear_def

lemma tlfu_new_inv:
  fixes H :: "'k hashing"
  assumes "cap \<noteq> 0"
  shows "tlfu_cache_inv H (tlfu_with_capacity cap :: ('k, 'v) tlfu_cache)"
    and "tlfu_cache_view H (tlfu_with_capacity cap :: ('k, 'v) tlfu_cache) = Map.empty"
    and "tlfu_new cap = Inr (tlfu_with_capacity cap :: ('k, 'v) tlfu_cache)"
    and "total_capacity (tlfu_with_capacity cap :: ('k, 'v) tlfu_cache) = cap"
proof -
  note shard = tlfu_ok_new [OF per_shard_pos per_shard_small [OF assms], where 'k = 'k and 'v = 'v]
  have view: "tlfu_view (tlfu_inner_with_capacity (per_shard_capacity cap (shard_count cap)) :: ('k, 'v) tlfu_inner) = Map.empty"
    by (simp add: tlfu_view_def shard(2))
  show "tlfu_cache_inv H (tlfu_with_capacity cap :: ('k, 'v) tlfu_cache)"
    and "tlfu_cache_view H (tlfu_with_capacity cap :: ('k, 'v) tlfu_cache) = Map.empty"
    by (rule tlfu_shard.cache_new [OF assms _ _ shard(1)];
        simp add: tlfu_with_capacity_def Let_def shard(3) view)+
  show "tlfu_new cap = Inr (tlfu_with_capacity cap :: ('k, 'v) tlfu_cache)"
    using assms by (simp add: tlfu_new_def)
  show "total_capacity (tlfu_with_capacity cap :: ('k, 'v) tlfu_cache) = cap"
    by (simp add: tlfu_with_capacity_def Let_def)
qed

lemma tlfu_run_calls:
  assumes "tlfu_cache_inv H c" and "tlfu_cache_view H c \<subseteq>\<^sub>m m"
  shows "runs_to (run_calls (tlfu_perform H) cs) c (\<lambda>_ c'. tlfu_cache_inv H c' \<and> same_config c c' \<and>
           tlfu_cache_view H c' \<subseteq>\<^sub>m fold latest cs m)"
  unfolding tlfu_perform_def tlfu_methods
  by (rule tlfu_shard.run_calls_law [OF assms]) (simp add: cache_ready_def shards_ready_def)

subsection \<open>Repeated inserts\<close>

lemma tlfu_insert_cases:
  assumes ok: "tlfu_ok s" and u: "u = fst (last (tlfu_list s))"
  obtains (stored) r s' where "tlfu_insert_inner H k v s = (Done r, s')" and "tlfu_ok s'"
      and "tlfu_view s' k = Some v"
    | (refused) s' where "tlfu_insert_inner H k v s = (Done None, s')" and "tlfu_ok s'"
      and "tlfu_list s' = tlfu_list s" and "sketch s' = incremented H k (sketch s)"
      and "least_counter H (sketch s') k \<le> least_counter H (sketch s') u"
proof -
  from tlfu_insert_refines [OF ok, of H k v] obtain r s'
    where run: "tlfu_insert_inner H k v s = (Done r, s')" and ok': "tlfu_ok s'"
      and spec: "(r, tlfu_list s') = tlfu_spec_insert (unat (tlfu_capacity s))
        (least_counter H (incremented H k (sketch s))) k v (tlfu_list s)"
      and sk: "sketch s' = incremented H k (sketch s)"
    by (auto simp: runs_to_def same_rest_def)
  show ?thesis
  proof (cases "tlfu_view s' k = Some v")
    case True
    with run ok' show ?thesis by (rule stored)
  next
    case False
    then have "r = None \<and> tlfu_list s' = tlfu_list s \<and> least_counter H (sketch s') k \<le> least_counter H (sketch s') u"
      using spec unfolding sk u
      by (auto simp: tlfu_view_def tlfu_spec_insert_def split: option.splits if_splits)
    with run ok' sk show ?thesis by (intro refused) auto
  qed
qed

definition tlfu_offer :: "'k hashing \<Rightarrow> 'k \<Rightarrow> 'v list \<Rightarrow> (('k, 'v) tlfu_inner, unit) exec" where
  "tlfu_offer H k vs = run_calls (\<lambda>v. seq_exec (tlfu_insert_inner H k v) (ret ())) vs"

lemma tlfu_offer_Cons:
  "tlfu_insert_inner H k v s = (Done r, s') \<Longrightarrow> tlfu_offer H k (v # vs) s = tlfu_offer H k vs s'"
  by (simp add: tlfu_offer_def exec_apply)

lemma tlfu_insert_until:
  assumes "tlfu_ok s" and "u = fst (last (tlfu_list s))"
    and "least_counter H ((incremented H k ^^ Suc m) (sketch s)) u
           < least_counter H ((incremented H k ^^ Suc m) (sketch s)) k"
  shows "\<exists>n \<le> Suc m. runs_to (tlfu_offer H k (replicate n v)) s (\<lambda>_ s'. tlfu_view s' k = Some v)"
  using assms
proof (induction m arbitrary: s)
  case 0
  from 0(1,2) show ?case
  proof (cases rule: tlfu_insert_cases [where H = H and k = k and v = v])
    case (stored r s')
    then have "tlfu_offer H k (replicate 1 v) s = (Done (), s')"
      using tlfu_offer_Cons [OF stored(1), of "[]"] by (simp add: tlfu_offer_def)
    with stored(3) show ?thesis by (intro exI [of _ 1]) (simp add: runs_to_def)
  next
    case (refused s')
    with 0(3) show ?thesis by (simp add: not_less [symmetric])
  qed
next
  case (Suc m)
  from Suc.prems(1,2) show ?case
  proof (cases rule: tlfu_insert_cases [where H = H and k = k and v = v])
    case (stored r s')
    then have "tlfu_offer H k (replicate 1 v) s = (Done (), s')"
      using tlfu_offer_Cons [OF stored(1), of "[]"] by (simp add: tlfu_offer_def)
    with stored(3) show ?thesis by (intro exI [of _ 1]) (simp add: runs_to_def)
  next
    case (refused s')
    have "(incremented H k ^^ Suc m) (sketch s') = (incremented H k ^^ Suc (Suc m)) (sketch s)"
      by (simp only: refused(4) funpow_Suc_right comp_apply)
    then have "\<exists>n \<le> Suc m. runs_to (tlfu_offer H k (replicate n v)) s' (\<lambda>_ s'. tlfu_view s' k = Some v)"
      using Suc.prems(2,3) refused(2,3) by (intro Suc.IH) simp_all
    then obtain n where "n \<le> Suc m" "runs_to (tlfu_offer H k (replicate n v)) s' (\<lambda>_ s'. tlfu_view s' k = Some v)"
      by blast
    then show ?thesis
      using tlfu_offer_Cons [OF refused(1), of "replicate n v"]
      by (intro exI [of _ "Suc n"]) (simp add: runs_to_def)
  qed
qed

subsection \<open>Properties\<close>

text \<open>
  \<^bold>\<open>C5.\<close> A shard implements the TinyLFU policy. From any well-formed shard, whatever the hasher,
  \<open>get\<close>, \<open>insert\<close> and \<open>remove\<close> return without panicking and leave a well-formed shard of the same
  capacity; \<open>get\<close> and \<open>insert\<close> first count the key, hit or miss; on overflow a new key replaces the
  least recently used entry exactly if its estimate is strictly greater than that key's, and
  otherwise the entries and their order stay as they are.
\<close>

theorem tlfu_shard_refines_policy:
  assumes "tlfu_ok s"
  shows "runs_to (tlfu_get_inner H k) s (\<lambda>r s'. (r, tlfu_list s') = lru_spec_get k (tlfu_list s) \<and>
           tlfu_ok s' \<and> tlfu_capacity s' = tlfu_capacity s \<and> sketch s' = incremented H k (sketch s)) \<and>
         runs_to (tlfu_insert_inner H k v) s (\<lambda>r s'.
           (r, tlfu_list s') = tlfu_spec_insert (unat (tlfu_capacity s)) (least_counter H (sketch s')) k v (tlfu_list s) \<and>
           tlfu_ok s' \<and> tlfu_capacity s' = tlfu_capacity s \<and> sketch s' = incremented H k (sketch s)) \<and>
         runs_to (tlfu_remove_inner k) s (\<lambda>r s'. (r, tlfu_list s') = lru_spec_remove k (tlfu_list s) \<and>
           tlfu_ok s' \<and> tlfu_capacity s' = tlfu_capacity s \<and> sketch s' = sketch s)"
  by (intro conjI; rule runs_to_mono [OF tlfu_get_refines [OF assms]]
      runs_to_mono [OF tlfu_insert_refines [OF assms]] runs_to_mono [OF tlfu_remove_refines [OF assms]])
    (simp_all add: same_rest_def)

text \<open>A shard of capacity 1 that has seen key 5 inserted twice.\<close>

definition tlfu_example :: "(nat, nat) tlfu_inner" where
  "tlfu_example = snd (tlfu_insert_inner sample_hashing 5 51
     (snd (tlfu_insert_inner sample_hashing 5 50 (tlfu_inner_with_capacity 1))))"

lemma tlfu_insert_snd:
  assumes "tlfu_ok s"
  shows "tlfu_ok (snd (tlfu_insert_inner H k v s))"
    and "tlfu_capacity (snd (tlfu_insert_inner H k v s)) = tlfu_capacity s"
    and "tlfu_list (snd (tlfu_insert_inner H k v s)) =
      snd (tlfu_spec_insert (unat (tlfu_capacity s)) (least_counter H (incremented H k (sketch s))) k v (tlfu_list s))"
    and "sketch (snd (tlfu_insert_inner H k v s)) = incremented H k (sketch s)"
  using tlfu_insert_refines [OF assms, of H k v]
  by (auto simp: runs_to_def same_rest_def) (metis snd_conv)

lemma tlfu_example_ok:
  "tlfu_ok tlfu_example" "tlfu_list tlfu_example = [(5, 51)]" "tlfu_capacity tlfu_example = 1"
proof -
  let ?s = "tlfu_inner_with_capacity 1 :: (nat, nat) tlfu_inner"
  have new: "tlfu_ok ?s" "tlfu_list ?s = []" by (rule tlfu_ok_new; simp)+
  have cap: "tlfu_capacity ?s = 1" by (simp add: tlfu_inner_with_capacity_def)
  note first = tlfu_insert_snd [OF new(1), of sample_hashing 5 50]
  note both = tlfu_insert_snd [OF first(1), of sample_hashing 5 51]
  show "tlfu_ok tlfu_example" "tlfu_list tlfu_example = [(5, 51)]" "tlfu_capacity tlfu_example = 1"
    using both first new(2) cap
    by (simp_all add: tlfu_example_def tlfu_spec_insert_def mru_put_def mru_drop_def)
qed

theorem tlfu_shard_refines_policy_witness:
  "runs_to (tlfu_insert_inner sample_hashing 5 52) tlfu_example
     (\<lambda>r s'. r = Some 51 \<and> tlfu_list s' = [(5, 52)] \<and> tlfu_ok s') \<and>
   runs_to (tlfu_remove_inner 5) tlfu_example (\<lambda>r s'. r = Some 51 \<and> tlfu_list s' = [])"
  using tlfu_shard_refines_policy [OF tlfu_example_ok(1), of sample_hashing 5 52]
  by (auto simp: tlfu_example_ok(2,3) tlfu_spec_insert_def mru_eval elim!: runs_to_mono)

text \<open>
  \<^bold>\<open>C14.\<close> Any client of a \<open>TinyLfuCache\<close>. For every non-zero capacity and every hasher the
  constructor returns a cache, and after any sequence of trait calls on it nothing has panicked,
  \<open>len\<close> returns the number of keys present and never more than the requested capacity, and every
  value present is the one most recently inserted for its key and not removed since.
\<close>

theorem tlfu_any_calls:
  fixes cs :: "('k, 'v) call list"
  assumes "cap \<noteq> 0"
  shows "\<exists>c. tlfu_new cap = Inr c \<and>
    runs_to (run_calls (tlfu_perform H) cs) c (\<lambda>_ c'.
      tlfu_cache_view H c' \<subseteq>\<^sub>m fold latest cs Map.empty \<and> tlfu_capacity_of c' = cap \<and>
      runs_to tlfu_len c' (\<lambda>n _. n = card (dom (tlfu_cache_view H c')) \<and> n \<le> unat cap))"
proof -
  let ?c = "tlfu_with_capacity cap :: ('k, 'v) tlfu_cache"
  note new = tlfu_new_inv [OF assms, where 'k = 'k and 'v = 'v]
  have "runs_to (run_calls (tlfu_perform H) cs) ?c (\<lambda>_ c'. tlfu_cache_inv H c' \<and> same_config ?c c' \<and>
      tlfu_cache_view H c' \<subseteq>\<^sub>m fold latest cs Map.empty)"
    using new(1,2) by (intro tlfu_run_calls) simp_all
  then have "runs_to (run_calls (tlfu_perform H) cs) ?c (\<lambda>_ c'.
      tlfu_cache_view H c' \<subseteq>\<^sub>m fold latest cs Map.empty \<and> tlfu_capacity_of c' = cap \<and>
      runs_to tlfu_len c' (\<lambda>n _. n = card (dom (tlfu_cache_view H c')) \<and> n \<le> unat cap))"
  proof (rule runs_to_mono)
    fix u c' assume *: "tlfu_cache_inv H c' \<and> same_config ?c c' \<and>
      tlfu_cache_view H c' \<subseteq>\<^sub>m fold latest cs Map.empty"
    then have "total_capacity c' = cap" using new(4) same_config_capacity by metis
    with * show "tlfu_cache_view H c' \<subseteq>\<^sub>m fold latest cs Map.empty \<and> tlfu_capacity_of c' = cap \<and>
      runs_to tlfu_len c' (\<lambda>n _. n = card (dom (tlfu_cache_view H c')) \<and> n \<le> unat cap)"
      using tlfu_shard.cache_len [of H c']
      by (auto simp: tlfu_len_def tlfu_capacity_of_def elim: runs_to_mono)
  qed
  with new(3) show ?thesis by blast
qed

theorem tlfu_any_calls_witness:
  "\<exists>c. tlfu_new 64 = Inr c \<and>
    runs_to (run_calls (tlfu_perform sample_hashing) [Call_insert 1 (10 :: nat), Call_insert 2 20, Call_remove 1]) c
      (\<lambda>_ c'. tlfu_cache_view sample_hashing c' \<subseteq>\<^sub>m [2 \<mapsto> 20])"
proof -
  have "fold latest [Call_insert (1 :: nat) (10 :: nat), Call_insert 2 20, Call_remove 1] Map.empty = [2 \<mapsto> 20]"
    by (simp add: fun_eq_iff)
  then show ?thesis
    using tlfu_any_calls [of 64 sample_hashing "[Call_insert 1 (10 :: nat), Call_insert 2 20, Call_remove 1]"]
    by (auto elim: runs_to_mono)
qed

text \<open>
  \<^bold>\<open>C25.\<close> What a client can see of an admission. Inserting an absent key into a full shard returns
  \<open>None\<close> whether the entry was admitted or refused, so the return value does not tell the two apart;
  and even a refusal is not without effect: the access has been counted in the sketch.
\<close>

theorem tlfu_refusal_is_counted:
  assumes "tlfu_ok s" and "tlfu_view s k = None" and "length (tlfu_list s) = unat (tlfu_capacity s)"
  shows "runs_to (tlfu_insert_inner H k v) s (\<lambda>r s'. r = None \<and>
    (tlfu_list s' = (if least_counter H (sketch s') k \<le> least_counter H (sketch s') (fst (last (tlfu_list s)))
                     then tlfu_list s else (k, v) # butlast (tlfu_list s))) \<and>
    sketch s' = incremented H k (sketch s) \<and> samples (sketch s') \<noteq> samples (sketch s))"
proof -
  have ok: "sketch_ok (sketch s)" using assms(1) by (simp add: tlfu_ok_def)
  then have "unat (samples (incremented H k (sketch s))) \<noteq> unat (samples (sketch s))"
    using incremented_samples [OF ok, of H k] by (auto simp: sketch_ok_def)
  then have "samples (incremented H k (sketch s)) \<noteq> samples (sketch s)" by auto
  then show ?thesis
    using assms(2,3)
    by (intro runs_to_mono [OF tlfu_insert_refines [OF assms(1)]])
      (auto simp: tlfu_spec_insert_def tlfu_view_def same_rest_def)
qed

theorem tlfu_refusal_is_counted_witness:
  "runs_to (tlfu_insert_inner sample_hashing 7 70) tlfu_example (\<lambda>r s'. r = None \<and>
     samples (sketch s') \<noteq> samples (sketch tlfu_example))"
  by (rule runs_to_mono [OF tlfu_refusal_is_counted])
    (auto simp: tlfu_example_ok tlfu_view_def)

text \<open>
  \<^bold>\<open>C24.\<close> Persistence pays. Offered again and again to any well-formed shard, a key is stored after at
  most three sample windows of inserts, however often the victim has been used before, provided
  some row of the sketch does not map the two keys to the same cell. No insert panics on the way.
\<close>

theorem tlfu_persistent_key_stored:
  assumes "tlfu_ok s" and "d < 4"
    and "column H (sketch s) d (fst (last (tlfu_list s))) \<noteq> column H (sketch s) d k"
  shows "\<exists>n \<le> 3 * unat (sample_window (sketch s)).
    runs_to (tlfu_offer H k (replicate n v)) s (\<lambda>_ s'. tlfu_view s' k = Some v)"
proof -
  have ok: "sketch_ok (sketch s)" using assms(1) by (simp add: tlfu_ok_def)
  obtain m where m: "m \<le> 3 * unat (sample_window (sketch s))" "0 < m"
      "least_counter H ((incremented H k ^^ m) (sketch s)) (fst (last (tlfu_list s)))
        < least_counter H ((incremented H k ^^ m) (sketch s)) k"
    by (rule increments_win [OF ok assms(2,3)])
  then obtain j where "m = Suc j" using gr0_implies_Suc by blast
  with m tlfu_insert_until [OF assms(1) refl, where H = H and k = k and m = j and v = v] show ?thesis
    using order_trans by blast
qed

lemma tlfu_example_sketch: "width (sketch tlfu_example) = 64" "unat (sample_window (sketch tlfu_example)) = 64"
proof -
  let ?s = "tlfu_inner_with_capacity 1 :: (nat, nat) tlfu_inner"
  have new: "tlfu_ok ?s" by (rule tlfu_ok_new; simp)
  have sk: "sketch ?s = cms_new 1" by (simp add: tlfu_inner_with_capacity_def)
  have "sketch tlfu_example = incremented sample_hashing 5 (incremented sample_hashing 5 (cms_new 1))"
    unfolding tlfu_example_def
    by (simp only: tlfu_insert_snd [OF new] tlfu_insert_snd [OF tlfu_insert_snd(1) [OF new]] sk)
  moreover have "width (cms_new 1) = 64"
    by (simp add: cms_new_def Let_def MIN_SKETCH_WIDTH_def sat_mul_def next_power_of_two_def upt_rec)
  ultimately show "width (sketch tlfu_example) = 64" "unat (sample_window (sketch tlfu_example)) = 64"
    by (simp_all add: cms_new_shape(2))
qed

theorem tlfu_persistent_key_stored_witness:
  "\<exists>n \<le> 192. runs_to (tlfu_offer sample_hashing 7 (replicate n 70)) tlfu_example
     (\<lambda>_ s'. tlfu_view s' 7 = Some 70)"
  using tlfu_persistent_key_stored [OF tlfu_example_ok(1), of 0 sample_hashing 7 70]
  by (simp add: tlfu_example_sketch tlfu_example_ok(2) column_def hash_with_seed_def
      sample_hashing_def u64_bytes_def upt_rec)

end
