(* ===== verification/User_Panics.thy ===== *)
theory User_Panics
  imports Lru Sized_Cache Lfu_Cache Ttl_Cache Tinylfu_Cache
begin

section \<open>Panics of user code under the lock\<close>

text \<open>
  \<open>get\<close> clones the value while it holds the mutex, and \<open>Clone\<close> is user code that may panic. The
  bodies of the five \<open>get\<close> methods are restated here with the clone as a parameter, a function that
  returns a value or panics; with \<open>Done\<close> for it they are the bodies of the other theories.
  \<open>lock_recover\<close> hands the state left behind to the next caller, so the question is what that state is.
  The same is then asked of \<open>Hash\<close>, \<open>Eq\<close> and \<open>Clone\<close> of keys in \<open>LruCache::insert\<close>; the other caches follow
  in \<open>Key_Panics\<close>.
\<close>

definition clone_out :: "('v \<Rightarrow> 'v outcome) \<Rightarrow> 'v option \<Rightarrow> ('s, 'v option) exec" where
  "clone_out clone x = (case x of
     None \<Rightarrow> ret None
   | Some v \<Rightarrow> (case clone v of Done w \<Rightarrow> ret (Some w) | Panicked p \<Rightarrow> panic_with p))"

definition lru_get_cloning :: "('v \<Rightarrow> 'v outcome) \<Rightarrow> 'k \<Rightarrow> (('k, 'v) lru_inner, 'v option) exec" where
  "lru_get_cloning clone key =
     bind_exec (gets (\<lambda>s. hm_get (key_map s) key)) (\<lambda>found. case found of
       None \<Rightarrow> ret None
     | Some idx \<Rightarrow>
         seq_exec (promote idx)
         (bind_exec (slot idx) (\<lambda>n. clone_out clone (map_option node_value n))))"

definition sized_get_cloning :: "('v \<Rightarrow> 'v outcome) \<Rightarrow> 'k \<Rightarrow> (('k, 'v) sized_inner, 'v option) exec" where
  "sized_get_cloning clone key =
     bind_exec (gets (\<lambda>s. hm_get (key_map s) key)) (\<lambda>found. case found of
       None \<Rightarrow> ret None
     | Some idx \<Rightarrow>
         seq_exec (sized_promote idx)
         (bind_exec (slot idx) (\<lambda>n. clone_out clone (map_option node_value n))))"

definition tlfu_get_cloning ::
  "'k hashing \<Rightarrow> ('v \<Rightarrow> 'v outcome) \<Rightarrow> 'k \<Rightarrow> (('k, 'v) tlfu_inner, 'v option) exec" where
  "tlfu_get_cloning H clone key =
     seq_exec (on_sketch (increment H key))
     (bind_exec (gets (\<lambda>s. hm_get (key_map s) key)) (\<lambda>found. case found of
       None \<Rightarrow> ret None
     | Some idx \<Rightarrow>
         seq_exec (tlfu_promote idx)
         (bind_exec (slot idx) (\<lambda>n. clone_out clone (map_option node_value n)))))"

definition ttl_get_cloning :: "nat \<Rightarrow> ('v \<Rightarrow> 'v outcome) \<Rightarrow> 'k \<Rightarrow> (('k, 'v) ttl_inner, 'v option) exec" where
  "ttl_get_cloning now clone key =
     bind_exec (gets (\<lambda>s. map_option expires_at (hm_get (ttl_map s) key))) (\<lambda>found. case found of
       None \<Rightarrow> ret None
     | Some expiry \<Rightarrow>
         if expiry \<le> now
         then seq_exec (modify (\<lambda>s. s\<lparr>ttl_map := hm_remove key (ttl_map s)\<rparr>)) (ret None)
         else bind_exec (gets (\<lambda>s. map_option ttl_value (hm_get (ttl_map s) key))) (clone_out clone))"

text \<open>
  In \<open>LfuCache\<close> the clone of the value runs between the change of the entry and that of the index, and a
  clone of the key between the removal of the old binding from the index and the insertion of the new.
\<close>

definition lfu_access ::
  "('v \<Rightarrow> 'v outcome) \<Rightarrow> ('k \<Rightarrow> 'k outcome) \<Rightarrow> u64 \<Rightarrow> 'k \<Rightarrow> (('k, 'v) lfu_inner, 'v option) exec" where
  "lfu_access clone clone_key new_age key =
     bind_exec (gets (\<lambda>s. hm_get (lfu_map s) key)) (\<lambda>found. case found of
       None \<Rightarrow> ret None
     | Some e \<Rightarrow>
         let old_priority = priority e;
             e' = e\<lparr>entry_count := sat_add (entry_count e) 1, entry_age := new_age\<rparr>;
             new_priority = priority e'
         in seq_exec (modify (\<lambda>s. s\<lparr>lfu_map := hm_insert key e' (lfu_map s)\<rparr>))
            (bind_exec (clone_out clone (Some (entry_value e'))) (\<lambda>value.
            seq_exec (modify (\<lambda>s. s\<lparr>by_priority := bt_remove old_priority (by_priority s)\<rparr>))
            (case clone_key key of
               Panicked p \<Rightarrow> panic_with p
             | Done key' \<Rightarrow>
                 seq_exec (modify (\<lambda>s. s\<lparr>by_priority := bt_insert new_priority key' (by_priority s)\<rparr>))
                 (ret value)))))"

definition lfu_get_cloning ::
  "('v \<Rightarrow> 'v outcome) \<Rightarrow> ('k \<Rightarrow> 'k outcome) \<Rightarrow> 'k \<Rightarrow> (('k, 'v) lfu_inner, 'v option) exec" where
  "lfu_get_cloning clone clone_key key = bind_exec tick (\<lambda>new_age. lfu_access clone clone_key new_age key)"

lemma clone_out_Done [simp]: "clone_out Done = ret"
  by (auto simp: clone_out_def fun_eq_iff split: option.split)

lemma ret_bind: "bind_exec (ret a) f = f a"
  by (simp add: fun_eq_iff)

lemma clone_out_state [simp]: "snd (clone_out clone x s) = s"
  by (simp add: clone_out_def split: option.split outcome.split)

lemma snd_bind_last: "(\<And>a t. snd (f a t) = snd (g a t)) \<Longrightarrow> snd (bind_exec m f s) = snd (bind_exec m g s)"
  by (simp add: bind_exec_def split: prod.split outcome.split)

lemma snd_seq_last: "(\<And>t. snd (f t) = snd (g t)) \<Longrightarrow> snd (seq_exec m f s) = snd (seq_exec m g s)"
  unfolding seq_exec_def by (rule snd_bind_last)

text \<open>The bodies of the other theories are those whose clone returns the value.\<close>

lemma cloning_Done:
  "lru_get_cloning Done = lru_get_inner" "sized_get_cloning Done = sized_get_inner"
  "tlfu_get_cloning H Done = tlfu_get_inner H" "ttl_get_cloning now Done = ttl_get_inner now"
  "lfu_get_cloning Done Done = lfu_get_inner"
proof -
  show "lru_get_cloning Done = lru_get_inner" "sized_get_cloning Done = sized_get_inner"
    "tlfu_get_cloning H Done = tlfu_get_inner H"
    by (intro ext; simp add: lru_get_cloning_def lru_get_inner_def sized_get_cloning_def sized_get_inner_def
        tlfu_get_cloning_def tlfu_get_inner_def cong: option.case_cong)+
  show "ttl_get_cloning now Done = ttl_get_inner now"
    by (intro ext) (auto simp: ttl_get_cloning_def ttl_get_inner_def split: option.split)
  have same: "entry_value (e\<lparr>entry_count := c, entry_age := a\<rparr>) = entry_value e" for e :: "'x lfu_entry" and c a
    by simp
  show "lfu_get_cloning Done Done = lfu_get_inner"
    by (intro ext, simp only: lfu_get_cloning_def lfu_access_def lfu_get_inner_def ret_bind clone_out_def Let_def
        option.case outcome.case same)
qed

text \<open>In the other four caches the clone is the last thing \<open>get\<close> does.\<close>

lemma bind_assoc: "bind_exec (bind_exec f g) h = bind_exec f (\<lambda>x. bind_exec (g x) h)"
  by (simp add: fun_eq_iff bind_exec_def split: prod.split outcome.split)

lemma seq_bind: "bind_exec (seq_exec f g) h = seq_exec f (bind_exec g h)"
  by (simp add: seq_exec_def bind_assoc)

lemma clone_out_None [simp]: "clone_out clone None = ret None"
  by (simp add: clone_out_def)

lemma get_then_clone:
  "lru_get_cloning clone k = bind_exec (lru_get_inner k) (clone_out clone)"
  "tlfu_get_cloning H clone k = bind_exec (tlfu_get_inner H k) (clone_out clone)"
  "ttl_get_cloning now clone k = bind_exec (ttl_get_inner now k) (clone_out clone)"
proof -
  show "lru_get_cloning clone k = bind_exec (lru_get_inner k) (clone_out clone)"
    unfolding lru_get_cloning_def lru_get_inner_def bind_assoc seq_bind
    by (intro arg_cong2 [of _ _ _ _ bind_exec] refl ext) (simp add: bind_assoc seq_bind ret_bind split: option.split)
  show "tlfu_get_cloning H clone k = bind_exec (tlfu_get_inner H k) (clone_out clone)"
    unfolding tlfu_get_cloning_def tlfu_get_inner_def bind_assoc seq_bind
    by (intro arg_cong2 [of _ _ _ _ bind_exec] arg_cong2 [of _ _ _ _ seq_exec] refl ext)
      (simp add: bind_assoc seq_bind ret_bind split: option.split)
  show "ttl_get_cloning now clone k = bind_exec (ttl_get_inner now k) (clone_out clone)"
    unfolding ttl_get_cloning_def ttl_get_inner_def bind_assoc
    by (intro arg_cong2 [of _ _ _ _ bind_exec] refl ext) (simp add: bind_assoc seq_bind ret_bind split: option.split)
qed

subsection \<open>Panics in the code of keys\<close>

text \<open>
  An insert also runs \<open>Hash\<close> and \<open>Eq\<close> of keys, in \<open>map.get\<close>, in the \<open>map.remove\<close> of an eviction and in
  \<open>map.insert\<close>, and clones the key. Here the body of \<open>LruCache::insert\<close> with these calls written out;
  \<open>u\<close> says at which of them, and on which key, the user's code panics.
\<close>

record 'k key_panics =
  on_lookup :: "'k \<Rightarrow> bool"
  on_evict :: "'k \<Rightarrow> bool"
  on_clone :: "'k \<Rightarrow> bool"
  on_store :: "'k \<Rightarrow> bool"

definition user_code :: "bool \<Rightarrow> ('s, unit) exec" where
  "user_code fails = (if fails then panic_with UserCode else ret ())"

definition lru_make_room_in :: "'k key_panics \<Rightarrow> (('k, 'v) lru_inner, unit) exec" where
  "lru_make_room_in u =
     bind_exec (gets (\<lambda>s. unat (lru_capacity s) \<le> hm_len (key_map s))) (\<lambda>full.
       if full then
         bind_exec (gets tail) (\<lambda>t. case t of
           Some tail_idx \<Rightarrow>
             seq_exec (unlink tail_idx)
             (bind_exec (dealloc tail_idx) (\<lambda>evicted.
               seq_exec (user_code (on_evict u (node_key evicted)))
               (modify (\<lambda>s. s\<lparr>key_map := hm_remove (node_key evicted) (key_map s)\<rparr>))))
         | None \<Rightarrow> ret ())
       else ret ())"

definition lru_insert_in :: "'k key_panics \<Rightarrow> 'k \<Rightarrow> 'v \<Rightarrow> (('k, 'v) lru_inner, 'v option) exec" where
  "lru_insert_in u key value =
     seq_exec (user_code (on_lookup u key))
     (bind_exec (gets (\<lambda>s. hm_get (key_map s) key)) (\<lambda>found. case found of
       Some idx \<Rightarrow>
         bind_exec (occupied idx) (\<lambda>old.
           seq_exec (mutate idx (\<lambda>n. n\<lparr>node_value := value\<rparr>))
           (seq_exec (promote idx)
           (ret (Some (node_value old)))))
     | None \<Rightarrow>
         seq_exec (lru_make_room_in u)
         (seq_exec (user_code (on_clone u key))
         (bind_exec (alloc \<lparr>node_key = key, node_value = value, node_prev = None, node_next = None\<rparr>)
           (\<lambda>idx. seq_exec (push_front idx)
             (seq_exec (user_code (on_store u key))
             (seq_exec (modify (\<lambda>s. s\<lparr>key_map := hm_insert key idx (key_map s)\<rparr>))
             (ret None))))))))"

lemma user_code_False [simp]: "user_code False = ret ()"
  by (simp add: user_code_def)

lemma ret_seq [simp]: "seq_exec (ret ()) f = f"
  by (simp add: fun_eq_iff)

lemma user_code_True [simp]: "user_code True = panic_with UserCode"
  by (simp add: user_code_def)

subsection \<open>Running undisturbed, up to a panic\<close>

text \<open>
  \<open>f\<close> does what \<open>g\<close> does, or it ends with a panic of user code in a state that satisfies \<open>P\<close>. The rules follow
  the text of a body: \<open>P\<close> is to be shown at every call of user code.
\<close>

named_theorems panic_rules

definition up_to_panic :: "('s \<Rightarrow> bool) \<Rightarrow> ('s, 'a) exec \<Rightarrow> ('s, 'a) exec \<Rightarrow> 's \<Rightarrow> bool" where
  "up_to_panic P f g s \<longleftrightarrow> f s = g s \<or> fst (f s) = Panicked UserCode \<and> P (snd (f s))"

lemma up_refl [panic_rules]: "up_to_panic P f f s"
  by (simp add: up_to_panic_def)

lemma up_bind [panic_rules]:
  assumes "up_to_panic P f f' s" and "\<And>a t. f' s = (Done a, t) \<Longrightarrow> up_to_panic P (h a) (h' a) t"
  shows "up_to_panic P (bind_exec f h) (bind_exec f' h') s"
proof (cases "f s = f' s")
  case True
  then show ?thesis
    using assms(2) by (cases "f' s"; cases "fst (f' s)") (auto simp: up_to_panic_def exec_apply)
next
  case False
  then show ?thesis
    using assms(1) by (cases "f s") (auto simp: up_to_panic_def exec_apply)
qed

lemma up_seq [panic_rules]:
  "up_to_panic P f f' s \<Longrightarrow> (\<And>a t. f' s = (Done a, t) \<Longrightarrow> up_to_panic P h h' t) \<Longrightarrow>
    up_to_panic P (seq_exec f h) (seq_exec f' h') s"
  unfolding seq_exec_def by (rule up_bind)

lemma up_user [panic_rules]:
  "(b \<Longrightarrow> P s) \<Longrightarrow> up_to_panic P f g s \<Longrightarrow> up_to_panic P (seq_exec (user_code b) f) g s"
  by (cases b) (simp_all add: up_to_panic_def user_code_def)

lemma up_mono: "up_to_panic Q f g s \<Longrightarrow> (\<And>t. Q t \<Longrightarrow> P t) \<Longrightarrow> up_to_panic P f g s"
  by (auto simp: up_to_panic_def)

lemma up_to_panicE:
  assumes "up_to_panic P f g s" and "f s = (r, s')"
  obtains "r = Panicked UserCode" and "P s'" | "g s = (r, s')"
  using assms by (auto simp: up_to_panic_def)

text \<open>
  A panic in the lookup or in the clone of the key leaves the shard as it was, or with its tail already
  evicted; without one the body is that of \<open>Lru\<close>.
\<close>

lemma lru_make_room_in_calm: "on_evict u = (\<lambda>_. False) \<Longrightarrow> lru_make_room_in u = lru_make_room"
  by (simp add: lru_make_room_in_def lru_make_room_def cong: if_cong option.case_cong)

lemma lru_make_room_view:
  assumes ok: "lru_ok s" and run: "lru_make_room s = (Done u, s')"
  shows "lru_ok s'" and "lru_bound s' = lru_bound s" and "lru_view s' \<subseteq>\<^sub>m lru_view s"
proof -
  have d: "distinct (map fst (lru_list s))" using ok by (rule lru_okD)
  have s': "arena_inv s'" "lru_capacity s' = lru_capacity s"
      "lru_list s' = (if unat (lru_capacity s) \<le> length (lru_list s) then butlast (lru_list s) else lru_list s)"
    using lru_make_room_refines [OF ok] run by (simp_all add: runs_to_def)
  then show "lru_ok s'" "lru_bound s' = lru_bound s"
    using ok by (auto simp: lru_ok_def lru_bound_def)
  show "lru_view s' \<subseteq>\<^sub>m lru_view s"
    unfolding map_le_def lru_view_def s'(3) using map_of_butlast [OF d] by (metis domIff)
qed

lemma lru_insert_up_to_panic:
  assumes ok: "lru_ok s" and safe: "on_evict u = (\<lambda>_. False)" "on_store u = (\<lambda>_. False)"
  shows "up_to_panic (\<lambda>t. lru_ok t \<and> lru_bound t = lru_bound s \<and> lru_view t \<subseteq>\<^sub>m lru_view s)
    (lru_insert_in u k v) (lru_insert_inner k v) s"
  unfolding lru_insert_in_def lru_insert_inner_def lru_make_room_in_calm [OF safe(1)] safe(2)
  using ok lru_make_room_view [OF ok] by (auto intro!: panic_rules split: option.split)

subsection \<open>Properties\<close>

text \<open>
  \<^bold>\<open>C21.\<close> Four of the caches survive a panicking \<open>Clone\<close>. Whether the clone in \<open>get\<close> returns or
  panics, \<open>LruCache\<close>, \<open>SizedCache\<close>, \<open>TinyLfuCache\<close> and \<open>TtlCache\<close> leave under the lock exactly the state
  that the \<open>get\<close> with a well-behaved clone leaves, so every invariant proved for \<open>get\<close> still holds for
  the next caller.
\<close>

theorem clone_panic_is_harmless:
  "snd (lru_get_cloning clone k s) = snd (lru_get_inner k s) \<and>
   snd (sized_get_cloning clone k t) = snd (sized_get_inner k t) \<and>
   snd (tlfu_get_cloning H clone k u) = snd (tlfu_get_inner H k u) \<and>
   snd (ttl_get_cloning now clone k w) = snd (ttl_get_inner now k w)"
  unfolding lru_get_cloning_def lru_get_inner_def sized_get_cloning_def sized_get_inner_def
    tlfu_get_cloning_def tlfu_get_inner_def ttl_get_cloning_def ttl_get_inner_def
  by (intro conjI snd_bind_last snd_seq_last)
    (auto split: option.split simp: intro!: snd_bind_last snd_seq_last)

text \<open>
  A shard of capacity 1: key 1 is inserted and read twice, the clone of the first read panicking; key 2
  is inserted and read twice; key 3 is inserted. Every call runs under the mutex.
\<close>

definition lfu_panic_run :: "(nat, nat) lfu_inner mutex" where
  "lfu_panic_run =
     (let run = (\<lambda>f m. snd (locked f m)) in
      run (lfu_insert_inner 3 30) (run (lfu_get_inner 2) (run (lfu_get_inner 2) (run (lfu_insert_inner 2 20)
     (run (lfu_get_inner 1) (run (lfu_get_cloning (\<lambda>_. Panicked UserCode) Done 1) (run (lfu_insert_inner 1 10)
     (mutex_new (lfu_inner_with_capacity 1)))))))))"

lemmas lfu_eval = lfu_get_inner_def lfu_get_cloning_def lfu_access_def clone_out_def lfu_insert_inner_def
  lfu_make_room_def lfu_inner_with_capacity_def tick_eq exec_apply Let_def priority_def sat_add_def
  hm_get_def hm_insert_def hm_remove_def hm_len_def hm_empty_def bt_empty_def bt_pop_first_def locked_def

lemma lfu_panic_run_eq:
  "lfu_panic_run = \<lparr>content = \<lparr>lfu_capacity = 1,
     lfu_map = [(2, \<lparr>entry_value = 20, entry_count = 3, entry_age = 6\<rparr>),
       (3, \<lparr>entry_value = 30, entry_count = 1, entry_age = 7\<rparr>)],
     by_priority = [((1, 7), 3), ((3, 6), 2)], clock = 7\<rparr>, poisoned = True\<rparr>"
  by (simp add: lfu_panic_run_def lfu_eval)

text \<open>
  In the second run the clone of key 1 panics: the index has lost its binding, the map has not.
\<close>

definition lfu_key_panic_run :: "(nat, nat) lfu_inner mutex" where
  "lfu_key_panic_run =
     (let run = (\<lambda>f m. snd (locked f m)) in
      run (lfu_insert_inner 2 20) (run (lfu_get_cloning Done (\<lambda>_. Panicked UserCode) 1) (run (lfu_insert_inner 1 10)
     (mutex_new (lfu_inner_with_capacity 1)))))"

lemma lfu_key_panic_run_eq:
  "lfu_key_panic_run = \<lparr>content = \<lparr>lfu_capacity = 1,
     lfu_map = [(1, \<lparr>entry_value = 10, entry_count = 2, entry_age = 2\<rparr>),
       (2, \<lparr>entry_value = 20, entry_count = 1, entry_age = 3\<rparr>)],
     by_priority = [((1, 3), 2)], clock = 3\<rparr>, poisoned = True\<rparr>"
  by (simp add: lfu_key_panic_run_def lfu_eval)

text \<open>
  \<^bold>\<open>C18.\<close> \<open>LfuCache\<close> does not survive it. Its \<open>get\<close> changes the entry's count and age, then clones the
  value, removes the old binding from the index, clones the key and inserts the new binding. A panicking
  clone of the value leaves a stale binding in the index, one of the key an entry without a binding. In
  these runs of calls, with one panic each, a shard of capacity 1 ends up with two entries, \<open>len\<close> returns
  2, and the key that a later overflow should have evicted is still there.
\<close>

theorem lfu_clone_panic_exceeds_capacity:
  "poisoned lfu_panic_run \<and> lfu_capacity (content lfu_panic_run) = 1 \<and>
   fst (locked lfu_len_inner lfu_panic_run) = Done 2 \<and>
   fst (locked (lfu_contains_inner 2) lfu_panic_run) = Done True \<and>
   fst (locked (lfu_contains_inner 3) lfu_panic_run) = Done True \<and>
   fst (locked (lfu_get_cloning (\<lambda>_. Panicked UserCode) Done 1)
     (snd (locked (lfu_insert_inner 1 10) (mutex_new (lfu_inner_with_capacity 1 :: (nat, nat) lfu_inner)))))
     = Panicked UserCode \<and>
   poisoned lfu_key_panic_run \<and> lfu_capacity (content lfu_key_panic_run) = 1 \<and>
   fst (locked lfu_len_inner lfu_key_panic_run) = Done 2 \<and>
   fst (locked (lfu_contains_inner 1) lfu_key_panic_run) = Done True"
  by (simp add: lfu_key_panic_run_eq lfu_panic_run_eq lfu_len_inner_def lfu_contains_inner_def hm_contains_def lfu_eval)

text \<open>
  Two runs on a shard of capacity 1, every call under the mutex. In the first, \<open>Hash\<close> panics in the
  eviction of key 1, after its node has been freed; in the second, in the \<open>map.insert\<close> of key 1, after
  its node has been linked.
\<close>

definition lru_calm :: "nat key_panics" where
  "lru_calm = \<lparr>on_lookup = (\<lambda>_. False), on_evict = (\<lambda>_. False), on_clone = (\<lambda>_. False), on_store = (\<lambda>_. False)\<rparr>"

definition lru_run_calls ::
  "(nat key_panics \<times> nat \<times> nat) list \<Rightarrow> (nat, nat) lru_inner mutex" where
  "lru_run_calls calls =
     fold (\<lambda>(u, k, v) m. snd (locked (lru_insert_in u k v) m)) calls (mutex_new (lru_inner_with_capacity 1))"

definition lru_evict_panic :: "(nat, nat) lru_inner mutex" where
  "lru_evict_panic = lru_run_calls [(lru_calm, 1, 10), (lru_calm\<lparr>on_evict := (\<lambda>_. True)\<rparr>, 2, 20), (lru_calm, 3, 30)]"

definition lru_store_panic :: "(nat, nat) lru_inner mutex" where
  "lru_store_panic = lru_run_calls [(lru_calm\<lparr>on_store := (\<lambda>_. True)\<rparr>, 1, 10), (lru_calm, 2, 20), (lru_calm, 3, 30)]"

lemmas lru_panic_eval = lru_run_calls_def lru_calm_def lru_insert_in_def lru_make_room_in_def user_code_def
  locked_def lru_inner_with_capacity_def lru_len_inner_def lru_get_inner_def arena_eval

text \<open>
  When it panics in the eviction, the hash map keeps the index of a freed slot: the shard of capacity 1 ends
  up with two entries, and \<open>get\<close> of the evicted key returns the value of another key. When it panics in the
  final \<open>map.insert\<close>, the list keeps a node that the map does not know, a later eviction takes that one,
  and the shard again exceeds its capacity.
\<close>

lemma lru_hash_panic_exceeds_capacity:
  "poisoned lru_evict_panic \<and> lru_capacity (content lru_evict_panic) = 1 \<and>
   fst (locked lru_len_inner lru_evict_panic) = Done 2 \<and>
   fst (locked (lru_get_inner 1) lru_evict_panic) = Done (Some 30) \<and>
   poisoned lru_store_panic \<and> lru_capacity (content lru_store_panic) = 1 \<and>
   fst (locked lru_len_inner lru_store_panic) = Done 2"
  by (simp add: lru_evict_panic_def lru_store_panic_def lru_panic_eval)

end
