(* ===== verification/Key_Panics.thy ===== *)
theory Key_Panics
  imports User_Panics
begin

section \<open>Panics in the code of keys, call by call\<close>

text \<open>
  \<open>Hash\<close>, \<open>Eq\<close> and \<open>Clone\<close> of keys are user code that runs under the lock. For \<open>TtlCache\<close>, \<open>TinyLfuCache\<close>,
  \<open>LfuCache\<close> and \<open>SizedCache\<close> the bodies are restated here with every such call written out: \<open>u c key\<close>
  says whether call \<open>c\<close> panics on \<open>key\<close>. (A call of \<open>HashMap\<close> hashes before it changes the map, so a panic in
  it leaves the map as it was. \<open>shard_for\<close> hashes before the lock is taken, \<open>LruCache\<close> is in \<open>User_Panics\<close>.)
  \<open>up_to_panic\<close> compares such a body with the one that runs undisturbed.
\<close>

text \<open>
  The calls: the lookup at the beginning of a method; the removal of an expired entry and the second read
  of a live one; the clone and the removal of a victim; the clone of the key for the new entry and its
  insertion; the hashes of the sketch, row by row, for an access and for the two estimates.
\<close>

datatype user_call = Lookup | Discard | Reread | Clone_victim | Evict | Clone_key | Store
  | Row nat | Candidate_row nat | Victim_row nat

type_synonym 'k user = "user_call \<Rightarrow> 'k \<Rightarrow> bool"

definition calm :: "'k user" where
  "calm = (\<lambda>_ _. False)"

text \<open>The user code panics at most in the calls \<open>C\<close>.\<close>

definition only :: "user_call set \<Rightarrow> 'k user \<Rightarrow> 'k user" where
  "only C u c key \<longleftrightarrow> c \<in> C \<and> u c key"

lemma calm_simps [simp]: "calm c k = False" "only C calm c k = False"
  by (simp_all add: calm_def only_def)

subsection \<open>TtlCache\<close>

definition ttl_get_in ::
  "nat \<Rightarrow> 'k user \<Rightarrow> ('v \<Rightarrow> 'v outcome) \<Rightarrow> 'k \<Rightarrow> (('k, 'v) ttl_inner, 'v option) exec" where
  "ttl_get_in now u clone key =
     seq_exec (user_code (u Lookup key))
     (bind_exec (gets (\<lambda>s. map_option expires_at (hm_get (ttl_map s) key))) (\<lambda>found. case found of
       None \<Rightarrow> ret None
     | Some expiry \<Rightarrow>
         if expiry \<le> now
         then seq_exec (user_code (u Discard key))
              (seq_exec (modify (\<lambda>s. s\<lparr>ttl_map := hm_remove key (ttl_map s)\<rparr>)) (ret None))
         else seq_exec (user_code (u Reread key))
              (bind_exec (gets (\<lambda>s. map_option ttl_value (hm_get (ttl_map s) key))) (clone_out clone))))"

definition ttl_insert_fresh_in ::
  "('k, 'v) ttl_env \<Rightarrow> 'k user \<Rightarrow> 'k \<Rightarrow> 'v \<Rightarrow> nat \<Rightarrow> (('k, 'v) ttl_inner, 'v option) exec" where
  "ttl_insert_fresh_in E u key value deadline =
     seq_exec (user_code (u Discard key))
     (seq_exec (modify (\<lambda>s. s\<lparr>ttl_map := hm_remove key (ttl_map s)\<rparr>))
     (seq_exec
        (bind_exec (gets (\<lambda>s. unat (ttl_capacity s) \<le> hm_len (ttl_map s))) (\<lambda>full.
           if full then
             bind_exec (gets (\<lambda>s. find_victim E (ttl_map s))) (\<lambda>v. case v of
               Some victim \<Rightarrow>
                 seq_exec (user_code (u Clone_victim victim))
                 (seq_exec (user_code (u Evict victim))
                 (modify (\<lambda>s. s\<lparr>ttl_map := hm_remove victim (ttl_map s)\<rparr>)))
             | None \<Rightarrow> ret ())
           else ret ()))
     (seq_exec (user_code (u Store key))
     (seq_exec (modify (\<lambda>s. s\<lparr>ttl_map :=
         hm_insert key \<lparr>ttl_value = value, expires_at = deadline\<rparr> (ttl_map s)\<rparr>))
     (ret None)))))"

definition ttl_insert_in ::
  "('k, 'v) ttl_env \<Rightarrow> nat \<Rightarrow> 'k user \<Rightarrow> 'k \<Rightarrow> 'v \<Rightarrow> nat \<Rightarrow> (('k, 'v) ttl_inner, 'v option) exec" where
  "ttl_insert_in E now u key value deadline =
     seq_exec (user_code (u Lookup key))
     (bind_exec (gets (\<lambda>s. hm_get (ttl_map s) key)) (\<lambda>found. case found of
       Some existing \<Rightarrow>
         if now < expires_at existing
         then seq_exec (modify (\<lambda>s. s\<lparr>ttl_map :=
                hm_insert key (existing\<lparr>ttl_value := value, expires_at := deadline\<rparr>) (ttl_map s)\<rparr>))
              (ret (Some (ttl_value existing)))
         else ttl_insert_fresh_in E u key value deadline
     | None \<Rightarrow> ttl_insert_fresh_in E u key value deadline))"

definition ttl_contains_in :: "nat \<Rightarrow> 'k user \<Rightarrow> 'k \<Rightarrow> (('k, 'v) ttl_inner, bool) exec" where
  "ttl_contains_in now u key =
     seq_exec (user_code (u Lookup key))
     (bind_exec (gets (\<lambda>s. map_option expires_at (hm_get (ttl_map s) key))) (\<lambda>found. case found of
       None \<Rightarrow> ret False
     | Some expiry \<Rightarrow>
         if now < expiry then ret True
         else seq_exec (user_code (u Discard key))
              (seq_exec (modify (\<lambda>s. s\<lparr>ttl_map := hm_remove key (ttl_map s)\<rparr>)) (ret False))))"

subsection \<open>TinyLfuCache\<close>

fun increment_rows_in ::
  "(nat \<Rightarrow> bool) \<Rightarrow> 'k hashing \<Rightarrow> 'k \<Rightarrow> nat list \<Rightarrow> (count_min_sketch, unit) exec" where
  "increment_rows_in p H key [] = ret ()"
| "increment_rows_in p H key (d # ds) =
     seq_exec (user_code (p d))
     (bind_exec (cell H d key) (\<lambda>idx.
     seq_exec (modify (\<lambda>s. s\<lparr>counters := bump_counter (counters s) idx\<rparr>))
     (increment_rows_in p H key ds)))"

definition increment_in :: "(nat \<Rightarrow> bool) \<Rightarrow> 'k hashing \<Rightarrow> 'k \<Rightarrow> (count_min_sketch, unit) exec" where
  "increment_in p H key =
     seq_exec (increment_rows_in p H key [0..<SKETCH_DEPTH])
     (seq_exec (modify (\<lambda>s. s\<lparr>samples := sat_add (samples s) 1\<rparr>))
     (modify (\<lambda>s. if sample_window s \<le> samples s then (age s)\<lparr>samples := 0\<rparr> else s)))"

fun estimate_rows_in ::
  "(nat \<Rightarrow> bool) \<Rightarrow> 'k hashing \<Rightarrow> 'k \<Rightarrow> nat list \<Rightarrow> u8 \<Rightarrow> (count_min_sketch, u8) exec" where
  "estimate_rows_in p H key [] least = ret least"
| "estimate_rows_in p H key (d # ds) least =
     seq_exec (user_code (p d))
     (bind_exec (cell H d key) (\<lambda>idx.
     bind_exec (gets (\<lambda>s. counter_at (counters s) idx)) (\<lambda>observed.
       estimate_rows_in p H key ds (if observed < least then observed else least))))"

definition estimate_in :: "(nat \<Rightarrow> bool) \<Rightarrow> 'k hashing \<Rightarrow> 'k \<Rightarrow> (count_min_sketch, u8) exec" where
  "estimate_in p H key = estimate_rows_in p H key [0..<SKETCH_DEPTH] (- 1)"

definition tlfu_get_in ::
  "'k hashing \<Rightarrow> 'k user \<Rightarrow> ('v \<Rightarrow> 'v outcome) \<Rightarrow> 'k \<Rightarrow> (('k, 'v) tlfu_inner, 'v option) exec" where
  "tlfu_get_in H u clone key =
     seq_exec (on_sketch (increment_in (\<lambda>d. u (Row d) key) H key))
     (seq_exec (user_code (u Lookup key))
     (bind_exec (gets (\<lambda>s. hm_get (key_map s) key)) (\<lambda>found. case found of
       None \<Rightarrow> ret None
     | Some idx \<Rightarrow>
         seq_exec (tlfu_promote idx)
         (bind_exec (slot idx) (\<lambda>n. clone_out clone (map_option node_value n))))))"

definition tlfu_admit_in :: "'k hashing \<Rightarrow> 'k user \<Rightarrow> 'k \<Rightarrow> (('k, 'v) tlfu_inner, bool) exec" where
  "tlfu_admit_in H u key =
     bind_exec (gets (\<lambda>s. unat (tlfu_capacity s) \<le> hm_len (key_map s))) (\<lambda>full.
       if full then
         bind_exec (on_sketch (estimate_in (\<lambda>d. u (Candidate_row d) key) H key)) (\<lambda>candidate_freq.
         bind_exec (gets tail) (\<lambda>t. case t of
           None \<Rightarrow> ret False
         | Some tail_idx \<Rightarrow>
             bind_exec (occupied tail_idx) (\<lambda>n.
             let victim_key = node_key n in
             seq_exec (user_code (u Clone_victim victim_key))
             (bind_exec (on_sketch (estimate_in (\<lambda>d. u (Victim_row d) victim_key) H victim_key)) (\<lambda>victim_freq.
             if candidate_freq \<le> victim_freq then ret False
             else
               seq_exec (tlfu_unlink tail_idx)
               (bind_exec (tlfu_dealloc tail_idx) (\<lambda>_.
               seq_exec (user_code (u Evict victim_key))
               (seq_exec (modify (\<lambda>s. s\<lparr>key_map := hm_remove victim_key (key_map s)\<rparr>))
               (ret True)))))))))
       else ret True)"

definition tlfu_insert_in ::
  "'k hashing \<Rightarrow> 'k user \<Rightarrow> 'k \<Rightarrow> 'v \<Rightarrow> (('k, 'v) tlfu_inner, 'v option) exec" where
  "tlfu_insert_in H u key value =
     seq_exec (on_sketch (increment_in (\<lambda>d. u (Row d) key) H key))
     (seq_exec (user_code (u Lookup key))
     (bind_exec (gets (\<lambda>s. hm_get (key_map s) key)) (\<lambda>found. case found of
       Some idx \<Rightarrow>
         bind_exec (occupied idx) (\<lambda>old.
           seq_exec (mutate idx (\<lambda>n. n\<lparr>node_value := value\<rparr>))
           (seq_exec (tlfu_promote idx)
           (ret (Some (node_value old)))))
     | None \<Rightarrow>
         bind_exec (tlfu_admit_in H u key) (\<lambda>admitted.
           if admitted then
             seq_exec (user_code (u Clone_key key))
             (bind_exec (tlfu_alloc \<lparr>node_key = key, node_value = value, node_prev = None, node_next = None\<rparr>)
             (\<lambda>idx. seq_exec (tlfu_push_front idx)
               (seq_exec (user_code (u Store key))
               (seq_exec (modify (\<lambda>s. s\<lparr>key_map := hm_insert key idx (key_map s)\<rparr>))
               (ret None)))))
           else ret None))))"

subsection \<open>LfuCache\<close>

definition lfu_get_in ::
  "'k user \<Rightarrow> ('v \<Rightarrow> 'v outcome) \<Rightarrow> 'k \<Rightarrow> (('k, 'v) lfu_inner, 'v option) exec" where
  "lfu_get_in u clone key =
     bind_exec tick (\<lambda>new_age.
     seq_exec (user_code (u Lookup key))
     (lfu_access clone (\<lambda>k. if u Clone_key k then Panicked UserCode else Done k) new_age key))"

definition lfu_make_room_in :: "'k user \<Rightarrow> (('k, 'v) lfu_inner, unit) exec" where
  "lfu_make_room_in u =
     bind_exec (gets (\<lambda>s. unat (lfu_capacity s) \<le> hm_len (lfu_map s))) (\<lambda>full.
       if full then
         bind_exec (gets (\<lambda>s. bt_pop_first (by_priority s))) (\<lambda>popped. case popped of
           Some ((_, victim_key), rest) \<Rightarrow>
             seq_exec (modify (\<lambda>s. s\<lparr>by_priority := rest\<rparr>))
             (seq_exec (user_code (u Evict victim_key))
             (modify (\<lambda>s. s\<lparr>lfu_map := hm_remove victim_key (lfu_map s)\<rparr>)))
         | None \<Rightarrow> ret ())
       else ret ())"

definition lfu_insert_in :: "'k user \<Rightarrow> 'k \<Rightarrow> 'v \<Rightarrow> (('k, 'v) lfu_inner, 'v option) exec" where
  "lfu_insert_in u key value =
     bind_exec tick (\<lambda>new_age.
     seq_exec (user_code (u Lookup key))
     (bind_exec (gets (\<lambda>s. hm_get (lfu_map s) key)) (\<lambda>found. case found of
       Some e \<Rightarrow>
         let old_priority = priority e;
             e' = e\<lparr>entry_value := value, entry_count := sat_add (entry_count e) 1, entry_age := new_age\<rparr>;
             new_priority = priority e'
         in seq_exec (modify (\<lambda>s. s\<lparr>lfu_map := hm_insert key e' (lfu_map s)\<rparr>))
            (seq_exec (modify (\<lambda>s. s\<lparr>by_priority := bt_remove old_priority (by_priority s)\<rparr>))
            (seq_exec (modify (\<lambda>s. s\<lparr>by_priority := bt_insert new_priority key (by_priority s)\<rparr>))
            (ret (Some (entry_value e)))))
     | None \<Rightarrow>
         let e = \<lparr>entry_value = value, entry_count = 1, entry_age = new_age\<rparr>
         in seq_exec (lfu_make_room_in u)
            (seq_exec (user_code (u Clone_key key))
            (seq_exec (user_code (u Store key))
            (seq_exec (modify (\<lambda>s. s\<lparr>lfu_map := hm_insert key e (lfu_map s)\<rparr>))
            (seq_exec (modify (\<lambda>s. s\<lparr>by_priority := bt_insert (priority e) key (by_priority s)\<rparr>))
            (ret None))))))))"

subsection \<open>SizedCache\<close>

text \<open>The loop before a new entry, with the \<open>map.remove\<close> of each evicted key.\<close>

function evict_to_fit_in :: "'k user \<Rightarrow> usize \<Rightarrow> usize \<Rightarrow> (('k, 'v) sized_inner, unit) exec" where
  "evict_to_fit_in u limit new_weight s =
     (if limit < sat_add (total_weight s) new_weight
      then case evict_tail s of
             (Panicked p, s') \<Rightarrow> (Panicked p, s')
           | (Done None, s') \<Rightarrow> (Done (), s')
           | (Done (Some (k, w)), s') \<Rightarrow>
               if u Evict k then (Panicked UserCode, s')
               else evict_to_fit_in u limit new_weight (s'\<lparr>key_map := hm_remove k (key_map s')\<rparr>)
      else (Done (), s))"
  by pat_completeness auto
termination
  by (relation "measure (\<lambda>(u, l, w, s). card (occupied_slots s))")
    (auto dest: evict_tail_occupied [OF sym])

declare evict_to_fit_in.simps [simp del]

definition sized_insert_in ::
  "'k user \<Rightarrow> usize \<Rightarrow> usize \<Rightarrow> 'k \<Rightarrow> 'v \<Rightarrow> (('k, 'v) sized_inner, 'v option) exec" where
  "sized_insert_in u limit new_weight key value =
     seq_exec (user_code (u Lookup key))
     (bind_exec (gets (\<lambda>s. hm_get (key_map s) key)) (\<lambda>found. case found of
       Some idx \<Rightarrow> sized_live_update limit new_weight value idx
     | None \<Rightarrow>
         seq_exec (evict_to_fit_in u limit new_weight)
         (seq_exec (user_code (u Clone_key key))
         (bind_exec (sized_alloc \<lparr>node_key = key, node_value = value, node_prev = None,
             node_next = None, weight = new_weight\<rparr>) (\<lambda>idx.
           seq_exec (sized_push_front idx)
           (seq_exec (user_code (u Store key))
           (seq_exec (modify (\<lambda>s. s\<lparr>key_map := hm_insert key idx (key_map s)\<rparr>))
           (seq_exec (modify (\<lambda>s. s\<lparr>total_weight := sat_add (total_weight s) new_weight\<rparr>))
           (ret None)))))))))"

text \<open>Where the user code does not panic these are the bodies of the other theories.\<close>

lemma ttl_calm:
  "ttl_get_in now calm clone = ttl_get_cloning now clone" "ttl_insert_in E now calm = ttl_insert_inner E now"
  "ttl_contains_in now calm = ttl_contains_inner now"
  by (simp_all add: fun_eq_iff ttl_get_in_def ttl_get_cloning_def ttl_insert_in_def ttl_insert_inner_def
      ttl_insert_fresh_in_def ttl_insert_fresh_def ttl_contains_in_def ttl_contains_inner_def
      split: option.split cong: if_cong)

lemma sketch_calm:
  "increment_in (\<lambda>_. False) = increment" "estimate_in (\<lambda>_. False) = estimate"
proof -
  have rows: "increment_rows_in (\<lambda>_. False) H key ds = increment_rows H key ds" for H :: "'x hashing" and key ds
    by (induction ds) simp_all
  have least: "estimate_rows_in (\<lambda>_. False) H key ds l = estimate_rows H key ds l" for H :: "'x hashing" and key ds l
    by (induction ds arbitrary: l) simp_all
  show "increment_in (\<lambda>_. False) = (increment :: 'x hashing \<Rightarrow> _)"
    by (simp add: fun_eq_iff increment_in_def increment_def rows)
  show "estimate_in (\<lambda>_. False) = (estimate :: 'x hashing \<Rightarrow> _)"
    by (simp add: fun_eq_iff estimate_in_def estimate_def least)
qed

lemma tlfu_calm:
  "tlfu_get_in H calm clone = tlfu_get_cloning H clone" "tlfu_insert_in H calm = tlfu_insert_inner H"
proof -
  have admit: "tlfu_admit_in H calm = tlfu_admit H" for H :: "'x hashing"
    by (simp add: fun_eq_iff tlfu_admit_in_def tlfu_admit_def sketch_calm Let_def cong: if_cong option.case_cong)
  show "tlfu_get_in H calm clone = tlfu_get_cloning H clone"
    by (simp add: fun_eq_iff tlfu_get_in_def tlfu_get_cloning_def sketch_calm cong: option.case_cong)
  show "tlfu_insert_in H calm = tlfu_insert_inner H"
    by (simp add: fun_eq_iff tlfu_insert_in_def tlfu_insert_inner_def sketch_calm admit cong: option.case_cong if_cong)
qed

lemma lfu_calm: "lfu_get_in calm clone = lfu_get_cloning clone Done" "lfu_insert_in calm = lfu_insert_inner"
proof -
  have room: "lfu_make_room_in calm = lfu_make_room"
    by (simp add: fun_eq_iff lfu_make_room_in_def lfu_make_room_def cong: option.case_cong if_cong)
  show "lfu_get_in calm clone = lfu_get_cloning clone Done"
    by (simp add: fun_eq_iff lfu_get_in_def lfu_get_cloning_def)
  show "lfu_insert_in calm = lfu_insert_inner"
    by (simp add: fun_eq_iff lfu_insert_in_def lfu_insert_inner_def room Let_def cong: option.case_cong)
qed

lemma sized_calm: "sized_insert_in calm = sized_insert_inner"
proof -
  have loop: "evict_to_fit_in u limit w s = evict_to_fit limit w s" if "u = calm" for u :: "'x user" and limit w s
    using that unfolding evict_to_fit_def
    by (induction u limit w s rule: evict_to_fit_in.induct)
      (subst evict_to_fit_in.simps, subst evict_while.simps, auto split: prod.split outcome.split option.split)
  show ?thesis
    by (simp add: fun_eq_iff sized_insert_in_def sized_insert_inner_def exec_apply loop split: option.split)
qed

subsection \<open>Where a panic is harmless\<close>

text \<open>An insert into \<open>TtlCache\<close>, a map without links, can be stopped at any call.\<close>

lemma ttl_insert_up_to_panic:
  assumes ok: "ttl_ok s"
  shows "up_to_panic (\<lambda>t. ttl_ok t \<and> ttl_capacity t = ttl_capacity s \<and> ttl_stored t \<subseteq>\<^sub>m ttl_stored s)
    (ttl_insert_in E now u k v d) (ttl_insert_inner E now k v d) s"
proof -
  let ?P = "\<lambda>t :: ('a, 'b) ttl_inner. ttl_ok t \<and> ttl_capacity t = ttl_capacity s \<and> ttl_stored t \<subseteq>\<^sub>m ttl_stored s"
  have drop: "?P (t\<lparr>ttl_map := hm_remove j (ttl_map t)\<rparr>)" if "?P t" for t j
    using that ttl_drop [of t j] by (auto simp: map_le_def)
  have here: "?P s" using ok by simp
  have fresh: "up_to_panic ?P (ttl_insert_fresh_in E u k v d) (ttl_insert_fresh E k v d) s"
    unfolding ttl_insert_fresh_in_def ttl_insert_fresh_def
    by (intro panic_rules here) (auto intro!: panic_rules here drop split: option.splits if_splits)
  show ?thesis
    unfolding ttl_insert_in_def ttl_insert_inner_def
    by (intro panic_rules here) (auto intro!: panic_rules fresh split: option.split)
qed

lemma ttl_get_up_to_panic:
  assumes ok: "ttl_ok s"
  shows "up_to_panic (\<lambda>t. ttl_ok t \<and> ttl_capacity t = ttl_capacity s \<and> ttl_stored t \<subseteq>\<^sub>m ttl_stored s)
    (ttl_get_in now u clone k) (ttl_get_cloning now clone k) s"
  unfolding ttl_get_in_def ttl_get_cloning_def
  using ok by (auto intro!: panic_rules split: option.split)

lemma ttl_contains_up_to_panic:
  assumes ok: "ttl_ok s"
  shows "up_to_panic (\<lambda>t. ttl_ok t \<and> ttl_capacity t = ttl_capacity s \<and> ttl_stored t \<subseteq>\<^sub>m ttl_stored s)
    (ttl_contains_in now u k) (ttl_contains_inner now k) s"
  unfolding ttl_contains_in_def ttl_contains_inner_def
  using ok by (auto intro!: panic_rules split: option.split)

text \<open>
  \<open>TinyLfuCache\<close> and \<open>LfuCache\<close> can be stopped wherever list, map and index agree: at any call but the
  removal of a victim from the map, and for \<open>TinyLfuCache\<close> the insertion of the new key into it.
\<close>

lemma sketch_rows: "set [0..<SKETCH_DEPTH] \<subseteq> {..<4}"
  by (auto simp: SKETCH_DEPTH_def)

lemma increment_up_to_panic:
  assumes "sketch_ok s"
  shows "up_to_panic sketch_ok (increment_in p H key) (increment H key) s"
proof -
  have "up_to_panic sketch_ok (increment_rows_in p H key ds) (increment_rows H key ds) t"
    if "sketch_ok t" "set ds \<subseteq> {..<4}" for t ds
    using that
  proof (induction ds arbitrary: t)
    case (Cons d ds)
    then have "cell H d key t = (Done (of_nat (position H t d key)), t)" by (simp add: cell_eq(1))
    with Cons show ?case
      by (auto intro!: panic_rules Cons.IH simp: sketch_ok_def)
  qed (simp add: panic_rules)
  from this [OF assms sketch_rows] show ?thesis
    unfolding increment_in_def increment_def by (intro up_seq up_refl)
qed

lemma estimate_up_to_panic:
  assumes ok: "sketch_ok s"
  shows "up_to_panic (\<lambda>t. t = s) (estimate_in p H key) (estimate H key) s"
proof -
  have "up_to_panic (\<lambda>t. t = s) (estimate_rows_in p H key ds l) (estimate_rows H key ds l) s"
    if "set ds \<subseteq> {..<4}" for ds l
    using that
  proof (induction ds arbitrary: l)
    case (Cons d ds)
    then have "cell H d key s = (Done (of_nat (position H s d key)), s)" using ok by (simp add: cell_eq(1))
    with Cons show ?case by (auto intro!: panic_rules Cons.IH)
  qed (simp add: panic_rules)
  then show ?thesis unfolding estimate_in_def estimate_def using sketch_rows by blast
qed

lemma on_sketch_up_to_panic:
  "up_to_panic Q f g (sketch s) \<Longrightarrow> (\<And>k. Q k \<Longrightarrow> P (s\<lparr>sketch := k\<rparr>)) \<Longrightarrow>
    up_to_panic P (on_sketch f) (on_sketch g) s"
  by (auto simp: up_to_panic_def on_sketch_def split: prod.split)

lemma tlfu_admit_up_to_panic:
  assumes ok: "tlfu_ok s" and safe: "\<And>j. \<not> u Evict j"
  shows "up_to_panic (\<lambda>t. t = s) (tlfu_admit_in H u k) (tlfu_admit H k) s"
proof -
  have sk: "sketch_ok (sketch s)" using ok by (simp add: tlfu_ok_def)
  have est: "up_to_panic (\<lambda>t. t = s) (on_sketch (estimate_in p H j)) (on_sketch (estimate H j)) s" for p j
    by (rule on_sketch_up_to_panic [OF estimate_up_to_panic [OF sk]]) simp
  have same: "t = s" if "on_sketch (estimate H j) s = (Done a, t)" for j a t
    using that on_sketch_eq(2) [OF ok, of H j] by simp
  have occ: "t = s" if "occupied i s = (Done n, t)" for i n t
    using that by (auto simp: occupied_def slot_def exec_apply split: if_splits option.splits)
  show ?thesis
    unfolding tlfu_admit_in_def tlfu_admit_def Let_def
    by (auto intro!: panic_rules est dest!: same occ simp: safe split: option.split)
qed

lemma tlfu_insert_up_to_panic:
  assumes ok: "tlfu_ok s" and safe: "\<And>j. \<not> u Evict j" "\<And>j. \<not> u Store j"
  shows "up_to_panic (\<lambda>t. tlfu_ok t \<and> tlfu_capacity t = tlfu_capacity s \<and> map_of (tlfu_list t) \<subseteq>\<^sub>m map_of (tlfu_list s))
    (tlfu_insert_in H u k v) (tlfu_insert_inner H k v) s" (is "up_to_panic ?P _ _ _")
proof -
  let ?s = "counted H k s"
  have ok': "tlfu_ok ?s" using ok by (rule counted_ok)
  have sk: "sketch_ok (sketch s)" using ok by (simp add: tlfu_ok_def)
  have sketch: "?P (s\<lparr>sketch := x\<rparr>)" if "sketch_ok x" for x using ok that by (simp add: tlfu_ok_def)
  have inc: "up_to_panic ?P (on_sketch (increment_in p H k)) (on_sketch (increment H k)) s" for p
    using increment_up_to_panic [OF sk] sketch by (rule on_sketch_up_to_panic)
  have counted: "t = ?s" if "on_sketch (increment H k) s = (Done a, t)" for a t
    using that on_sketch_eq(1) [OF ok, of H k] by simp
  have here: "?P ?s" using ok' by simp
  have admit: "up_to_panic ?P (tlfu_admit_in H u k) (tlfu_admit H k) ?s"
    by (rule up_mono [OF tlfu_admit_up_to_panic [where u = u, OF ok' safe(1)]]) (use here in simp)
  have admitted: "?P t" if "tlfu_admit H k ?s = (Done True, t)" for t
  proof -
    have "distinct (map fst (tlfu_list ?s))" using ok' by (rule tlfu_okD)
    then have "map_of (butlast (tlfu_list ?s)) \<subseteq>\<^sub>m map_of (tlfu_list ?s)"
      using map_of_butlast unfolding map_le_def by (metis domIff)
    moreover have "arena_inv t" "same_rest ?s t" "tlfu_list t = tlfu_list ?s \<or> tlfu_list t = butlast (tlfu_list ?s)"
      using tlfu_admit_spec [OF ok', of H k] that by (auto simp: runs_to_def split: if_splits)
    ultimately show ?thesis using ok' by (auto simp: tlfu_ok_def same_rest_def)
  qed
  show ?thesis
    unfolding tlfu_insert_in_def tlfu_insert_inner_def
    by (intro panic_rules inc; drule counted)
      (auto intro!: panic_rules ok' admit admitted simp: safe split: option.split)
qed

lemma tlfu_get_up_to_panic:
  assumes ok: "tlfu_ok s"
  shows "up_to_panic (\<lambda>t. tlfu_ok t \<and> tlfu_capacity t = tlfu_capacity s \<and> map_of (tlfu_list t) \<subseteq>\<^sub>m map_of (tlfu_list s))
    (tlfu_get_in H u clone k) (tlfu_get_cloning H clone k) s" (is "up_to_panic ?P _ _ _")
proof -
  have sk: "sketch_ok (sketch s)" using ok by (simp add: tlfu_ok_def)
  have sketch: "?P (s\<lparr>sketch := x\<rparr>)" if "sketch_ok x" for x using ok that by (simp add: tlfu_ok_def)
  have inc: "up_to_panic ?P (on_sketch (increment_in p H k)) (on_sketch (increment H k)) s" for p
    using increment_up_to_panic [OF sk] sketch by (rule on_sketch_up_to_panic)
  have counted: "t = counted H k s" if "on_sketch (increment H k) s = (Done a, t)" for a t
    using that on_sketch_eq(1) [OF ok, of H k] by simp
  show ?thesis
    unfolding tlfu_get_in_def tlfu_get_cloning_def
    by (intro panic_rules inc; drule counted) (auto intro!: panic_rules counted_ok [OF ok])
qed

text \<open>In \<open>LfuCache\<close> the lookups, and the clone and the insertion of a new key, are harmless.\<close>

lemma lfu_get_up_to_panic:
  assumes ok: "lfu_ok s" and ready: "lfu_ready s" and safe: "\<And>j. \<not> u Clone_key j"
  shows "up_to_panic (\<lambda>t. lfu_ok t \<and> lfu_capacity t = lfu_capacity s \<and> lfu_usage t = lfu_usage s)
    (lfu_get_in u Done k) (lfu_get_inner k) s"
  unfolding lfu_get_in_def cloning_Done [symmetric] lfu_get_cloning_def
  using lfu_tick_ok [OF ok ready] by (auto intro!: panic_rules simp: safe tick_eq)

lemma lfu_insert_up_to_panic:
  assumes ok: "lfu_ok s" and ready: "lfu_ready s" and safe: "\<And>j. \<not> u Evict j"
  shows "up_to_panic (\<lambda>t. lfu_ok t \<and> lfu_capacity t = lfu_capacity s \<and>
      (\<forall>j. lfu_usage t j = None \<or> lfu_usage t j = lfu_usage s j))
    (lfu_insert_in u k v) (lfu_insert_inner k v) s" (is "up_to_panic ?P _ _ _")
proof -
  have room: "lfu_make_room_in u = lfu_make_room"
    by (simp add: fun_eq_iff lfu_make_room_in_def lfu_make_room_def safe cong: option.case_cong if_cong)
  note t = lfu_tick_ok [OF ok ready]
  have made: "?P t" if "lfu_make_room (s\<lparr>clock := clock s + 1\<rparr>) = (Done a, t)" for a t
    using lfu_make_room_spec [OF t(1)] that t(2) by (auto simp: runs_to_def split: if_splits)
  have fresh: "up_to_panic ?P
      (seq_exec lfu_make_room (seq_exec (user_code (u Clone_key k)) (seq_exec (user_code (u Store k)) f)))
      (seq_exec lfu_make_room f) (s\<lparr>clock := clock s + 1\<rparr>)" for f :: "(('a, 'b) lfu_inner, 'b option) exec"
    by (rule up_seq [OF up_refl], (rule up_user made | assumption | rule up_refl)+)
  show ?thesis
    unfolding lfu_insert_in_def lfu_insert_inner_def room Let_def
    using t by (auto intro!: up_bind up_refl up_user fresh simp: tick_eq split: option.split)
qed

lemma lfu_make_room_in_clock: "lfu_make_room_in u s = (r, s') \<Longrightarrow> clock s' = clock s"
  by (auto simp: lfu_make_room_in_def user_code_def exec_apply split: if_splits option.splits prod.splits)

lemma lfu_ticks_in:
  "uses_one lfu_used (lfu_get_in u Done k)" "uses_one lfu_used (lfu_insert_in u k v)"
  "uses_one lfu_used f \<Longrightarrow> uses_one lfu_used (seq_exec (user_code b) f)"
proof -
  show "uses_one lfu_used (lfu_get_in u Done k)"
    using unat_tick_le
    by (auto simp: uses_one_def lfu_used_def lfu_get_in_def lfu_access_def user_code_def tick_eq exec_apply Let_def
        split: option.splits prod.splits outcome.splits)
  show "uses_one lfu_used (lfu_insert_in u k v)"
    using unat_tick_le
    by (auto simp: uses_one_def lfu_used_def lfu_insert_in_def user_code_def tick_eq exec_apply Let_def
        split: option.splits prod.splits outcome.splits dest!: lfu_make_room_in_clock)
  show "uses_one lfu_used f \<Longrightarrow> uses_one lfu_used (seq_exec (user_code b) f)"
    by (cases b) (simp_all add: uses_one_def lfu_used_def)
qed

end
