(* ===== verification/Small_Caches.thy ===== *)
theory Small_Caches
  imports Lru Lfu_Cache Tinylfu_Cache Ttl_Cache
begin

section \<open>Small caches have one shard\<close>

text \<open>
  Below 32 entries a cache is not sharded, and the docs of the types promise strict global semantics. As \<open>lru_small_cache_is_global\<close> does for \<open>LruCache\<close>, the properties here state for the other
  sharded caches that their public methods implement the policy on one content of the full capacity.
\<close>

lemma small_cache_key:
  assumes inv: "cache_inv ok bound view H c" and small: "unat (total_capacity c) < 32"
    and shard: "ok (only_shard c) \<Longrightarrow> runs_to f (only_shard c) Q"
    and keeps: "runs_to (on_shards (with_shard H k f)) c (\<lambda>_ c'. cache_inv ok bound view H c' \<and> same_config c c')"
  shows "runs_to (on_shards (with_shard H k f)) c (\<lambda>r c'. Q r (only_shard c') \<and>
    cache_inv ok bound view H c' \<and> same_config c c')"
  using runs_to_both [OF small_cache_runs [OF small_cache(1,2) [OF inv small] shard [OF small_cache(3) [OF inv small]]] keeps] .

lemma lfu_small_ready:
  assumes "lfu_cache_inv H c" and "cache_ready lfu_ready c" and "unat (total_capacity c) < 32"
  shows "lfu_ready (only_shard c)"
proof -
  from small_cache(1) [OF assms(1,3)] obtain m where "shards (sharded_inner c) = [m]" by (auto simp: length_Suc_conv)
  with assms(2) show ?thesis by (simp add: cache_ready_def shards_ready_def only_shard_def)
qed

text \<open>A cache of capacity 2 has one shard.\<close>

lemma single_shards:
  "sharded_inner (lru_with_capacity 2) = \<lparr>shards = [mutex_new (lru_inner_with_capacity 2)], shard_mask = 0\<rparr>"
  "sharded_inner (lfu_with_capacity 2) = \<lparr>shards = [mutex_new (lfu_inner_with_capacity 2)], shard_mask = 0\<rparr>"
  "sharded_inner (tlfu_with_capacity 2) = \<lparr>shards = [mutex_new (tlfu_inner_with_capacity 2)], shard_mask = 0\<rparr>"
  "sharded_inner (ttl_with_capacity 2 ttl) = \<lparr>shards = [mutex_new (ttl_inner_with_capacity 2)], shard_mask = 0\<rparr>"
proof -
  have "shard_count 2 = 1" by (simp add: shard_count_eq)
  moreover from this have "per_shard_capacity 2 (shard_count 2) = 2" by (simp add: per_shard_capacity_def nonzero_new_def Let_def)
  ultimately show
    "sharded_inner (lru_with_capacity 2) = \<lparr>shards = [mutex_new (lru_inner_with_capacity 2)], shard_mask = 0\<rparr>"
    "sharded_inner (lfu_with_capacity 2) = \<lparr>shards = [mutex_new (lfu_inner_with_capacity 2)], shard_mask = 0\<rparr>"
    "sharded_inner (tlfu_with_capacity 2) = \<lparr>shards = [mutex_new (tlfu_inner_with_capacity 2)], shard_mask = 0\<rparr>"
    "sharded_inner (ttl_with_capacity 2 ttl) = \<lparr>shards = [mutex_new (ttl_inner_with_capacity 2)], shard_mask = 0\<rparr>"
    by (simp_all add: lru_with_capacity_def lfu_with_capacity_def tlfu_with_capacity_def ttl_with_capacity_def
        Let_def from_factory_def)
qed

lemma small_new:
  "only_shard (lfu_with_capacity 2) = lfu_inner_with_capacity 2"
  "only_shard (tlfu_with_capacity 2) = tlfu_inner_with_capacity 2"
  "only_shard (ttl_with_capacity 2 ttl) = ttl_inner_with_capacity 2"
  by (simp_all add: only_shard_def single_shards)

subsection \<open>Properties\<close>

text \<open>
  \<^bold>\<open>C32.\<close> Strict global LFU for small caches. With a capacity below 32 and clocks that have not reached
  their last value, \<open>get\<close> and \<open>insert\<close> of an \<open>LfuCache\<close> count accesses over the whole cache, and the entry
  evicted on overflow is the globally least used one, the least recently used among equals.
\<close>

theorem lfu_small_cache_is_global:
  assumes inv: "lfu_cache_inv H c" and ready: "cache_ready lfu_ready c" and small: "unat (total_capacity c) < 32"
  shows "runs_to (lfu_get H k) c (\<lambda>r c'.
           (r, lfu_usage (only_shard c')) =
             lfu_spec_get (Suc (unat (clock (only_shard c)))) k (lfu_usage (only_shard c)) \<and>
           lfu_cache_inv H c' \<and> same_config c c') \<and>
         runs_to (lfu_insert H k v) c (\<lambda>r c'.
           lfu_spec_insert (Suc (unat (clock (only_shard c)))) (unat (total_capacity c)) k v
             (lfu_usage (only_shard c)) (r, lfu_usage (only_shard c')) \<and>
           lfu_cache_inv H c' \<and> same_config c c')"
proof
  note rdy = lfu_small_ready [OF inv ready small]
  have cap: "unat (lfu_capacity (only_shard c)) = unat (total_capacity c)"
    using small_cache(4) [OF inv small] by (simp add: lfu_bound_def)
  show "runs_to (lfu_get H k) c (\<lambda>r c'.
      (r, lfu_usage (only_shard c')) =
        lfu_spec_get (Suc (unat (clock (only_shard c)))) k (lfu_usage (only_shard c)) \<and>
      lfu_cache_inv H c' \<and> same_config c c')"
    unfolding lfu_get_def
    by (rule runs_to_mono [OF small_cache_key [OF inv small lfu_get_refines [OF _ rdy]
          runs_to_mono [OF lfu_shard.cache_get [OF inv ready]]]]) auto
  show "runs_to (lfu_insert H k v) c (\<lambda>r c'.
      lfu_spec_insert (Suc (unat (clock (only_shard c)))) (unat (total_capacity c)) k v
        (lfu_usage (only_shard c)) (r, lfu_usage (only_shard c')) \<and>
      lfu_cache_inv H c' \<and> same_config c c')"
    unfolding lfu_insert_def
    by (rule runs_to_mono [OF small_cache_key [OF inv small lfu_insert_refines [OF _ rdy]
          runs_to_mono [OF lfu_shard.cache_insert [OF inv ready]]]]) (auto simp: cap)
qed

theorem lfu_small_cache_is_global_witness:
  "runs_to (lfu_insert sample_hashing 1 (10 :: nat)) (lfu_with_capacity 2)
     (\<lambda>r c'. r = None \<and> lfu_usage (only_shard c') = [1 \<mapsto> (10, 1, 1)] \<and> lfu_cache_inv sample_hashing c')"
proof -
  let ?c = "lfu_with_capacity 2 :: (nat, nat) lfu_cache"
  have inv: "lfu_cache_inv sample_hashing ?c" and cap: "total_capacity ?c = 2" and clocks: "clocks_le 0 ?c"
    by (rule lfu_new_inv; simp)+
  have "lfu_usage (only_shard ?c) = Map.empty" "clock (only_shard ?c) = 0"
    by (simp_all add: small_new lfu_inner_with_capacity_def lfu_usage_def fun_eq_iff hm_simps)
  then show ?thesis
    using lfu_small_cache_is_global [OF inv clocks_ready [OF clocks], of 1 10]
    by (auto simp: cap lfu_spec_insert_def elim: runs_to_mono)
qed

text \<open>
  \<^bold>\<open>C33.\<close> The same for a \<open>TinyLfuCache\<close> below 32 entries: one recency list and one sketch. An access
  moves its key to the front; a new key enters a full cache only if the sketch, which has counted this
  access, estimates it higher than the globally least recently used entry, which it then replaces.
\<close>

theorem tlfu_small_cache_is_global:
  assumes inv: "tlfu_cache_inv H c" and small: "unat (total_capacity c) < 32"
  shows "runs_to (tlfu_get H k) c (\<lambda>r c'.
           (r, tlfu_list (only_shard c')) = lru_spec_get k (tlfu_list (only_shard c)) \<and>
           sketch (only_shard c') = incremented H k (sketch (only_shard c)) \<and>
           tlfu_cache_inv H c' \<and> same_config c c') \<and>
         runs_to (tlfu_insert H k v) c (\<lambda>r c'.
           (r, tlfu_list (only_shard c')) = tlfu_spec_insert (unat (total_capacity c))
             (least_counter H (sketch (only_shard c'))) k v (tlfu_list (only_shard c)) \<and>
           sketch (only_shard c') = incremented H k (sketch (only_shard c)) \<and>
           tlfu_cache_inv H c' \<and> same_config c c')"
proof
  have cap: "unat (tlfu_capacity (only_shard c)) = unat (total_capacity c)"
    using small_cache(4) [OF inv small] by (simp add: tlfu_bound_def)
  have ready: "cache_ready (\<lambda>_. True) c" by (simp add: cache_ready_def shards_ready_def)
  show "runs_to (tlfu_get H k) c (\<lambda>r c'.
      (r, tlfu_list (only_shard c')) = lru_spec_get k (tlfu_list (only_shard c)) \<and>
      sketch (only_shard c') = incremented H k (sketch (only_shard c)) \<and> tlfu_cache_inv H c' \<and> same_config c c')"
    unfolding tlfu_get_def
    by (rule runs_to_mono [OF small_cache_key [OF inv small tlfu_get_refines
          runs_to_mono [OF tlfu_shard.cache_get [OF inv ready]]]]) (auto simp: same_rest_def)
  show "runs_to (tlfu_insert H k v) c (\<lambda>r c'.
      (r, tlfu_list (only_shard c')) = tlfu_spec_insert (unat (total_capacity c))
        (least_counter H (sketch (only_shard c'))) k v (tlfu_list (only_shard c)) \<and>
      sketch (only_shard c') = incremented H k (sketch (only_shard c)) \<and> tlfu_cache_inv H c' \<and> same_config c c')"
    unfolding tlfu_insert_def
    by (rule runs_to_mono [OF small_cache_key [OF inv small tlfu_insert_refines
          runs_to_mono [OF tlfu_shard.cache_insert [OF inv ready]]]]) (auto simp: same_rest_def cap)
qed

theorem tlfu_small_cache_is_global_witness:
  "runs_to (tlfu_insert sample_hashing 1 (10 :: nat)) (tlfu_with_capacity 2)
     (\<lambda>r c'. r = None \<and> tlfu_list (only_shard c') = [(1, 10)] \<and> tlfu_cache_inv sample_hashing c')"
proof -
  let ?c = "tlfu_with_capacity 2 :: (nat, nat) tlfu_cache"
  have inv: "tlfu_cache_inv sample_hashing ?c" and cap: "total_capacity ?c = 2"
    by (rule tlfu_new_inv; simp)+
  have "tlfu_list (only_shard ?c) = []"
    unfolding small_new by (rule tlfu_ok_new) simp_all
  then show ?thesis
    using tlfu_small_cache_is_global [OF inv, of 1 10]
    by (auto simp: cap tlfu_spec_insert_def elim: runs_to_mono)
qed

text \<open>
  \<^bold>\<open>C34.\<close> The same for a \<open>TtlCache\<close> below 32 entries, at any readings of the clock and for any order in
  which the map is iterated: \<open>get\<close> returns what has not expired and drops what has, and an insert into
  a full cache evicts an entry of the whole cache with the nearest deadline.
\<close>

theorem ttl_small_cache_is_global:
  assumes inv: "ttl_cache_inv H c" and all: "visits_all E" and small: "unat (total_capacity c) < 32"
  shows "runs_to (ttl_get H now k) c (\<lambda>r c'.
           (r, ttl_stored (only_shard c')) = ttl_spec_get now k (ttl_stored (only_shard c)) \<and>
           ttl_cache_inv H c' \<and> same_config c c') \<and>
         runs_to (ttl_insert_with_ttl H E asked now k v ttl) c (\<lambda>r c'.
           ttl_spec_insert now (unat (total_capacity c)) k v (compute_deadline E asked ttl)
             (ttl_stored (only_shard c)) (r, ttl_stored (only_shard c')) \<and>
           ttl_cache_inv H c' \<and> same_config c c')"
proof
  have cap: "unat (ttl_capacity (only_shard c)) = unat (total_capacity c)"
    using small_cache(4) [OF inv small] by (simp add: ttl_bound_def)
  show "runs_to (ttl_get H now k) c (\<lambda>r c'.
      (r, ttl_stored (only_shard c')) = ttl_spec_get now k (ttl_stored (only_shard c)) \<and>
      ttl_cache_inv H c' \<and> same_config c c')"
    unfolding ttl_get_def
    by (rule runs_to_mono [OF small_cache_key [OF inv small ttl_get_refines
          runs_to_mono [OF ttl_get_cache [OF inv, unfolded ttl_get_def]]]]) auto
  show "runs_to (ttl_insert_with_ttl H E asked now k v ttl) c (\<lambda>r c'.
      ttl_spec_insert now (unat (total_capacity c)) k v (compute_deadline E asked ttl)
        (ttl_stored (only_shard c)) (r, ttl_stored (only_shard c')) \<and>
      ttl_cache_inv H c' \<and> same_config c c')"
    unfolding ttl_insert_with_ttl_def Let_def
    by (rule runs_to_mono [OF small_cache_key [OF inv small ttl_insert_refines [OF _ all]
          runs_to_mono [OF ttl_insert_cache [OF inv all]]]]) (auto simp: cap)
qed

theorem ttl_small_cache_is_global_witness:
  "runs_to (ttl_insert_with_ttl sample_hashing sample_env 0 1 1 (10 :: nat) 100) (ttl_with_capacity 2 60)
     (\<lambda>r c'. r = None \<and> ttl_stored (only_shard c') = [1 \<mapsto> (10, 100)] \<and> ttl_cache_inv sample_hashing c')"
proof -
  let ?c = "ttl_with_capacity 2 60 :: (nat, nat) ttl_cache"
  have inv: "ttl_cache_inv sample_hashing ?c" and cap: "total_capacity ?c = 2"
    by (rule ttl_new_inv; simp)+
  have "ttl_stored (only_shard ?c) = Map.empty"
    by (simp add: small_new ttl_inner_with_capacity_def ttl_stored_def fun_eq_iff hm_simps)
  moreover have "compute_deadline sample_env 0 100 = 100"
    by (simp add: compute_deadline_def checked_add_def sample_env_def)
  ultimately show ?thesis
    using ttl_small_cache_is_global [OF inv sample_visits, of 1 1 0 10 100]
    by (auto simp: cap ttl_spec_insert_def live_def elim: runs_to_mono)
qed

end
