(* ===== verification/Concurrent.thy ===== *)
theory Concurrent
  imports Schedules Key_Panics Small_Caches
begin

section \<open>The sharded caches under concurrent use\<close>

text \<open>
  The shards of the four sharded caches meet \<open>atomic_contract\<close>, so its results hold for every schedule
  of any number of threads on them. The environment of a step is what the code does not control:
  nothing for \<open>LruCache\<close>, \<open>LfuCache\<close> and \<open>TinyLfuCache\<close> with well-behaved user code; otherwise the calls of
  user code that panic in this step, and for \<open>TtlCache\<close> the readings of the clock as well.
  (\<open>SizedCache\<close> has one mutex, and each of its methods holds it throughout: its concurrent runs are the
  sequences of calls of \<open>Sized_Cache\<close>.)
\<close>

subsection \<open>A clone that may panic\<close>

definition cloning :: "('v \<Rightarrow> bool) \<Rightarrow> 'v \<Rightarrow> 'v outcome" where
  "cloning panics v = (if panics v then Panicked UserCode else Done v)"

lemma cloning_law:
  assumes "runs_to f s (\<lambda>r s'. r = v \<and> P s')" and "bind_exec f (clone_out (cloning e)) s = (r, s')"
  shows "P s' \<and> returns {UserCode} (\<lambda>x. x = v) r"
  using assms by (auto simp: runs_to_def exec_apply clone_out_def cloning_def split: option.splits if_splits)

lemma uses_nothing [simp]: "uses_one (\<lambda>_. 0) f"
  by (simp add: uses_one_def)

subsection \<open>LruCache and TinyLfuCache\<close>

definition lru_ops :: "(('k, 'v) lru_inner, 'k, 'v) shard_ops" where
  "lru_ops = \<lparr>do_get = lru_get_inner, do_insert = lru_insert_inner, do_remove = lru_remove_inner,
     do_contains = lru_contains_inner, do_len = lru_len_inner, do_clear = lru_clear_inner\<rparr>"

definition tlfu_ops :: "'k hashing \<Rightarrow> (('k, 'v) tlfu_inner, 'k, 'v) shard_ops" where
  "tlfu_ops H = \<lparr>do_get = tlfu_get_inner H, do_insert = tlfu_insert_inner H, do_remove = tlfu_remove_inner,
     do_contains = tlfu_contains_inner, do_len = tlfu_len_inner, do_clear = tlfu_clear_inner\<rparr>"

text \<open>
  The same with user code that may panic: at a step, the clone of some values, and the calls of \<open>Hash\<close>, \<open>Eq\<close>
  and \<open>Clone\<close> of keys that \<open>Key_Panics\<close> shows to be harmless. For \<open>LruCache\<close> these are the lookup at the
  beginning of a method and the clone of the key; for \<open>TinyLfuCache\<close> all but the removal of a victim from the
  map and the insertion of the new key into it. (\<open>hash_panics_break_bounds\<close> shows that those are not.)
\<close>

record ('k, 'v) mood =
  value_clone_fails :: "'v \<Rightarrow> bool"
  key_code_fails :: "'k user"


definition guarded :: "'k user \<Rightarrow> ('k \<Rightarrow> ('s, 'a) exec) \<Rightarrow> 'k \<Rightarrow> ('s, 'a) exec" where
  "guarded u f k = seq_exec (user_code (u Lookup k)) (f k)"


definition tlfu_ops_in :: "'k hashing \<Rightarrow> ('k, 'v) mood \<Rightarrow> (('k, 'v) tlfu_inner, 'k, 'v) shard_ops" where
  "tlfu_ops_in H e =
     \<lparr>do_get = tlfu_get_in H (key_code_fails e) (cloning (value_clone_fails e)),
      do_insert = tlfu_insert_in H (only (- {Evict, Store}) (key_code_fails e)),
      do_remove = guarded (key_code_fails e) tlfu_remove_inner,
      do_contains = guarded (key_code_fails e) tlfu_contains_inner,
      do_len = tlfu_len_inner, do_clear = tlfu_clear_inner\<rparr>"

text \<open>A body that is undisturbed up to a panic is a section with the same promises.\<close>

definition kept :: "('s \<Rightarrow> bool) \<Rightarrow> ('s \<Rightarrow> nat) \<Rightarrow> ('s \<Rightarrow> 'k \<Rightarrow> 'v option) \<Rightarrow> 's \<Rightarrow> 's \<Rightarrow> bool" where
  "kept ok bound view s t \<longleftrightarrow> ok t \<and> bound t = bound s \<and> view t \<subseteq>\<^sub>m view s"


lemma disturbed_section:
  assumes "up_to_panic (kept ok bound view s) f g s" and "f s = (r, s')"
    and "g s = (r, s') \<Longrightarrow> leaves ok bound view s k x r s' \<and> returns {UserCode} Q r"
  shows "leaves ok bound view s k x r s' \<and> returns {UserCode} Q r"
  using assms(1,2)
proof (rule up_to_panicE)
  assume "r = Panicked UserCode" and "kept ok bound view s s'"
  then show ?thesis by (simp add: kept_def leaves_def)
qed (use assms(3) in simp)

lemma guarded_up_to_panic: "ok s \<Longrightarrow> up_to_panic (kept ok bound view s) (guarded u f k) (f k) s"
  unfolding guarded_def by (intro panic_rules) (simp add: kept_def)

lemma guarded_section:
  assumes "ok s" and "guarded u f k s = (r, s')"
    and "f k s = (r, s') \<Longrightarrow> leaves ok bound view s j x r s' \<and> returns {UserCode} Q r"
  shows "leaves ok bound view s j x r s' \<and> returns {UserCode} Q r"
proof (rule disturbed_section)
  show "up_to_panic (kept ok bound view s) (guarded u f k) (f k) s" by (rule guarded_up_to_panic) (rule assms)
qed (use assms in simp_all)

lemma lru_remove_exact: "lru_ok s \<Longrightarrow> runs_to (lru_remove_inner k) s (\<lambda>r s'. r = lru_view s k)"
  by (rule runs_to_mono [OF lru_remove_refines]) (simp_all add: lru_spec_remove_def lru_view_def)

lemma tlfu_remove_exact: "tlfu_ok s \<Longrightarrow> runs_to (tlfu_remove_inner k) s (\<lambda>r s'. r = tlfu_view s k)"
  by (rule runs_to_mono [OF tlfu_remove_refines]) (simp_all add: lru_spec_remove_def tlfu_view_def)

lemma get_law_outcome:
  assumes "runs_to f s (\<lambda>r s'. r = v \<and> P s')" and "f s = (r, s')"
  shows "P s' \<and> returns {} (\<lambda>x. x = v) r"
  using assms by (auto simp: runs_to_def)

interpretation lru_atomic: atomic_shard lru_ok "\<lambda>_. True" lru_bound lru_view
  lru_get_inner lru_insert_inner lru_remove_inner lru_contains_inner lru_len_inner lru_clear_inner
  "\<lambda>_ :: unit. lru_get_inner" "{}" "\<lambda>_. 0" limit for limit
  by unfold_locales (simp_all add: lru_remove_exact get_law_outcome [OF lru_shard.get_law, unfolded conj_assoc])




interpretation tlfu_atomic: atomic_shard tlfu_ok "\<lambda>_. True" tlfu_bound tlfu_view
  "tlfu_get_inner H" "tlfu_insert_inner H" tlfu_remove_inner tlfu_contains_inner tlfu_len_inner tlfu_clear_inner
  "\<lambda>_ :: unit. tlfu_get_inner H" "{}" "\<lambda>_. 0" limit for H :: "'k hashing" and limit
  by unfold_locales (simp_all add: tlfu_remove_exact get_law_outcome [OF tlfu_shard.get_law, unfolded conj_assoc])





definition lru_system :: "usize \<Rightarrow> ('k, 'v) call list list \<Rightarrow> (('k, 'v) lru_inner, 'k, 'v) system" where
  "lru_system cap ps = start_system (sharded_inner (lru_with_capacity cap)) ps"

definition tlfu_system :: "usize \<Rightarrow> ('k, 'v) call list list \<Rightarrow> (('k, 'v) tlfu_inner, 'k, 'v) system" where
  "tlfu_system cap ps = start_system (sharded_inner (tlfu_with_capacity cap)) ps"

subsection \<open>LfuCache\<close>

text \<open>The clock of a shard is the resource: a run may have as many steps as the clock has values left.\<close>

definition lfu_ops :: "(('k, 'v) lfu_inner, 'k, 'v) shard_ops" where
  "lfu_ops = \<lparr>do_get = lfu_get_inner, do_insert = lfu_insert_inner, do_remove = lfu_remove_inner,
     do_contains = lfu_contains_inner, do_len = lfu_len_inner, do_clear = lfu_clear_inner\<rparr>"

definition lfu_system :: "usize \<Rightarrow> ('k, 'v) call list list \<Rightarrow> (('k, 'v) lfu_inner, 'k, 'v) system" where
  "lfu_system cap ps = start_system (sharded_inner (lfu_with_capacity cap)) ps"

lemma lfu_remove_exact: "lfu_ok s \<Longrightarrow> runs_to (lfu_remove_inner k) s (\<lambda>r s'. r = lfu_view s k)"
  by (rule runs_to_mono [OF lfu_remove_refines]) (simp_all add: lfu_view_def)

interpretation lfu_atomic: atomic_shard lfu_ok lfu_ready lfu_bound lfu_view
  lfu_get_inner lfu_insert_inner lfu_remove_inner lfu_contains_inner lfu_len_inner lfu_clear_inner
  "\<lambda>_ :: unit. lfu_get_inner" "{}" lfu_used "2 ^ 64 - 1"
  by unfold_locales (simp_all add: lfu_remove_exact lfu_ticks get_law_outcome [OF lfu_shard.get_law, unfolded conj_assoc]
      lfu_ready_def lfu_used_def)

text \<open>
  With panicking user code: the lookups, the clone and the insertion of a new key, and the lookup in
  \<open>get\<close>; not the clones in \<open>get\<close> nor the removal of a victim, which are harmful.
\<close>

definition lfu_ops_in :: "'k user \<Rightarrow> (('k, 'v) lfu_inner, 'k, 'v) shard_ops" where
  "lfu_ops_in u =
     \<lparr>do_get = lfu_get_in (only {Lookup} u) Done, do_insert = lfu_insert_in (only (- {Evict}) u),
      do_remove = guarded u lfu_remove_inner, do_contains = guarded u lfu_contains_inner,
      do_len = lfu_len_inner, do_clear = lfu_clear_inner\<rparr>"



subsection \<open>TtlCache\<close>

text \<open>
  What a step of a thread on a \<open>TtlCache\<close> takes from outside: the reading of the clock under the lock,
  for an insert the earlier reading from which its deadline is computed and the lifetime asked for
  (the default one or that of \<open>insert_with_ttl\<close>), the values whose clone panics, and the calls of the code
  of keys that panic: here any of them may. The readings of
  successive steps are in no particular order.
\<close>

record ('k, 'v) ttl_moment =
  reading :: nat
  asked_at :: nat
  lifetime :: nat
  clone_fails :: "'v \<Rightarrow> bool"
  key_fails :: "'k user"

definition ttl_ops_in :: "('k, 'v) ttl_env \<Rightarrow> ('k, 'v) ttl_moment \<Rightarrow> (('k, 'v) ttl_inner, 'k, 'v) shard_ops" where
  "ttl_ops_in E e =
     \<lparr>do_get = ttl_get_in (reading e) (key_fails e) (cloning (clone_fails e)),
      do_insert = (\<lambda>k v. ttl_insert_in E (reading e) (key_fails e) k v (compute_deadline E (asked_at e) (lifetime e))),
      do_remove = guarded (key_fails e) ttl_remove_inner,
      do_contains = ttl_contains_in (reading e) (key_fails e),
      do_len = ttl_len_inner (reading e), do_clear = ttl_clear_inner\<rparr>"

definition ttl_system :: "usize \<Rightarrow> nat \<Rightarrow> ('k, 'v) call list list \<Rightarrow> (('k, 'v) ttl_inner, 'k, 'v) system" where
  "ttl_system cap ttl ps = start_system (sharded_inner (ttl_with_capacity cap ttl)) ps"

text \<open>What is stored, whether its deadline has passed or not.\<close>

definition ttl_values :: "('k, 'v) ttl_inner \<Rightarrow> 'k \<Rightarrow> 'v option" where
  "ttl_values s k = map_option fst (ttl_stored s k)"

lemma ttl_values_le:
  assumes "\<And>j. ttl_stored s' j = None \<or> ttl_stored s' j = ttl_stored s j"
  shows "ttl_values s' \<subseteq>\<^sub>m ttl_values s"
  unfolding map_le_def ttl_values_def using assms by (metis domIff option.map_disc_iff)

lemma live_values: "live now (ttl_stored s) k = None \<or> live now (ttl_stored s) k = ttl_values s k"
  by (auto simp: live_def ttl_values_def split: option.split)

lemma live_values_present: "live now (ttl_stored s) k \<noteq> None \<Longrightarrow> ttl_values s k \<noteq> None"
  by (auto simp: live_def ttl_values_def split: option.splits)

lemma ttl_values_inserted:
  assumes "ttl_spec_insert now cap k v d (ttl_stored s) (r, ttl_stored s')"
  shows "ttl_values s' \<subseteq>\<^sub>m (ttl_values s)(k \<mapsto> v)" and "r = None \<or> r = ttl_values s k"
proof -
  note ins = ttl_spec_insert_view [OF assms]
  have other: "ttl_values s' j = ttl_values s j \<or> ttl_values s' j = None" if "j \<noteq> k" for j
    using ins(3) [OF that] by (auto simp: ttl_values_def)
  show "ttl_values s' \<subseteq>\<^sub>m (ttl_values s)(k \<mapsto> v)"
    by (rule inserted_le [OF map_le_refl other]) (simp_all add: ttl_values_def ins(2))
  show "r = None \<or> r = ttl_values s k" using live_values [of now s k] ins(1) by auto
qed

interpretation ttl_atomic: atomic_contract "\<lambda>s. visits_all E \<and> ttl_ok s" ttl_bound ttl_values
  "ttl_ops_in E" "{UserCode}" "\<lambda>_. 0" limit for E :: "('k, 'v) ttl_env" and limit
proof unfold_locales
  fix s s' :: "('k, 'v) ttl_inner" and e :: "('k, 'v) ttl_moment" and k :: 'k and v :: 'v
  assume here: "visits_all E \<and> ttl_ok s"
  then have ok: "ttl_ok s" and all: "visits_all E" by simp_all
  let ?ok = "\<lambda>s. visits_all E \<and> ttl_ok s"
  let ?now = "reading e"
  note same = leaves_same all ttl_bound_def
  have kept: "kept ?ok ttl_bound ttl_values s t"
    if "ttl_ok t \<and> ttl_capacity t = ttl_capacity s \<and> ttl_stored t \<subseteq>\<^sub>m ttl_stored s" for t
    using that all map_leD [of "ttl_stored t" "ttl_stored s"] by (auto simp: kept_def ttl_bound_def intro!: ttl_values_le)
  show "leaves ?ok ttl_bound ttl_values s k (ttl_values s k) r s' \<and> returns {UserCode} (\<lambda>x. x = None \<or> x = ttl_values s k) r"
    if "do_get (ttl_ops_in E e) k s = (r, s')" for r
  proof (rule disturbed_section [OF up_mono [OF ttl_get_up_to_panic [OF ok] kept]])
    show "ttl_get_in ?now (key_fails e) (cloning (clone_fails e)) k s = (r, s')" using that by (simp add: ttl_ops_in_def)
    assume run: "ttl_get_cloning ?now (cloning (clone_fails e)) k s = (r, s')"
    have "runs_to (ttl_get_inner ?now k) s (\<lambda>r s'. r = live ?now (ttl_stored s) k \<and>
        ttl_values s' \<subseteq>\<^sub>m ttl_values s \<and> ttl_ok s' \<and> ttl_capacity s' = ttl_capacity s)"
      by (rule runs_to_mono [OF ttl_get_refines [OF ok]])
        (auto simp: ttl_spec_get_def intro!: ttl_values_le split: if_splits)
    from cloning_law [OF this, folded get_then_clone, of "clone_fails e" r s'] run live_values [of ?now s k]
    show "leaves ?ok ttl_bound ttl_values s k (ttl_values s k) r s' \<and> returns {UserCode} (\<lambda>x. x = None \<or> x = ttl_values s k) r"
      by (cases r) (auto simp: same)
  qed
  show "leaves ?ok ttl_bound ttl_values s k (Some v) r s' \<and> returns {UserCode} (\<lambda>x. x = None \<or> x = ttl_values s k) r"
    if "do_insert (ttl_ops_in E e) k v s = (r, s')" for r
  proof (rule disturbed_section [OF up_mono [OF ttl_insert_up_to_panic [OF ok] kept]])
    let ?d = "compute_deadline E (asked_at e) (lifetime e)"
    show "ttl_insert_in E ?now (key_fails e) k v ?d s = (r, s')" using that by (simp add: ttl_ops_in_def)
    assume "ttl_insert_inner E ?now k v ?d s = (r, s')"
    with ttl_insert_refines [OF ok all, of ?now k v ?d] obtain x
      where "r = Done x" "ttl_ok s'" "ttl_capacity s' = ttl_capacity s" and
        spec: "ttl_spec_insert ?now (unat (ttl_capacity s)) k v ?d (ttl_stored s) (x, ttl_stored s')"
      by (auto simp: runs_to_def)
    with ttl_values_inserted [OF spec] all
    show "leaves ?ok ttl_bound ttl_values s k (Some v) r s' \<and> returns {UserCode} (\<lambda>x. x = None \<or> x = ttl_values s k) r"
      by (auto simp: leaves_Done ttl_bound_def)
  qed
  show "leaves ?ok ttl_bound ttl_values s k None r s' \<and> returns {UserCode} (\<lambda>x. x = None \<or> x = ttl_values s k) r"
    if "do_remove (ttl_ops_in E e) k s = (r, s')" for r
    by (rule guarded_section [where ok = ?ok and u = "key_fails e" and f = ttl_remove_inner, OF here])
      (use ttl_remove_refines [OF ok, of k] that in \<open>auto simp: runs_to_def ttl_ops_in_def leaves_Done all
        ttl_bound_def ttl_values_def fun_eq_iff map_le_def\<close>)
  show "leaves ?ok ttl_bound ttl_values s k (ttl_values s k) r s' \<and> returns {UserCode} (\<lambda>b. b \<longrightarrow> ttl_values s k \<noteq> None) r"
    if "do_contains (ttl_ops_in E e) k s = (r, s')" for r
  proof (rule disturbed_section [OF up_mono [OF ttl_contains_up_to_panic [OF ok] kept]])
    show "ttl_contains_in ?now (key_fails e) k s = (r, s')" using that by (simp add: ttl_ops_in_def)
    assume "ttl_contains_inner ?now k s = (r, s')"
    with ttl_contains_refines [OF ok, of ?now k] have
      "r = Done (live ?now (ttl_stored s) k \<noteq> None)" "ttl_stored s' = snd (ttl_spec_get ?now k (ttl_stored s))"
      "ttl_ok s'" "ttl_capacity s' = ttl_capacity s"
      by (auto simp: runs_to_def)
    moreover from this(2) have "ttl_values s' \<subseteq>\<^sub>m ttl_values s"
      by (intro ttl_values_le) (simp add: map_leD [OF spec_get_le])
    ultimately show "leaves ?ok ttl_bound ttl_values s k (ttl_values s k) r s' \<and> returns {UserCode} (\<lambda>b. b \<longrightarrow> ttl_values s k \<noteq> None) r"
      using live_values_present [of ?now s k] by (simp add: same)
  qed
  show "?ok s' \<and> ttl_bound s' = ttl_bound s \<and> ttl_values s' \<subseteq>\<^sub>m ttl_values s \<and> returns {UserCode} (\<lambda>n. n \<le> ttl_bound s) r"
    if "do_len (ttl_ops_in E e) s = (r, s')" for r
    using ttl_len_refines [OF ok, of ?now] that live_stored_le [OF ok, of ?now]
    by (auto simp: runs_to_def ttl_ops_in_def all ttl_bound_def intro!: ttl_values_le)
  show "?ok s' \<and> ttl_bound s' = ttl_bound s \<and> ttl_values s' \<subseteq>\<^sub>m ttl_values s \<and> returns {UserCode} (\<lambda>_. ttl_values s' = Map.empty) r"
    if "do_clear (ttl_ops_in E e) s = (r, s')" for r
    using ok all that by (auto simp: ttl_ops_in_def ttl_clear_inner_def ttl_ok_def hm.ok_empty ttl_bound_def
        ttl_values_def ttl_stored_def hm_get_empty fun_eq_iff map_le_def)
next
  fix s :: "('k, 'v) ttl_inner"
  assume "visits_all E \<and> ttl_ok s"
  moreover have "dom (ttl_values s) = dom (ttl_stored s)" by (auto simp: ttl_values_def)
  ultimately show "finite (dom (ttl_values s)) \<and> card (dom (ttl_values s)) \<le> ttl_bound s"
    using ttl_len_card [of s] by (auto simp: dom_ttl_stored finite_dom_hm_get ttl_ok_def ttl_bound_def)
qed simp_all

subsection \<open>Sample runs\<close>

text \<open>The shard index of a key, as \<open>shard_routing\<close> gives it.\<close>

abbreviation route :: "'k hashing \<Rightarrow> usize \<Rightarrow> 'k \<Rightarrow> nat" where
  "route H cap k \<equiv> unat (hasher_finish H (key_bytes H k) AND (shard_count cap - 1))"

lemma shard_index_new:
  "shard_index H (sharded_inner (lru_with_capacity cap)) = route H cap"
  "shard_index H (sharded_inner (tlfu_with_capacity cap)) = route H cap"
  "shard_index H (sharded_inner (lfu_with_capacity cap)) = route H cap"
  "shard_index H (sharded_inner (ttl_with_capacity cap ttl)) = route H cap"
  by (simp_all add: fun_eq_iff shard_index_def lru_with_capacity_def tlfu_with_capacity_def
      lfu_with_capacity_def ttl_with_capacity_def Let_def)

text \<open>Two first steps, for the witnesses: a thread inserts, another begins a \<open>len\<close> or fails in a \<open>get\<close>.\<close>

lemma sample_run:
  fixes k :: 'k and v :: 'v
  assumes "with_shard H k (do_insert (ops e) k v) sh = (Done None, sh')"
  shows "\<exists>S. system_run ops H (start_system sh [[Call_insert k v], [Call_len]]) 2 S \<and>
    history S = [Inserted k v None]"
proof -
  let ?S = "start_system sh [[Call_insert k v], [Call_len]]"
  let ?t = "\<lparr>program = [], activity = Idle, lens = []\<rparr> :: ('k, 'v) thread"
  let ?T = "?S\<lparr>shared := sh', threads := (threads ?S)[0 := ?t], history := history ?S @ [Inserted k v None]\<rparr>"
  let ?U = "?T\<lparr>shared := sh', threads := (threads ?T)[1 := ?t\<lparr>activity := Counting 0 0\<rparr>], history := history ?T @ []\<rparr>"
  have s1: "system_step ops H ?S ?T"
    by (rule system_step.step [where e = e]) (simp_all add: start_system_def thread_step_def section_step_def assms)
  have s2: "system_step ops H ?T ?U"
    by (rule system_step.step) (simp_all add: start_system_def thread_step_def)
  from system_run.more [OF system_run.more [OF system_run.start s1] s2] show ?thesis
    by (intro exI [of _ ?U]) (simp add: start_system_def numeral_2_eq_2)
qed

lemma sample_crash:
  fixes k :: 'k and v :: 'v
  assumes "with_shard H k (do_insert (ops e) k v) sh = (Done None, sh1)"
    and "with_shard H k (do_get (ops e') k) sh1 = (Panicked p, sh2)"
  shows "\<exists>S. system_run ops H (start_system sh [[Call_insert k v], [Call_get k]]) 2 S \<and>
    history S = [Inserted k v None] \<and> map activity (threads S) = [Idle, Crashed p]"
proof -
  let ?S = "start_system sh [[Call_insert k v], [Call_get k]]"
  let ?t = "\<lparr>program = [], activity = Idle, lens = []\<rparr> :: ('k, 'v) thread"
  let ?T = "?S\<lparr>shared := sh1, threads := (threads ?S)[0 := ?t], history := history ?S @ [Inserted k v None]\<rparr>"
  let ?U = "?T\<lparr>shared := sh2, threads := (threads ?T)[1 := ?t\<lparr>activity := Crashed p\<rparr>], history := history ?T @ []\<rparr>"
  have s1: "system_step ops H ?S ?T"
    by (rule system_step.step [where e = e]) (simp_all add: start_system_def thread_step_def section_step_def assms)
  have s2: "system_step ops H ?T ?U"
    by (rule system_step.step [where e = e']) (simp_all add: start_system_def thread_step_def section_step_def assms)
  from system_run.more [OF system_run.more [OF system_run.start s1] s2] show ?thesis
    by (intro exI [of _ ?U]) (simp add: start_system_def numeral_2_eq_2)
qed

text \<open>On a single shard.\<close>

lemma with_single_shard:
  "with_shard H k f \<lparr>shards = [m], shard_mask = 0\<rparr> = (case locked f m of (r, m') \<Rightarrow> (r, \<lparr>shards = [m'], shard_mask = 0\<rparr>))"
  by (simp add: with_shard_def Let_def shard_index_def split: prod.split)

text \<open>The runs of the witnesses.\<close>

abbreviation insert_and_len :: "(nat, nat) call list list" where
  "insert_and_len \<equiv> [[Call_insert 1 10], [Call_len]]"

abbreviation insert_and_get :: "(nat, nat) call list list" where
  "insert_and_get \<equiv> [[Call_insert 1 10], [Call_get 1]]"

abbreviation steady :: "'o \<Rightarrow> unit \<Rightarrow> 'o" where
  "steady ops \<equiv> (\<lambda>_. ops)"

lemma lru_sample_run:
  "\<exists>S. system_run (steady lru_ops) sample_hashing (lru_system 2 insert_and_len) 2 S \<and> history S = [Inserted 1 10 None]"
  unfolding lru_system_def single_shards
  by (rule sample_run) (simp add: lru_ops_def with_single_shard locked_def lru_insert_inner_def
      lru_inner_with_capacity_def lru_make_room_def arena_eval)


lemma only_calm: "only C calm = calm"
  by (simp add: fun_eq_iff)

lemma tlfu_first_insert:
  "\<exists>sh'. with_shard sample_hashing 1 (tlfu_insert_inner sample_hashing 1 10)
    (sharded_inner (tlfu_with_capacity 2 :: (nat, nat) tlfu_cache)) = (Done None, sh')"
proof -
  let ?c = "tlfu_with_capacity 2 :: (nat, nat) tlfu_cache"
  have new: "tlfu_cache_inv sample_hashing ?c" "tlfu_cache_view sample_hashing ?c = Map.empty"
    by (rule tlfu_new_inv; simp)+
  have "shards_ready (\<lambda>_. True) (sharded_inner ?c)" by (simp add: shards_ready_def)
  then have "runs_to (with_shard sample_hashing 1 (tlfu_insert_inner sample_hashing 1 10)) (sharded_inner ?c)
      (\<lambda>r sh'. r = None)"
    using new by (intro runs_to_mono [OF tlfu_shard.sharded_insert]) (auto simp: cache_inv_def cache_view_def)
  then show ?thesis by (auto simp: runs_to_def)
qed

lemma tlfu_sample_run:
  "\<exists>S. system_run (steady (tlfu_ops sample_hashing)) sample_hashing (tlfu_system 2 insert_and_len) 2 S \<and>
    history S = [Inserted 1 10 None]"
  "\<exists>S. system_run (tlfu_ops_in sample_hashing) sample_hashing (tlfu_system 2 insert_and_len) 2 S \<and>
    history S = [Inserted 1 10 None]"
  using tlfu_first_insert unfolding tlfu_system_def
  by (elim exE; intro sample_run [where e = "()"] sample_run [where e = "\<lparr>value_clone_fails = (\<lambda>_. False), key_code_fails = calm\<rparr>"];
      simp add: tlfu_ops_def tlfu_ops_in_def only_calm tlfu_calm)+

lemma lfu_sample_run:
  "\<exists>S. system_run (steady lfu_ops) sample_hashing (lfu_system 2 insert_and_len) 2 S \<and> history S = [Inserted 1 10 None]"
  "\<exists>S. system_run lfu_ops_in sample_hashing (lfu_system 2 insert_and_len) 2 S \<and> history S = [Inserted 1 10 None]"
  unfolding lfu_system_def single_shards
  by (rule sample_run [where e = "()"], simp add: lfu_ops_def with_single_shard locked_def lfu_eval)
    (rule sample_run [where e = calm], simp add: lfu_ops_in_def only_calm lfu_calm with_single_shard locked_def lfu_eval)

lemma ttl_sample_crash:
  "\<exists>S. system_run (ttl_ops_in sample_env) sample_hashing (ttl_system 2 100 insert_and_get) 2 S \<and>
    history S = [Inserted 1 10 None] \<and> map activity (threads S) = [Idle, Crashed UserCode]"
  unfolding ttl_system_def single_shards
  by (rule sample_crash [where e = "\<lparr>reading = 1, asked_at = 0, lifetime = 100, clone_fails = (\<lambda>_. False), key_fails = calm\<rparr>"
        and e' = "\<lparr>reading = 50, asked_at = 0, lifetime = 0, clone_fails = (\<lambda>_. True), key_fails = calm\<rparr>"])
    (simp add: ttl_ops_in_def ttl_calm with_single_shard locked_def ttl_insert_inner_def ttl_insert_fresh_def
      ttl_inner_with_capacity_def ttl_get_cloning_def clone_out_def cloning_def compute_deadline_def checked_add_def
      sample_env_def exec_apply hm_simps hm_get_def hm_insert_def hm_remove_def hm_len_def hm_empty_def)+

lemma ttl_values_new:
  fixes E :: "('k, 'v) ttl_env" and H :: "'k hashing"
  assumes "cap \<noteq> 0" and "visits_all E"
  shows "cache_inv (\<lambda>s. visits_all E \<and> ttl_ok s) ttl_bound ttl_values H (ttl_with_capacity cap ttl :: ('k, 'v) ttl_cache)"
    and "cache_view ttl_values H (ttl_with_capacity cap ttl :: ('k, 'v) ttl_cache) = Map.empty"
    and "total_capacity (ttl_with_capacity cap ttl :: ('k, 'v) ttl_cache) = cap"
proof -
  let ?c = "ttl_with_capacity cap ttl :: ('k, 'v) ttl_cache"
  let ?s = "ttl_inner_with_capacity (per_shard_capacity cap (shard_count cap)) :: ('k, 'v) ttl_inner"
  have c: "total_capacity ?c = cap" "sharded_inner ?c = from_factory (shard_count cap) (\<lambda>_. ?s)"
    by (simp_all add: ttl_with_capacity_def Let_def)
  have s: "visits_all E \<and> ttl_ok ?s" "ttl_bound ?s = unat (per_shard_capacity cap (shard_count cap))"
      "ttl_values ?s = Map.empty"
    using assms(2) per_shard_pos [of cap "shard_count cap"]
    by (simp_all add: ttl_inner_with_capacity_def ttl_ok_def hm.ok_empty ttl_bound_def ttl_values_def
        ttl_stored_def hm_get_empty fun_eq_iff)
  show "cache_inv (\<lambda>s. visits_all E \<and> ttl_ok s) ttl_bound ttl_values H ?c" "cache_view ttl_values H ?c = Map.empty"
    using cache_new_inv [where ok = "\<lambda>s. visits_all E \<and> ttl_ok s" and bound = ttl_bound and view = ttl_values,
        OF assms(1) c s] by simp_all
  show "total_capacity ?c = cap" by (rule c)
qed

lemma uses_nothing_yet [simp]: "used_le (\<lambda>_. 0) n sh"
  by (simp add: used_le_def)

lemma lru_concurrent_threads:
  assumes "cap \<noteq> 0" and "system_run (steady lru_ops) H (lru_system cap ps) n S" and "t \<in> set (threads S)"
  shows "\<forall>p. activity t \<noteq> Crashed p"
  using lru_atomic.every_schedule(4) [OF lru_new_inv(1,2) [OF assms(1)] uses_nothing_yet le_refl
      assms(2) [unfolded lru_ops_def lru_system_def] assms(3)] by simp

subsection \<open>Properties\<close>

text \<open>
  \<^bold>\<open>C7.\<close> A shared \<open>LruCache\<close> is linearizable up to evictions. For every capacity, hasher, number of
  threads, programs and schedule: no thread has crashed; in the order in which the critical sections
  ran, every value returned by \<open>get\<close>, \<open>insert\<close> and \<open>remove\<close> is the latest one stored for its key, and
  \<open>contains_key\<close> is true only of a key that has one; the cache never holds more entries than the
  capacity and no \<open>len\<close> has returned more, even though \<open>len\<close> is no snapshot.
\<close>

theorem lru_concurrent:
  assumes "cap \<noteq> 0" and "system_run (steady lru_ops) H (lru_system cap ps) n S"
  shows "legal_from (route H cap) Map.empty (history S) \<and>
    card (dom (sharded_view lru_view H (shared S))) \<le> unat cap \<and>
    (\<forall>t \<in> set (threads S). (\<forall>p. activity t \<noteq> Crashed p) \<and> (\<forall>m \<in> set (lens t). m \<le> unat cap))"
  using lru_atomic.every_schedule [OF lru_new_inv(1,2) [OF assms(1)] uses_nothing_yet le_refl
      assms(2) [unfolded lru_ops_def lru_system_def]]
  by (simp add: shard_index_new lru_new_inv(4) [OF assms(1)])

theorem lru_concurrent_witness:
  "\<exists>S. system_run (steady lru_ops) sample_hashing (lru_system 2 insert_and_len) 2 S \<and>
    legal_from (route sample_hashing 2) Map.empty [Inserted 1 10 None] \<and>
    card (dom (sharded_view lru_view sample_hashing (shared S))) \<le> 2"
proof -
  from lru_sample_run obtain S
    where run: "system_run (steady lru_ops) sample_hashing (lru_system 2 insert_and_len) 2 S"
      and "history S = [Inserted 1 10 None]" by blast
  with lru_concurrent [OF _ run] show ?thesis by auto
qed

text \<open>
  \<^bold>\<open>C8.\<close> The same for a shared \<open>TinyLfuCache\<close>.
\<close>

theorem tlfu_concurrent:
  assumes "cap \<noteq> 0" and "system_run (steady (tlfu_ops H)) H (tlfu_system cap ps) n S"
  shows "legal_from (route H cap) Map.empty (history S) \<and>
    card (dom (sharded_view tlfu_view H (shared S))) \<le> unat cap \<and>
    (\<forall>t \<in> set (threads S). (\<forall>p. activity t \<noteq> Crashed p) \<and> (\<forall>m \<in> set (lens t). m \<le> unat cap))"
  using tlfu_atomic.every_schedule [OF tlfu_new_inv(1,2) [OF assms(1)] uses_nothing_yet le_refl
      assms(2) [unfolded tlfu_ops_def tlfu_system_def]]
  by (simp add: shard_index_new tlfu_new_inv(4) [OF assms(1)])

theorem tlfu_concurrent_witness:
  "\<exists>S. system_run (steady (tlfu_ops sample_hashing)) sample_hashing (tlfu_system 2 insert_and_len) 2 S \<and>
    legal_from (route sample_hashing 2) Map.empty [Inserted 1 10 None] \<and>
    card (dom (sharded_view tlfu_view sample_hashing (shared S))) \<le> 2"
proof -
  from tlfu_sample_run(1) obtain S
    where run: "system_run (steady (tlfu_ops sample_hashing)) sample_hashing (tlfu_system 2 insert_and_len) 2 S"
      and "history S = [Inserted 1 10 None]" by blast
  with tlfu_concurrent [OF _ run] show ?thesis by auto
qed

text \<open>
  \<^bold>\<open>C9.\<close> The same for a shared \<open>LfuCache\<close>, for every run of fewer than 2^64 critical sections: each
  advances the clock of its shard by at most one, and the policy is exact until that clock wraps.
\<close>

theorem lfu_concurrent:
  assumes "cap \<noteq> 0" and "system_run (steady lfu_ops) H (lfu_system cap ps) n S" and "n < 2 ^ 64"
  shows "legal_from (route H cap) Map.empty (history S) \<and>
    card (dom (sharded_view lfu_view H (shared S))) \<le> unat cap \<and>
    (\<forall>t \<in> set (threads S). (\<forall>p. activity t \<noteq> Crashed p) \<and> (\<forall>m \<in> set (lens t). m \<le> unat cap))"
proof -
  have "n \<le> 2 ^ 64 - 1" using assms(3) by simp
  from lfu_atomic.every_schedule [OF lfu_new_inv(1,2) [OF assms(1)]
      lfu_new_inv(5) [OF assms(1), unfolded clocks_le_def] this assms(2) [unfolded lfu_ops_def lfu_system_def]]
  show ?thesis by (simp add: shard_index_new lfu_new_inv(4) [OF assms(1)])
qed

theorem lfu_concurrent_witness:
  "\<exists>S. system_run (steady lfu_ops) sample_hashing (lfu_system 2 insert_and_len) 2 S \<and>
    legal_from (route sample_hashing 2) Map.empty [Inserted 1 10 None] \<and>
    card (dom (sharded_view lfu_view sample_hashing (shared S))) \<le> 2"
proof -
  from lfu_sample_run obtain S
    where run: "system_run (steady lfu_ops) sample_hashing (lfu_system 2 insert_and_len) 2 S"
      and "history S = [Inserted 1 10 None]" by blast
  with lfu_concurrent [OF _ run] show ?thesis by auto
qed

text \<open>
  \<^bold>\<open>C10.\<close> A shared \<open>TtlCache\<close>, whatever the clock reads at each step and wherever user code panics,
  in any call of \<open>Clone\<close>, \<open>Hash\<close> or \<open>Eq\<close> under the lock, half-way through an insert included: the same
  history, size and \<open>len\<close> guarantees, where a value counts as stored until it is removed, evicted or
  purged; and a thread ends early only by such a panic.
\<close>

theorem ttl_concurrent:
  fixes E :: "('k, 'v) ttl_env"
  assumes "cap \<noteq> 0" and "visits_all E" and "system_run (ttl_ops_in E) H (ttl_system cap ttl ps) n S"
  shows "legal_from (route H cap) Map.empty (history S) \<and>
    card (dom (sharded_view ttl_values H (shared S))) \<le> unat cap \<and>
    (\<forall>t \<in> set (threads S). (\<forall>p. activity t = Crashed p \<longrightarrow> p = UserCode) \<and> (\<forall>m \<in> set (lens t). m \<le> unat cap))"
proof -
  note new = ttl_values_new [OF assms(1,2)]
  from ttl_atomic.every_schedule [OF new(1,2) uses_nothing_yet le_refl assms(3) [unfolded ttl_system_def]]
  show ?thesis by (simp add: shard_index_new new(3))
qed

theorem ttl_concurrent_witness:
  "\<exists>S. system_run (ttl_ops_in sample_env) sample_hashing (ttl_system 2 100 insert_and_get) 2 S \<and>
    map activity (threads S) = [Idle, Crashed UserCode] \<and>
    legal_from (route sample_hashing 2) Map.empty [Inserted 1 10 None] \<and>
    card (dom (sharded_view ttl_values sample_hashing (shared S))) \<le> 2"
proof -
  from ttl_sample_crash obtain S
    where run: "system_run (ttl_ops_in sample_env) sample_hashing (ttl_system 2 100 insert_and_get) 2 S"
      and "history S = [Inserted 1 10 None]" "map activity (threads S) = [Idle, Crashed UserCode]"
    by (elim exE conjE) (rule that)
  with ttl_concurrent [OF _ sample_visits run] show ?thesis by auto
qed



text \<open>
  Termination without deadlock, at the level of critical sections: no schedule of threads on an \<open>LruCache\<close>
  runs for more steps than the calls have sections (one for a single-key call; one per shard and two more
  for a \<open>len\<close> or \<open>clear\<close>), and a state in which no thread can move is one in which every thread has completed
  all its calls. \<open>Lock_Safety\<close> carries this to locks and to the other caches.
\<close>

lemma lru_schedules_complete:
  assumes "cap \<noteq> 0" and "system_run (steady lru_ops) H (lru_system cap ps) n S"
  shows "n \<le> (\<Sum>p \<leftarrow> ps. \<Sum>c \<leftarrow> p. call_weight (unat (shard_count cap)) c) \<and>
    ((\<forall>T. \<not> system_step (steady lru_ops) H S T) \<longrightarrow> (\<forall>t \<in> set (threads S). finished t))"
proof -
  have "system_weight (lru_system cap ps) = (\<Sum>p \<leftarrow> ps. \<Sum>c \<leftarrow> p. call_weight (unat (shard_count cap)) c)"
    by (simp add: system_weight_def lru_system_def start_system_def thread_weight_def comp_def
        lru_with_capacity_def Let_def)
  then have "n \<le> (\<Sum>p \<leftarrow> ps. \<Sum>c \<leftarrow> p. call_weight (unat (shard_count cap)) c)"
    using system_run_weight [OF assms(2)] by simp
  moreover have "\<forall>p. activity t \<noteq> Crashed p" if "t \<in> set (threads S)" for t
    using lru_concurrent_threads [OF assms that] .
  ultimately show ?thesis using stuck_system by blast
qed

lemma lru_schedules_complete_witness:
  "\<exists>S. system_run (steady lru_ops) sample_hashing (lru_system 2 insert_and_len) 2 S \<and>
    (2 :: nat) \<le> (\<Sum>p \<leftarrow> [[Call_insert 1 10], [Call_len]]. \<Sum>c \<leftarrow> p. call_weight 1 (c :: (nat, nat) call))"
proof -
  from lru_sample_run obtain S
    where run: "system_run (steady lru_ops) sample_hashing (lru_system 2 insert_and_len) 2 S"
    by blast
  have "unat (shard_count 2) = 1" by (simp add: unat_shard_count)
  with run lru_schedules_complete [OF _ run] show ?thesis by auto
qed

end
