(* ===== verification/Locking.thy ===== *)
theory Locking
  imports Interleaving
begin

section \<open>Locks: why a critical section is atomic\<close>

text \<open>
  \<open>Interleaving\<close> lets a critical section happen in one step. Here taking the lock, working under it and
  releasing it are separate steps, and while a thread holds the lock of a shard the memory of that
  shard may contain anything: the body of the section mutates it in place. What keeps the other
  threads from seeing this is the mutex alone. A blocked thread waits in \<open>lock_recover\<close> until the holder
  has released; a section that panicked releases as well, with the poison flag set. The simulation
  below maps every run of these steps to a run of \<open>Interleaving\<close> in which a section takes effect when its
  lock is released, and shows that threads cannot deadlock, since none waits while it holds a lock.
\<close>

subsection \<open>The step relation\<close>

datatype 's phase = Outside | Inside nat 's

text \<open>
  \<open>Inside j s\<close>: the thread holds the lock of shard \<open>j\<close>, whose content was \<open>s\<close> when it took the lock.
\<close>

record ('s, 'k, 'v) lock_system =
  memory :: "'s sharded"
  holders :: "nat option list"
  phases :: "'s phase list"
  workers :: "('k, 'v) thread list"
  log :: "('k, 'v) event list"

fun call_key :: "('k, 'v) call \<Rightarrow> 'k option" where
  "call_key (Call_get k) = Some k"
| "call_key (Call_insert k v) = Some k"
| "call_key (Call_remove k) = Some k"
| "call_key (Call_contains_key k) = Some k"
| "call_key Call_len = None"
| "call_key Call_clear = None"

text \<open>The shard whose lock the next step of a thread needs, if it needs one.\<close>

definition checked_shard :: "'s sharded \<Rightarrow> nat \<Rightarrow> nat option" where
  "checked_shard sh i = (if i < length (shards sh) then Some i else None)"

definition next_lock :: "'k hashing \<Rightarrow> 's sharded \<Rightarrow> ('k, 'v) thread \<Rightarrow> nat option" where
  "next_lock H sh t = (case activity t of
     Crashed p \<Rightarrow> None
   | Idle \<Rightarrow> (case program t of [] \<Rightarrow> None
       | c # cs \<Rightarrow> (case call_key c of None \<Rightarrow> None | Some k \<Rightarrow> checked_shard sh (shard_index H sh k)))
   | Counting i n \<Rightarrow> checked_shard sh i
   | Clearing i \<Rightarrow> checked_shard sh i)"

definition put_content :: "nat \<Rightarrow> 's \<Rightarrow> 's sharded \<Rightarrow> 's sharded" where
  "put_content j s sh = sh\<lparr>shards := (shards sh)[j := (shards sh ! j)\<lparr>content := s\<rparr>]\<rparr>"

datatype lock_label = Acquire | Scribble | Release | Local

inductive lock_step ::
  "('e \<Rightarrow> ('s, 'k, 'v) shard_ops) \<Rightarrow> 'k hashing \<Rightarrow> ('s, 'k, 'v) lock_system \<Rightarrow> lock_label \<Rightarrow>
   ('s, 'k, 'v) lock_system \<Rightarrow> bool"
  for ops H where
  acquire: "i < length (workers S) \<Longrightarrow> phases S ! i = Outside \<Longrightarrow>
    next_lock H (memory S) (workers S ! i) = Some j \<Longrightarrow> holders S ! j = None \<Longrightarrow>
    lock_step ops H S Acquire (S\<lparr>holders := (holders S)[j := Some i],
      phases := (phases S)[i := Inside j (content (shards (memory S) ! j))]\<rparr>)"
| scribble: "i < length (workers S) \<Longrightarrow> phases S ! i = Inside j s \<Longrightarrow>
    lock_step ops H S Scribble (S\<lparr>memory := put_content j x (memory S)\<rparr>)"
| release: "i < length (workers S) \<Longrightarrow> phases S ! i = Inside j s \<Longrightarrow>
    thread_step (ops e) H (workers S ! i) (put_content j s (memory S)) = Some (t, sh, es) \<Longrightarrow>
    lock_step ops H S Release (S\<lparr>memory := sh, holders := (holders S)[j := None],
      phases := (phases S)[i := Outside], workers := (workers S)[i := t], log := log S @ es\<rparr>)"
| "local": "i < length (workers S) \<Longrightarrow> phases S ! i = Outside \<Longrightarrow>
    next_lock H (memory S) (workers S ! i) = None \<Longrightarrow>
    thread_step (ops e) H (workers S ! i) (memory S) = Some (t, sh, es) \<Longrightarrow>
    lock_step ops H S Local (S\<lparr>memory := sh, workers := (workers S)[i := t], log := log S @ es\<rparr>)"

inductive lock_run ::
  "('e \<Rightarrow> ('s, 'k, 'v) shard_ops) \<Rightarrow> 'k hashing \<Rightarrow> ('s, 'k, 'v) lock_system \<Rightarrow> lock_label list \<Rightarrow>
   ('s, 'k, 'v) lock_system \<Rightarrow> bool"
  for ops H S where
  start: "lock_run ops H S [] S"
| more: "lock_run ops H S ls T \<Longrightarrow> lock_step ops H T l U \<Longrightarrow> lock_run ops H S (ls @ [l]) U"

inductive_cases lock_stepE: "lock_step ops H S l T"

definition start_locks :: "'s sharded \<Rightarrow> ('k, 'v) call list list \<Rightarrow> ('s, 'k, 'v) lock_system" where
  "start_locks sh ps =
     \<lparr>memory = sh, holders = replicate (length (shards sh)) None, phases = replicate (length ps) Outside,
      workers = map (\<lambda>p. \<lparr>program = p, activity = Idle, lens = []\<rparr>) ps, log = []\<rparr>"

subsection \<open>A section touches its own shard only\<close>

lemma at_shard_eq:
  "j < length (shards sh) \<Longrightarrow> locked f (shards sh ! j) = (r, m) \<Longrightarrow>
    at_shard j f sh = (r, sh\<lparr>shards := (shards sh)[j := m]\<rparr>)"
  by (simp add: at_shard_def)

lemma at_shard_local:
  assumes run: "at_shard j f sh = (r, sh')" and lt: "j < length (shards sh)"
    and len: "length (shards sh2) = length (shards sh)" and same: "shards sh2 ! j = shards sh ! j"
  shows "at_shard j f sh2 = (r, sh2\<lparr>shards := (shards sh2)[j := shards sh' ! j]\<rparr>) \<and>
    sh' = sh\<lparr>shards := (shards sh)[j := shards sh' ! j]\<rparr>"
proof -
  obtain q m where m: "locked f (shards sh ! j) = (q, m)" by fastforce
  from at_shard_eq [OF lt m] run have "q = r" "sh' = sh\<lparr>shards := (shards sh)[j := m]\<rparr>" by simp_all
  moreover have "at_shard j f sh2 = (q, sh2\<lparr>shards := (shards sh2)[j := m]\<rparr>)"
    using lt len m same by (intro at_shard_eq) simp_all
  ultimately show ?thesis using lt by simp
qed

lemma with_shard_local:
  assumes "with_shard H k f sh = (r, sh')" and "shard_index H sh k = j" and "j < length (shards sh)"
    and "shard_mask sh2 = shard_mask sh" and "length (shards sh2) = length (shards sh)"
    and "shards sh2 ! j = shards sh ! j"
  shows "with_shard H k f sh2 = (r, sh2\<lparr>shards := (shards sh2)[j := shards sh' ! j]\<rparr>) \<and>
    sh' = sh\<lparr>shards := (shards sh)[j := shards sh' ! j]\<rparr>"
proof -
  have "shard_index H sh2 k = j" using assms(2,4) by (simp add: shard_index_def)
  then show ?thesis
    using at_shard_local [OF assms(1) [unfolded with_shard_at assms(2)] assms(3,5,6)] by (simp add: with_shard_at)
qed

lemma section_step_local:
  assumes "section_step f t next sh = (t', sh', es)" and "\<And>r. f sh = (r, sh') \<Longrightarrow> f sh2 = (r, g) \<and> P"
  shows "section_step f t next sh2 = (t', g, es) \<and> P"
  using assms by (auto simp: section_step_def split: prod.splits outcome.splits)

lemma next_lock_lt: "next_lock H sh t = Some j \<Longrightarrow> j < length (shards sh)"
  by (auto simp: next_lock_def checked_shard_def split: activity.splits list.splits option.splits if_splits)

lemma next_lock_cong:
  "shard_mask sh2 = shard_mask sh \<Longrightarrow> length (shards sh2) = length (shards sh) \<Longrightarrow> next_lock H sh2 t = next_lock H sh t"
  by (simp add: next_lock_def checked_shard_def shard_index_def split: activity.split list.split option.split)

lemma thread_step_local:
  fixes sh :: "'s sharded"
  assumes step: "thread_step ops H t sh = Some (t', sh', es)" and lock: "next_lock H sh t = Some j"
    and mask: "shard_mask sh2 = shard_mask sh" and len: "length (shards sh2) = length (shards sh)"
    and same: "shards sh2 ! j = shards sh ! j"
  shows "thread_step ops H t sh2 = Some (t', sh2\<lparr>shards := (shards sh2)[j := shards sh' ! j]\<rparr>, es) \<and>
    sh' = sh\<lparr>shards := (shards sh)[j := shards sh' ! j]\<rparr>"
proof -
  note lt = next_lock_lt [OF lock]
  let ?g = "sh2\<lparr>shards := (shards sh2)[j := shards sh' ! j]\<rparr>"
  let ?P = "sh' = sh\<lparr>shards := (shards sh)[j := shards sh' ! j]\<rparr>"
  have key: "section_step (with_shard H k f) t next sh2 = (t', ?g, es) \<and> ?P"
    if "section_step (with_shard H k f) t next sh = (t', sh', es)" "shard_index H sh k = j"
    for k and f :: "('s, 'r) exec" and "next"
    by (rule section_step_local [OF that(1)]) (rule with_shard_local [OF _ that(2) lt mask len same])
  have here: "section_step (at_shard j f) t next sh2 = (t', ?g, es) \<and> ?P"
    if "section_step (at_shard j f) t next sh = (t', sh', es)" for f :: "('s, 'r) exec" and "next"
    by (rule section_step_local [OF that]) (rule at_shard_local [OF _ lt len same])
  show ?thesis
  proof (cases "activity t")
    case Idle
    with lock obtain c cs k where c: "program t = c # cs" "call_key c = Some k" "shard_index H sh k = j"
      by (auto simp: next_lock_def checked_shard_def split: list.splits option.splits if_splits)
    with step Idle have "call_step ops H t c cs sh = (t', sh', es)" by (simp add: thread_step_def)
    then have "call_step ops H t c cs sh2 = (t', ?g, es) \<and> ?P"
      using c(2,3) by (cases c; simp; elim key; simp)
    then show ?thesis using Idle c(1) by (simp add: thread_step_def)
  next
    case (Counting i n)
    with lock have "i = j" by (simp add: next_lock_def checked_shard_def split: if_splits)
    with step Counting lt len here show ?thesis by (simp add: thread_step_def)
  next
    case (Clearing i)
    with lock have "i = j" by (simp add: next_lock_def checked_shard_def split: if_splits)
    with step Clearing lt len here show ?thesis by (simp add: thread_step_def)
  next
    case (Crashed p)
    with lock show ?thesis by (simp add: next_lock_def)
  qed
qed

text \<open>A step that needs no lock touches no shard; a thread that is not done has a next step.\<close>

lemma thread_step_unlocked:
  assumes "thread_step ops H t sh = Some (t', sh', es)" and "next_lock H sh t = None"
    and "shard_mask sh2 = shard_mask sh" and "length (shards sh2) = length (shards sh)"
  shows "sh' = sh \<and> thread_step ops H t sh2 = Some (t', sh2, es)"
proof (cases "activity t")
  case Idle
  with assms(1) obtain c cs where c: "program t = c # cs" "call_step ops H t c cs sh = (t', sh', es)"
    by (auto simp: thread_step_def split: list.splits)
  have idx: "shard_index H sh2 k = shard_index H sh k" for k using assms(3) by (simp add: shard_index_def)
  have "sh' = sh \<and> call_step ops H t c cs sh2 = (t', sh2, es)"
    using c assms(2,4) Idle
    by (cases c) (auto simp: next_lock_def checked_shard_def section_step_def with_shard_def Let_def idx split: if_splits)
  with Idle c(1) show ?thesis by (simp add: thread_step_def)
qed (use assms in \<open>auto simp: thread_step_def next_lock_def checked_shard_def split: if_splits\<close>)

lemma locked_can_step: "next_lock H sh t = Some j \<Longrightarrow> \<exists>t' sh' es. thread_step ops H t sh = Some (t', sh', es)"
  using stuck_thread [of ops H t sh]
  by (cases "thread_step ops H t sh") (auto simp: next_lock_def finished_def split: prod.splits)

subsection \<open>Mutual exclusion\<close>

definition lock_inv :: "'k hashing \<Rightarrow> ('s, 'k, 'v) lock_system \<Rightarrow> bool" where
  "lock_inv H S \<longleftrightarrow> length (phases S) = length (workers S) \<and> length (holders S) = length (shards (memory S)) \<and>
     (\<forall>i j s. i < length (workers S) \<longrightarrow> phases S ! i = Inside j s \<longrightarrow>
        j < length (holders S) \<and> holders S ! j = Some i \<and> next_lock H (memory S) (workers S ! i) = Some j) \<and>
     (\<forall>i j. j < length (holders S) \<longrightarrow> holders S ! j = Some i \<longrightarrow>
        i < length (workers S) \<and> (\<exists>s. phases S ! i = Inside j s))"

lemma lock_invD:
  assumes inv: "lock_inv H S"
  shows "length (phases S) = length (workers S)" and "length (holders S) = length (shards (memory S))"
    and "i < length (workers S) \<Longrightarrow> phases S ! i = Inside j s \<Longrightarrow>
      j < length (holders S) \<and> holders S ! j = Some i \<and> next_lock H (memory S) (workers S ! i) = Some j"
    and "j < length (holders S) \<Longrightarrow> holders S ! j = Some i \<Longrightarrow> i < length (workers S) \<and> (\<exists>s. phases S ! i = Inside j s)"
proof -
  note d = inv [unfolded lock_inv_def]
  show "length (phases S) = length (workers S)" using d by (rule conjunct1)
  show "length (holders S) = length (shards (memory S))" using d by (elim conjE)
  show "j < length (holders S) \<and> holders S ! j = Some i \<and> next_lock H (memory S) (workers S ! i) = Some j"
    if "i < length (workers S)" "phases S ! i = Inside j s"
    using d that by (elim conjE allE [of _ i] allE [of _ j] allE [of _ s]) simp
  show "i < length (workers S) \<and> (\<exists>s. phases S ! i = Inside j s)"
    if "j < length (holders S)" "holders S ! j = Some i"
    using d [THEN conjunct2, THEN conjunct2, THEN conjunct2] that by blast
qed

lemma mutual_exclusion:
  assumes "lock_inv H S" and "i < length (workers S)" and "i' < length (workers S)"
    and "phases S ! i = Inside j s" and "phases S ! i' = Inside j s'"
  shows "i = i'"
  using lock_invD(3) [OF assms(1,2,4)] lock_invD(3) [OF assms(1,3,5)] by simp

lemma put_content_simps [simp]:
  "shard_mask (put_content j s sh) = shard_mask sh" "length (shards (put_content j s sh)) = length (shards sh)"
  by (simp_all add: put_content_def)

lemma next_lock_put [simp]: "next_lock H (put_content j s sh) t = next_lock H sh t"
  by (rule next_lock_cong) simp_all

lemma thread_step_mask:
  assumes "thread_step ops H t sh = Some (t', sh', es)"
  shows "shard_mask sh' = shard_mask sh"
proof (cases "next_lock H sh t")
  case None
  then show ?thesis using thread_step_unlocked [OF assms None refl refl] by simp
next
  case (Some j)
  from thread_step_local [OF assms Some refl refl refl] have "sh' = sh\<lparr>shards := (shards sh)[j := shards sh' ! j]\<rparr>"
    by (rule conjunct2)
  then show ?thesis by (metis sharded.select_convs(2) sharded.surjective sharded.update_convs(1))
qed

lemma lock_step_inv:
  assumes step: "lock_step ops H S l T" and inv: "lock_inv H S"
  shows "lock_inv H T"
  using step
proof cases
  case (acquire i j)
  have j: "j < length (holders S)" using next_lock_lt [OF acquire(5)] lock_invD(2) [OF inv] by simp
  show ?thesis
    unfolding lock_inv_def
  proof (intro conjI allI impI)
    fix i' j' s'
    assume i': "i' < length (workers T)" and ph: "phases T ! i' = Inside j' s'"
    show "j' < length (holders T)" "holders T ! j' = Some i'" "next_lock H (memory T) (workers T ! i') = Some j'"
      using acquire j i' ph lock_invD(1) [OF inv] lock_invD(3) [OF inv, of i' j' s']
      by (cases "i' = i"; auto simp: nth_list_update)+
  next
    fix i' j'
    assume j': "j' < length (holders T)" and h: "holders T ! j' = Some i'"
    show "i' < length (workers T)" "\<exists>s. phases T ! i' = Inside j' s"
      using acquire j j' h lock_invD(1) [OF inv] lock_invD(4) [OF inv, of j' i']
      by (cases "j' = j"; cases "i' = i"; auto)+
  qed (use acquire lock_invD(1,2) [OF inv] in simp_all)
next
  case (scribble i j s x)
  then have eq: "phases T = phases S" "workers T = workers S" "holders T = holders S"
      "memory T = put_content j x (memory S)" by simp_all
  show ?thesis
    using inv unfolding lock_inv_def eq put_content_simps next_lock_put .
next
  case (release i j s e t sh es)
  have same: "length (shards sh) = length (shards (memory S))" "shard_mask sh = shard_mask (memory S)"
    using thread_step_weight(1) [OF release(5)] thread_step_mask [OF release(5)] by simp_all
  have next_eq: "next_lock H sh u = next_lock H (memory S) u" for u by (rule next_lock_cong [OF same(2,1)])
  note held = lock_invD(3) [OF inv release(3,4)]
  show ?thesis
    unfolding lock_inv_def
  proof (intro conjI allI impI)
    fix i' j' s'
    assume i': "i' < length (workers T)" and ph: "phases T ! i' = Inside j' s'"
    show "j' < length (holders T)" "holders T ! j' = Some i'" "next_lock H (memory T) (workers T ! i') = Some j'"
      using release held i' ph lock_invD(1) [OF inv] lock_invD(3) [OF inv, of i' j' s']
      by (cases "i' = i"; auto simp: nth_list_update next_eq)+
  next
    fix i' j'
    assume j': "j' < length (holders T)" and h: "holders T ! j' = Some i'"
    show "i' < length (workers T)" "\<exists>s. phases T ! i' = Inside j' s"
      using release held j' h lock_invD(1) [OF inv] lock_invD(4) [OF inv, of j' i']
      by (cases "j' = j"; cases "i' = i"; auto)+
  qed (use release lock_invD(1,2) [OF inv] same in simp_all)
next
  case (local i e t sh es)
  have sh: "sh = memory S" using thread_step_unlocked [OF local(6,5) refl refl] by (rule conjunct1)
  show ?thesis
    unfolding lock_inv_def
  proof (intro conjI allI impI)
    fix i' j' s'
    assume i': "i' < length (workers T)" and ph: "phases T ! i' = Inside j' s'"
    show "j' < length (holders T)" "holders T ! j' = Some i'" "next_lock H (memory T) (workers T ! i') = Some j'"
      using local sh i' ph lock_invD(3) [OF inv, of i' j' s'] by (cases "i' = i"; auto)+
  next
    fix i' j'
    assume j': "j' < length (holders T)" and h: "holders T ! j' = Some i'"
    show "i' < length (workers T)" "\<exists>s. phases T ! i' = Inside j' s"
      using local j' h lock_invD(4) [OF inv, of j' i'] by auto
  qed (use local sh lock_invD(1,2) [OF inv] in simp_all)
qed

subsection \<open>The sections take effect when they release\<close>

text \<open>
  What the system looks like from outside the critical sections: a shard whose lock is held still has
  the content that the holder found.
\<close>

definition settled :: "('s, 'k, 'v) lock_system \<Rightarrow> nat \<Rightarrow> 's mutex" where
  "settled S j = (case holders S ! j of
     None \<Rightarrow> shards (memory S) ! j
   | Some i \<Rightarrow> (case phases S ! i of
       Outside \<Rightarrow> shards (memory S) ! j
     | Inside j' s \<Rightarrow> (shards (memory S) ! j)\<lparr>content := s\<rparr>))"

definition visible :: "('s, 'k, 'v) lock_system \<Rightarrow> ('s, 'k, 'v) system" where
  "visible S = \<lparr>shared = (memory S)\<lparr>shards := map (settled S) [0..<length (shards (memory S))]\<rparr>,
     threads = workers S, history = log S\<rparr>"

lemma visible_simps [simp]:
  "threads (visible S) = workers S" "history (visible S) = log S"
  "shard_mask (shared (visible S)) = shard_mask (memory S)"
  "length (shards (shared (visible S))) = length (shards (memory S))"
  "j < length (shards (memory S)) \<Longrightarrow> shards (shared (visible S)) ! j = settled S j"
  by (simp_all add: visible_def)

lemma visible_eqI:
  assumes "workers T = workers S" and "log T = log S" and "shard_mask (memory T) = shard_mask (memory S)"
    and "length (shards (memory T)) = length (shards (memory S))"
    and "\<And>j. j < length (shards (memory S)) \<Longrightarrow> settled T j = settled S j"
  shows "visible T = visible S"
  using assms by (simp add: visible_def cong: map_cong)

lemma lock_step_simulates:
  assumes step: "lock_step ops H S l T" and inv: "lock_inv H S"
  shows "if l = Acquire \<or> l = Scribble then visible T = visible S else system_step ops H (visible S) (visible T)"
  using step
proof cases
  case (acquire i j)
  have "visible T = visible S"
  proof (rule visible_eqI)
    fix m assume m: "m < length (shards (memory S))"
    have ne: "holders S ! m \<noteq> Some i"
      using lock_invD(4) [OF inv, of m i] lock_invD(2) [OF inv] m acquire(4) by auto
    show "settled T m = settled S m"
    proof (cases "m = j")
      case True
      then show ?thesis
        using acquire m lock_invD(1,2) [OF inv] by (simp add: settled_def)
    next
      case False
      then show ?thesis
        using acquire ne by (auto simp: settled_def nth_list_update split: option.split phase.split)
    qed
  qed (use acquire in simp_all)
  with acquire(1) show ?thesis by simp
next
  case (scribble i j s x)
  note held = lock_invD(3) [OF inv scribble(3,4)]
  have "visible T = visible S"
  proof (rule visible_eqI)
    fix m assume "m < length (shards (memory S))"
    then show "settled T m = settled S m"
      using scribble held by (cases "m = j") (auto simp: settled_def put_content_def split: option.splits phase.splits)
  qed (use scribble in simp_all)
  with scribble(1) show ?thesis by simp
next
  case (release i j s e t sh es)
  note held = lock_invD(3) [OF inv release(3,4)]
  note len = lock_invD(2) [OF inv]
  let ?M = "put_content j s (memory S)"
  have lock: "next_lock H ?M (workers S ! i) = Some j" using held by simp
  have j: "j < length (shards (memory S))" using held len by simp
  have "shards (shared (visible S)) ! j = shards ?M ! j"
    using j held release(4) by (simp add: settled_def put_content_def)
  from thread_step_local [OF release(5) lock _ _ this]
  have run: "thread_step (ops e) H (workers S ! i) (shared (visible S)) =
      Some (t, (shared (visible S))\<lparr>shards := (shards (shared (visible S)))[j := shards sh ! j]\<rparr>, es)"
    and sh: "sh = ?M\<lparr>shards := (shards ?M)[j := shards sh ! j]\<rparr>" by simp_all
  have mask: "shard_mask sh = shard_mask (memory S)" "length (shards sh) = length (shards (memory S))"
    using thread_step_mask [OF release(5)] thread_step_weight(1) [OF release(5)] by simp_all
  have other: "shards sh ! m = shards (memory S) ! m" if "m \<noteq> j" for m
    using that by (subst sh) (simp add: put_content_def)
  have "settled T m = (if m = j then shards sh ! j else settled S m)" if "m < length (shards (memory S))" for m
  proof (cases "m = j")
    case True
    then show ?thesis using release that len by (simp add: settled_def)
  next
    case False
    then have "holders S ! m \<noteq> Some i"
      using lock_invD(4) [OF inv, of m i] release(4) len that by auto
    with False show ?thesis
      using release other [OF False] by (auto simp: settled_def nth_list_update split: option.split phase.split)
  qed
  then have "map (settled T) [0..<length (shards sh)] =
      (shards (shared (visible S)))[j := shards sh ! j]"
    using j mask(2) by (intro nth_equalityI) (auto simp: nth_list_update)
  then have "visible T = (visible S)\<lparr>
      shared := (shared (visible S))\<lparr>shards := (shards (shared (visible S)))[j := shards sh ! j]\<rparr>,
      threads := (threads (visible S))[i := t], history := history (visible S) @ es\<rparr>"
    using release mask by (simp add: visible_def)
  with system_step.step [of i "visible S" ops e H] run release(1,3) show ?thesis by simp
next
  case (local i e t sh es)
  have sh: "sh = memory S" using thread_step_unlocked [OF local(6,5)] by blast
  have run: "thread_step (ops e) H (workers S ! i) (shared (visible S)) = Some (t, shared (visible S), es)"
    using thread_step_unlocked [OF local(6,5), of "shared (visible S)"] by simp
  have "settled T m = settled S m" for m using local(2) sh by (simp add: settled_def split: option.split phase.split)
  then have "visible T = (visible S)\<lparr>shared := shared (visible S),
      threads := (threads (visible S))[i := t], history := history (visible S) @ es\<rparr>"
    using local sh by (simp add: visible_def)
  with system_step.step [of i "visible S" ops e H] run local(1,3) show ?thesis by simp
qed

text \<open>The steps of a run that take effect, and those that are not merely writes under a lock.\<close>

abbreviation effects :: "lock_label list \<Rightarrow> nat" where
  "effects ls \<equiv> length (filter (\<lambda>l. l = Release \<or> l = Local) ls)"

abbreviation moves :: "lock_label list \<Rightarrow> nat" where
  "moves ls \<equiv> length (filter (\<lambda>l. l \<noteq> Scribble) ls)"

lemma lock_run_simulates:
  assumes "lock_run ops H S ls T" and "lock_inv H S"
  shows "lock_inv H T \<and> system_run ops H (visible S) (effects ls) (visible T)"
  using assms
proof (induction rule: lock_run.induct)
  case start
  then show ?case by (simp add: system_run.start)
next
  case (more ls T l U)
  then have inv: "lock_inv H T" and run: "system_run ops H (visible S) (effects ls) (visible T)" by simp_all
  show ?case
    using lock_step_inv [OF more.hyps(2) inv] lock_step_simulates [OF more.hyps(2) inv] run
    by (cases l) (auto intro: system_run.more)
qed

lemma start_locks_inv: "lock_inv H (start_locks sh ps)"
  by (auto simp: lock_inv_def start_locks_def)

lemma visible_start: "visible (start_locks sh ps) = start_system sh ps"
proof -
  have "map (settled (start_locks sh ps)) [0..<length (shards sh)] = shards sh"
    by (rule nth_equalityI) (simp_all add: settled_def start_locks_def)
  then show ?thesis by (simp add: visible_def start_system_def start_locks_def)
qed

text \<open>A shard whose lock is free is the same in both.\<close>

lemma visible_free: "holders S ! j = None \<Longrightarrow> settled S j = shards (memory S) ! j"
  by (simp add: settled_def)

subsection \<open>Runs end, and none deadlocks\<close>

fun busy :: "'s phase \<Rightarrow> nat" where
  "busy Outside = 0"
| "busy (Inside j s) = 1"

definition inside :: "('s, 'k, 'v) lock_system \<Rightarrow> nat" where
  "inside S = sum_list (map busy (phases S))"

lemma sum_list_map_update:
  fixes f :: "'a \<Rightarrow> nat"
  assumes "i < length xs"
  shows "sum_list (map f (xs[i := y])) + f (xs ! i) = sum_list (map f xs) + f y"
  using assms
proof (induction xs arbitrary: i)
  case (Cons x xs)
  then show ?case using Cons.IH [of "i - 1"] by (cases i) simp_all
qed simp

lemma inside_le: "inside S \<le> length (phases S)"
proof -
  have "busy p \<le> 1" for p :: "'a phase" by (cases p) simp_all
  then have "sum_list (map busy (phases S)) \<le> sum_list (map (\<lambda>_. 1) (phases S))" by (rule sum_list_mono)
  then show ?thesis by (simp add: inside_def sum_list_triv)
qed

lemma lock_step_phases:
  assumes "lock_step ops H S l T" and "length (phases S) = length (workers S)"
  shows "length (phases T) = length (phases S) \<and>
    inside T + (if l = Release then 1 else 0) = inside S + (if l = Acquire then 1 else 0)"
  using assms(1)
proof cases
  case (acquire i j)
  then show ?thesis
    using sum_list_map_update [of i "phases S" busy "Inside j (content (shards (memory S) ! j))"] assms(2)
    by (simp add: inside_def)
next
  case (release i j s e t sh es)
  then show ?thesis
    using sum_list_map_update [of i "phases S" busy Outside] assms(2) by (simp add: inside_def)
qed (simp_all add: inside_def)

lemma lock_run_moves:
  assumes "lock_run ops H S ls T" and "lock_inv H S" and "inside S = 0"
  shows "moves ls + 2 * system_weight (visible T) \<le> 2 * system_weight (visible S) + inside T \<and>
    length (phases T) = length (phases S)"
  using assms
proof (induction rule: lock_run.induct)
  case (more ls T l U)
  then have le: "moves ls + 2 * system_weight (visible T) \<le> 2 * system_weight (visible S) + inside T"
    and len: "length (phases T) = length (phases S)" by simp_all
  have inv: "lock_inv H T" using lock_run_simulates [OF more.hyps(1) more.prems(1)] by simp
  note ph = lock_step_phases [OF more.hyps(2) lock_invD(1) [OF inv]]
  note sim = lock_step_simulates [OF more.hyps(2) inv]
  show ?case
    using le len ph sim system_step_weight [of ops H "visible T" "visible U"] by (cases l) auto
qed simp

lemma lock_progress:
  assumes inv: "lock_inv H S" and stuck: "\<forall>l T. lock_step ops H S l T \<longrightarrow> l = Scribble" and t: "t \<in> set (workers S)"
  shows "finished t \<or> (\<exists>p. activity t = Crashed p)"
proof (rule ccontr)
  assume alive: "\<not> (finished t \<or> (\<exists>p. activity t = Crashed p))"
  obtain i where i: "i < length (workers S)" "t = workers S ! i" using t by (auto simp: in_set_conv_nth)
  have none_inside: "phases S ! n = Outside" if n: "n < length (workers S)" for n
  proof (rule ccontr)
    assume "phases S ! n \<noteq> Outside"
    then obtain j s where ph: "phases S ! n = Inside j s" by (cases "phases S ! n") auto
    have "next_lock H (put_content j s (memory S)) (workers S ! n) = Some j"
      using lock_invD(3) [OF inv n ph] by simp
    from locked_can_step [OF this, of "ops undefined"] obtain t' sh es
      where "thread_step (ops undefined) H (workers S ! n) (put_content j s (memory S)) = Some (t', sh, es)" by blast
    from lock_step.release [of n S j s ops undefined H, OF n ph this] stuck show False by blast
  qed
  have out: "phases S ! i = Outside" by (rule none_inside [OF i(1)])
  show False
  proof (cases "next_lock H (memory S) (workers S ! i)")
    case None
    have "thread_step (ops undefined) H (workers S ! i) (memory S) \<noteq> None"
      using alive stuck_thread [of "ops undefined" H t "memory S"] i(2) by blast
    then obtain t' sh es where "thread_step (ops undefined) H (workers S ! i) (memory S) = Some (t', sh, es)" by auto
    from lock_step.local [of i S H ops undefined, OF i(1) out None this] stuck show False by blast
  next
    case (Some j)
    have "holders S ! j = None"
    proof (cases "holders S ! j")
      case (Some n)
      have "j < length (holders S)" using next_lock_lt [OF \<open>next_lock _ _ _ = Some j\<close>] lock_invD(2) [OF inv] by simp
      from lock_invD(4) [OF inv this Some] none_inside [of n] show ?thesis by auto
    qed
    from lock_step.acquire [of i S H j ops, OF i(1) out Some this] stuck show False by blast
  qed
qed

end
