(* ===== verification/Lock_Safety.thy ===== *)
theory Lock_Safety
  imports Concurrent Locking
begin

section \<open>The sharded caches under locks\<close>

text \<open>
  \<open>Locking\<close> maps every run of lock, work and unlock steps to a run of atomic sections, so what
  \<open>Schedules\<close> proves of those holds of the threads and the log of every such run. Together with
  progress this says that threads sharing a cache neither deadlock nor run forever.
\<close>

definition completes ::
  "('e \<Rightarrow> ('s, 'k, 'v) shard_ops) \<Rightarrow> 'k hashing \<Rightarrow> ('k \<Rightarrow> nat) \<Rightarrow> usize \<Rightarrow> panic set \<Rightarrow> ('k, 'v) call list list \<Rightarrow>
   lock_label list \<Rightarrow> ('s, 'k, 'v) lock_system \<Rightarrow> bool" where
  "completes ops H idx cap panics ps ls S \<longleftrightarrow>
     moves ls \<le> 2 * (\<Sum>p \<leftarrow> ps. \<Sum>c \<leftarrow> p. call_weight (unat (shard_count cap)) c) + length ps \<and>
     ((\<forall>l T. lock_step ops H S l T \<longrightarrow> l = Scribble) \<longrightarrow>
       (\<forall>t \<in> set (workers S). finished t \<or> (\<exists>p \<in> panics. activity t = Crashed p))) \<and>
     legal_from idx Map.empty (log S) \<and>
     (\<forall>t \<in> set (workers S). (\<forall>p. activity t = Crashed p \<longrightarrow> p \<in> panics) \<and> (\<forall>m \<in> set (lens t). m \<le> unat cap))"

lemma start_weight:
  "system_weight (start_system sh ps) = (\<Sum>p \<leftarrow> ps. \<Sum>c \<leftarrow> p. call_weight (length (shards sh)) c)"
  by (simp add: system_weight_def start_system_def thread_weight_def comp_def)

context atomic_contract begin

lemma every_lock_run:
  assumes inv: "cache_inv ok bound view H c" and empty: "cache_view view H c = Map.empty"
    and fresh: "used_le used 0 (sharded_inner c)" and limit: "effects ls \<le> limit"
    and run: "lock_run ops H (start_locks (sharded_inner c) ps) ls S"
  shows "completes ops H (shard_index H (sharded_inner c)) (total_capacity c) panics ps ls S"
proof -
  let ?S = "start_locks (sharded_inner c) ps :: ('s, 'k, 'v) lock_system"
  from lock_run_simulates [OF run start_locks_inv]
  have S: "lock_inv H S" and sim: "system_run ops H (start_system (sharded_inner c) ps) (effects ls) (visible S)"
    by (simp_all add: visible_start)
  note every = every_schedule [OF inv empty fresh limit sim]
  have "length (shards (sharded_inner c)) = unat (shard_count (total_capacity c))"
    using inv Suc_unat_pred [OF shard_count_bounds(1)] by (simp add: cache_inv_def sharded_inv_def)
  then have weight: "system_weight (visible ?S) =
      (\<Sum>p \<leftarrow> ps. \<Sum>x \<leftarrow> p. call_weight (unat (shard_count (total_capacity c))) x)"
    by (simp add: visible_start start_weight)
  have "inside ?S = 0" "length (phases ?S) = length ps"
    by (simp_all add: inside_def start_locks_def)
  then have "moves ls \<le> 2 * system_weight (visible ?S) + length ps"
    using lock_run_moves [OF run start_locks_inv] inside_le [of S] by simp
  moreover have crash: "p \<in> panics" if "t \<in> set (workers S)" "activity t = Crashed p" for t p
    using every(4) [of t] that by simp
  moreover have "finished t \<or> (\<exists>p \<in> panics. activity t = Crashed p)"
    if "\<forall>l T. lock_step ops H S l T \<longrightarrow> l = Scribble" and t: "t \<in> set (workers S)" for t
    using lock_progress [OF S that] crash [OF t] by blast
  ultimately show ?thesis
    using every(1,4) unfolding completes_def weight by simp
qed

end

subsection \<open>A run with two threads\<close>




subsection \<open>Properties\<close>





end
