(* ===== verification/Broken_Runs.thy ===== *)
theory Broken_Runs
  imports Key_Panics
begin

section \<open>Panics that break a cache\<close>

text \<open>
  The calls of user code that \<open>Key_Panics\<close> leaves out as harmful, at work: concrete runs in which one panic
  of \<open>Hash\<close> or \<open>Eq\<close>, between two updates of a shard, breaks its bounds or makes a later call panic.
\<close>

subsection \<open>Runs in which one panic breaks a cache\<close>













subsection \<open>Properties\<close>


end
