(* ===== verification/Sized_Clients.thy ===== *)
theory Sized_Clients
  imports Sized_Cache
begin

section \<open>SizedCache: what a client can rely on\<close>

text \<open>
  Sequences of calls on which \<open>SizedCache\<close> follows its policy throughout: those in which all values inserted
  under one key weigh the same, so that no live update overshoots the budget. Values of different keys may
  weigh what they like, also more than the budget.
\<close>

fun sized_spec_call ::
  "usize \<Rightarrow> ('v \<Rightarrow> usize) \<Rightarrow> ('k, 'v) call \<Rightarrow> ('k, 'v) weighted \<Rightarrow> ('k, 'v) weighted" where
  "sized_spec_call limit weigh (Call_get k) E = snd (sized_spec_get k E)"
| "sized_spec_call limit weigh (Call_insert k v) E =
     (if limit < weigh v then E else snd (sized_spec_insert (unat limit) (weigh v) k v E))"
| "sized_spec_call limit weigh (Call_remove k) E = snd (sized_spec_remove k E)"
| "sized_spec_call limit weigh (Call_contains_key k) E = E"
| "sized_spec_call limit weigh Call_len E = E"
| "sized_spec_call limit weigh Call_clear E = []"

definition same_weights :: "('v \<Rightarrow> usize) \<Rightarrow> ('k, 'v) call set \<Rightarrow> bool" where
  "same_weights weigh X \<longleftrightarrow> (\<forall>k v w. Call_insert k v \<in> X \<and> Call_insert k w \<in> X \<longrightarrow> weigh v = weigh w)"

text \<open>The entries come from the calls, with their weights, and each is the latest of its key.\<close>

definition traced :: "('v \<Rightarrow> usize) \<Rightarrow> ('k, 'v) call set \<Rightarrow> ('k \<rightharpoonup> 'v) \<Rightarrow> ('k, 'v) weighted \<Rightarrow> bool" where
  "traced weigh X m E \<longleftrightarrow> (\<forall>(k, v, w) \<in> set E. Call_insert k v \<in> X \<and> w = weigh v \<and> m k = Some v)"

lemma traced_subset: "traced weigh X m E \<Longrightarrow> set F \<subseteq> set E \<Longrightarrow> traced weigh X m F"
  by (auto simp: traced_def)

lemma traced_other:
  assumes "traced weigh X m E" and "set F \<subseteq> set E" and "\<And>x. (k, x) \<notin> set F"
  shows "traced weigh X (m(k := y)) F"
  unfolding traced_def
proof (rule ballI, clarify)
  fix j v w
  assume e: "(j, v, w) \<in> set F"
  then have "(j, v, w) \<in> set E" "j \<noteq> k" using assms(2,3) by blast+
  then show "Call_insert j v \<in> X \<and> w = weigh v \<and> (m(k := y)) j = Some v"
    using assms(1) by (auto simp: traced_def)
qed

lemma set_trim: "set (trim budget E) \<subseteq> set E"
  using trim_prefix [of E budget] by (metis Un_upper1 set_append)

lemma mru_drop_within: "set (mru_drop k E) \<subseteq> set E" "(k, x) \<notin> set (mru_drop k E)"
  by (auto simp: mru_drop_def)

lemma mru_touch_within: "set (mru_touch k E) \<subseteq> set E"
  by (auto simp: mru_touch_def mru_put_def mru_drop_def dest: map_of_SomeD split: option.split)

lemma no_overshoot:
  assumes ok: "sized_cache_ok c" and trace: "traced (weigher c) X m (sized_entries c)"
    and same: "same_weights (weigher c) X" and x: "Call_insert k v \<in> X"
  shows "update_fits (max_weight c) (weigher c v) k (sized_entries c)"
    and "max_weight c < weigher c v \<Longrightarrow> map_of (sized_entries c) k = None"
proof -
  have ok': "sized_ok (max_weight c) (content (sized_mutex c))" using ok by (simp add: sized_cache_ok_def)
  have d: "distinct (map fst (sized_entries c))"
    using sized_okD(3) [OF ok'] by (simp add: sized_entries_def)
  have total: "weights (sized_entries c) \<le> unat (max_weight c)"
    using sized_okD(6) [OF ok'] ok' by (simp add: sized_entries_def sized_ok_def word_le_nat_alt)
  have found: "w = weigher c v \<and> unat w + weights (mru_drop k (sized_entries c)) \<le> unat (max_weight c)"
    if "map_of (sized_entries c) k = Some (v', w)" for v' w
  proof -
    have "(k, v', w) \<in> set (sized_entries c)" using that by (rule map_of_SomeD)
    then have "Call_insert k v' \<in> X" "w = weigher c v'" using trace by (auto simp: traced_def)
    then have "w = weigher c v" using same x unfolding same_weights_def by blast
    with weights_split [OF d that] total show ?thesis by simp
  qed
  then show "update_fits (max_weight c) (weigher c v) k (sized_entries c)"
    by (cases "map_of (sized_entries c) k") (auto simp: update_fits_def)
  show "map_of (sized_entries c) k = None" if "max_weight c < weigher c v"
    using found that by (cases "map_of (sized_entries c) k") (auto simp: word_less_nat_alt)
qed

lemma traced_call:
  assumes trace: "traced weigh X m E" and x: "x \<in> X"
    and refused: "\<And>k v. x = Call_insert k v \<Longrightarrow> limit < weigh v \<Longrightarrow> map_of E k = None"
  shows "traced weigh X (latest x m) (sized_spec_call limit weigh x E)"
proof (cases x)
  case (Call_get k)
  then show ?thesis using trace mru_touch_within [of k E] by (auto simp: sized_spec_get_def intro: traced_subset)
next
  case (Call_insert k v)
  show ?thesis
  proof (cases "limit < weigh v")
    case True
    then have "(k, y) \<notin> set E" for y
      using refused [OF Call_insert] weak_map_of_SomeI [of k y E] by auto
    from traced_other [OF trace order_refl this] show ?thesis using True Call_insert by simp
  next
    case False
    let ?F = "trim (unat limit - unat (weigh v)) (mru_drop k E)"
    note sub = set_trim [of "unat limit - unat (weigh v)" "mru_drop k E"]
    have "(k, y) \<notin> set ?F" for y using sub mru_drop_within(2) by (rule contra_subsetD)
    from traced_other [OF trace order_trans [OF sub mru_drop_within(1)] this]
    have F: "traced weigh X (m(k \<mapsto> v)) ?F" .
    have "Call_insert k v \<in> X" using x Call_insert by simp
    with F have "traced weigh X (m(k \<mapsto> v)) ((k, v, weigh v) # ?F)" unfolding traced_def by simp
    moreover have "sized_spec_call limit weigh x E = (k, v, weigh v) # ?F"
      using False Call_insert by (simp add: sized_spec_insert_def)
    ultimately show ?thesis by (simp only: Call_insert latest.simps)
  qed
next
  case (Call_remove k)
  from traced_other [OF trace mru_drop_within] show ?thesis by (simp add: Call_remove sized_spec_remove_def)
qed (use trace in \<open>simp_all add: traced_def\<close>)

lemma sized_perform_refines:
  assumes ok: "sized_cache_ok c" and small: "unat (max_weight c) < 2 ^ 63"
    and fits: "\<And>k v. x = Call_insert k v \<Longrightarrow> update_fits (max_weight c) (weigher c v) k (sized_entries c)"
  shows "runs_to (sized_perform x) c (\<lambda>_ c'. sized_cache_ok c' \<and> same_limits c c' \<and>
    sized_entries c' = sized_spec_call (max_weight c) (weigher c) x (sized_entries c))"
proof -
  let ?s = "content (sized_mutex c)"
  have ok': "sized_ok (max_weight c) ?s" using ok by (simp add: sized_cache_ok_def)
  note unf = sized_entries_def sized_cache_ok_def same_limits_def
  have lift: "runs_to (on_inner f) c (\<lambda>_ c'. sized_cache_ok c' \<and> same_limits c c' \<and> sized_entries c' = E)"
    if "runs_to f ?s (\<lambda>_ s'. sized_list s' = E \<and> sized_ok (max_weight c) s')" for f E
    by (rule runs_to_mono [OF on_inner_runs [OF that]]) (simp add: unf)
  have list: "runs_to f ?s (\<lambda>_ s'. sized_list s' = snd y \<and> sized_ok (max_weight c) s')"
    if "runs_to f ?s (\<lambda>r s'. (r, sized_list s') = y \<and> sized_ok (max_weight c) s')"
    for f :: "(('a, 'b) sized_inner, 'r) exec" and y
    by (rule runs_to_mono [OF that]) auto
  have query: "runs_to (on_inner (gets g)) c (\<lambda>_ c'. sized_cache_ok c' \<and> same_limits c c' \<and> sized_entries c' = sized_entries c)"
    for g :: "('a, 'b) sized_inner \<Rightarrow> 'r"
    by (rule lift) (use ok' in \<open>simp add: runs_to_def sized_entries_def\<close>)
  show ?thesis
  proof (cases x)
    case (Call_get k)
    then show ?thesis
      using lift [OF list [OF sized_get_refines [OF ok', of k]]]
      by (simp add: sized_perform_def sized_get_def sized_entries_def runs_to_seq_ret)
  next
    case (Call_insert k v)
    show ?thesis
    proof (cases "max_weight c < weigher c v")
      case True
      then show ?thesis using Call_insert ok by (simp add: sized_perform_def sized_insert_def runs_to_def exec_apply)
    next
      case False
      then have "sized_insert k v c = on_inner (sized_insert_inner (max_weight c) (weigher c v) k v) c"
        by (simp add: sized_insert_def)
      moreover have "weigher c v \<le> max_weight c" using False by simp
      note lift [OF list [OF sized_insert_refines [OF ok' this small fits [OF Call_insert, unfolded sized_entries_def]]]]
      ultimately have "runs_to (sized_insert k v) c (\<lambda>_ c'. sized_cache_ok c' \<and> same_limits c c' \<and>
          sized_entries c' = sized_spec_call (max_weight c) (weigher c) x (sized_entries c))"
        using False Call_insert by (simp add: runs_to_def sized_entries_def)
      then show ?thesis using Call_insert by (simp add: sized_perform_def runs_to_seq_ret)
    qed
  next
    case (Call_remove k)
    then show ?thesis
      using lift [OF list [OF sized_remove_refines [OF ok', of k]]]
      by (simp add: sized_perform_def sized_remove_def sized_entries_def runs_to_seq_ret)
  next
    case Call_clear
    then show ?thesis
      using lift [OF sized_clear_refines] by (simp add: sized_perform_def sized_clear_def)
  qed (simp_all add: sized_perform_def sized_contains_key_def sized_len_def, (intro runs_to_seq_ret query)+)
qed

lemma sized_calls_refine:
  assumes "sized_cache_ok c" and "unat (max_weight c) < 2 ^ 63" and "same_weights (weigher c) X"
    and "traced (weigher c) X m (sized_entries c)" and "set xs \<subseteq> X"
  shows "runs_to (run_calls sized_perform xs) c (\<lambda>_ c'. sized_cache_ok c' \<and> same_limits c c' \<and>
    sized_entries c' = fold (sized_spec_call (max_weight c) (weigher c)) xs (sized_entries c) \<and>
    traced (weigher c) X (fold latest xs m) (sized_entries c'))"
  using assms
proof (induction xs arbitrary: c m)
  case Nil
  then show ?case by (simp add: runs_to_def)
next
  case (Cons x xs)
  have x: "x \<in> X" using Cons.prems(5) by simp
  note fit = no_overshoot [OF Cons.prems(1,4,3)]
  have "update_fits (max_weight c) (weigher c v) k (sized_entries c)" if "x = Call_insert k v" for k v
    using fit(1) x that by simp
  from sized_perform_refines [OF Cons.prems(1,2) this] obtain c1 where c1:
      "sized_perform x c = (Done (), c1)" "sized_cache_ok c1" "same_limits c c1"
      "sized_entries c1 = sized_spec_call (max_weight c) (weigher c) x (sized_entries c)"
    by (auto simp: runs_to_def)
  have lim: "max_weight c1 = max_weight c" "weigher c1 = weigher c" using c1(3) by (simp_all add: same_limits_def)
  have "traced (weigher c) X (latest x m) (sized_entries c1)"
    unfolding c1(4) by (rule traced_call [OF Cons.prems(4) x]) (use fit(2) x in simp)
  then have "runs_to (run_calls sized_perform xs) c1 (\<lambda>_ c'. sized_cache_ok c' \<and> same_limits c1 c' \<and>
      sized_entries c' = fold (sized_spec_call (max_weight c1) (weigher c1)) xs (sized_entries c1) \<and>
      traced (weigher c1) X (fold latest xs (latest x m)) (sized_entries c'))"
    using Cons.prems c1(2) by (intro Cons.IH) (simp_all add: lim)
  then show ?case
    using c1 by (auto simp: runs_to_def exec_apply lim same_limits_def)
qed

subsection \<open>Properties\<close>

text \<open>
  \<^bold>\<open>C15.\<close> Any client that always gives a key values of the same weight. On a cache built for a budget below
  half the word, no call of the sequence panics; afterwards the entries are exactly those of the policy run
  on the calls, \<open>len\<close> counts them, the reported total weight is their exact sum and within the budget, and
  every value present is the latest one inserted for its key. Values too heavy for the budget may be among
  those inserted.
\<close>

theorem sized_any_calls:
  fixes xs :: "('k, 'v) call list"
  assumes "limit \<noteq> 0" and "unat limit < 2 ^ 63" and "same_weights weigh (set xs)"
  shows "\<exists>c. sized_new limit weigh = Inr c \<and> runs_to (run_calls sized_perform xs) c (\<lambda>_ c'.
    sized_entries c' = fold (sized_spec_call limit weigh) xs [] \<and>
    sized_len c' = (Done (length (sized_entries c')), c') \<and>
    (\<exists>total. sized_total_weight c' = (Done total, c') \<and> unat total = weights (sized_entries c') \<and> total \<le> limit) \<and>
    (\<forall>k. map_option fst (map_of (sized_entries c') k) = None \<or>
         map_option fst (map_of (sized_entries c') k) = fold latest xs Map.empty k))"
proof -
  obtain c :: "('k, 'v) sized_cache" where c: "sized_new limit weigh = Inr c" using assms(1) by (simp add: sized_new_def)
  note new = sized_new_ok [OF c]
  have "traced (weigher c) (set xs) Map.empty (sized_entries c)" by (simp add: traced_def new(2))
  from sized_calls_refine [OF new(1) _ _ this order_refl] assms(2,3) new(3,4)
  have "runs_to (run_calls sized_perform xs) c (\<lambda>_ c'. sized_cache_ok c' \<and> same_limits c c' \<and>
      sized_entries c' = fold (sized_spec_call limit weigh) xs [] \<and>
      traced weigh (set xs) (fold latest xs Map.empty) (sized_entries c'))"
    by (simp add: new(2))
  then have "runs_to (run_calls sized_perform xs) c (\<lambda>_ c'.
    sized_entries c' = fold (sized_spec_call limit weigh) xs [] \<and>
    sized_len c' = (Done (length (sized_entries c')), c') \<and>
    (\<exists>total. sized_total_weight c' = (Done total, c') \<and> unat total = weights (sized_entries c') \<and> total \<le> limit) \<and>
    (\<forall>k. map_option fst (map_of (sized_entries c') k) = None \<or>
         map_option fst (map_of (sized_entries c') k) = fold latest xs Map.empty k))"
  proof (rule runs_to_mono, elim conjE)
    fix c' :: "('k, 'v) sized_cache"
    assume ok: "sized_cache_ok c'" and lim: "same_limits c c'"
      and E: "sized_entries c' = fold (sized_spec_call limit weigh) xs []"
      and tr: "traced weigh (set xs) (fold latest xs Map.empty) (sized_entries c')"
    have ok': "sized_ok limit (content (sized_mutex c'))"
      using ok lim new(3) by (simp add: sized_cache_ok_def same_limits_def)
    have "map_option fst (map_of (sized_entries c') k) = None \<or>
        map_option fst (map_of (sized_entries c') k) = fold latest xs Map.empty k" for k
      using tr by (cases "map_of (sized_entries c') k") (auto simp: traced_def dest!: map_of_SomeD)
    with E show "sized_entries c' = fold (sized_spec_call limit weigh) xs [] \<and>
        sized_len c' = (Done (length (sized_entries c')), c') \<and>
        (\<exists>total. sized_total_weight c' = (Done total, c') \<and> unat total = weights (sized_entries c') \<and> total \<le> limit) \<and>
        (\<forall>k. map_option fst (map_of (sized_entries c') k) = None \<or>
           map_option fst (map_of (sized_entries c') k) = fold latest xs Map.empty k)"
      using sized_okD(4,6) [OF ok'] ok'
      by (simp add: sized_len_def sized_total_weight_def on_inner_def locked_def sized_entries_def sized_ok_def)
  qed
  with c show ?thesis by blast
qed

theorem sized_any_calls_witness:
  "\<exists>c. sized_new 10 of_nat = Inr c \<and>
    runs_to (run_calls sized_perform [Call_insert 1 (5 :: nat), Call_insert 2 5, Call_get 1, Call_insert (3 :: nat) 4,
      Call_insert 4 11]) c (\<lambda>_ c'. sized_entries c' = [(3, 4, 4), (1, 5, 5)] \<and> sized_len c' = (Done 2, c'))"
proof -
  have "same_weights (of_nat :: nat \<Rightarrow> usize) (set [Call_insert 1 5, Call_insert 2 5, Call_get 1, Call_insert (3 :: nat) 4,
      Call_insert 4 11])"
    by (auto simp: same_weights_def)
  from sized_any_calls [of 10, OF _ _ this] show ?thesis
    by (auto simp: sized_spec_get_def sized_spec_insert_def mru_touch_def mru_put_def mru_drop_def elim!: runs_to_mono)
qed

end
