(* ===== verification/Arena_Types.thy ===== *)
theory Arena_Types
  imports Arena_Steps
begin

section \<open>Every index an arena stores names an occupied slot\<close>

text \<open>
  The arena caches address their nodes by indices into a vector. \<open>slots_typed\<close> says that the indices
  are used as the code means them: those in the hash map name the node of their key, those in the links
  and the two ends name occupied slots, those on the free stack name empty ones, and every slot is
  either mapped or free, so none is lost. It follows from \<open>arena_inv\<close>.
\<close>

definition live_slot :: "('k, 'v, 'm, 'z) arena_scheme \<Rightarrow> nat \<Rightarrow> bool" where
  "live_slot s i \<longleftrightarrow> i < length (nodes s) \<and> nodes s ! i \<noteq> None"

fun live_link :: "('k, 'v, 'm, 'z) arena_scheme \<Rightarrow> nat option \<Rightarrow> bool" where
  "live_link s None = True"
| "live_link s (Some i) = live_slot s i"

definition slots_typed :: "('k, 'v, 'm, 'z) arena_scheme \<Rightarrow> bool" where
  "slots_typed s \<longleftrightarrow>
     list_all (\<lambda>(k, i). live_slot s i \<and> map_option node_key (nodes s ! i) = Some k) (key_map s) \<and>
     list_all (\<lambda>x. case x of None \<Rightarrow> True
       | Some n \<Rightarrow> live_link s (node_prev n) \<and> live_link s (node_next n)) (nodes s) \<and>
     live_link s (head s) \<and> live_link s (tail s) \<and>
     list_all (\<lambda>i. i < length (nodes s) \<and> nodes s ! i = None) (free s) \<and>
     length (nodes s) = length (free s) + hm_len (key_map s)"

lemma chain_links:
  assumes "chain N p xs q" and "x \<in> set xs" and "N ! x = Some n"
  shows "node_prev n = p \<or> node_prev n \<in> Some ` set xs"
    and "node_next n = q \<or> node_next n \<in> Some ` set xs"
proof -
  obtain ys zs where xs: "xs = ys @ x # zs" using split_list [OF assms(2)] by blast
  with assms(1,3) have "node_prev n = last_of p ys" "node_next n = first_of zs q" by simp_all
  then show "node_prev n = p \<or> node_prev n \<in> Some ` set xs"
    and "node_next n = q \<or> node_next n \<in> Some ` set xs"
    by (auto simp: xs last_of_def first_of_def split: list.split)
qed

lemma arena_inv_typed:
  assumes inv: "arena_inv s"
  shows "slots_typed s"
proof -
  let ?xs = "order s"
  have rep: "arena_rep s ?xs" using inv by (simp add: arena_inv_def)
  then have ch: "chain (nodes s) None ?xs None" and ends: "head s = first_of ?xs None" "tail s = last_of None ?xs"
    and slots: "arena_slots s ?xs" by (simp_all add: arena_rep_def dll_def)
  have live: "live_slot s x" if "x \<in> set ?xs" for x
    using chain_occupied [OF ch that] by (auto simp: live_slot_def)
  have link: "live_link s l" if "l = None \<or> l \<in> Some ` set ?xs" for l
    using that live by auto
  have keys: "live_slot s i \<and> map_option node_key (nodes s ! i) = Some k" if "(k, i) \<in> set (key_map s)" for k i
  proof -
    have "hm_ok (key_map s)" using inv by (auto simp: arena_inv_def intro: keys_rep_ok)
    with that have "hm_get (key_map s) k = Some i" by (simp add: hm.get_entry)
    with inv show ?thesis by (rule arena_inv_split) (simp add: live_slot_def)
  qed
  have free: "i < length (nodes s) \<and> nodes s ! i = None" if "i \<in> set (free s)" for i
  proof -
    have "i < length (nodes s)" using slots that by (auto simp: arena_slots_def)
    moreover have "payloads (nodes s) ! i = None" using slots that by (simp add: arena_slots_def)
    ultimately show ?thesis by (simp add: payloads_def)
  qed
  have links: "live_link s (node_prev n) \<and> live_link s (node_next n)" if n: "Some n \<in> set (nodes s)" for n
  proof -
    from n obtain i where i: "i < length (nodes s)" "nodes s ! i = Some n" by (auto simp: in_set_conv_nth)
    then have "i \<in> set ?xs" using slots free [of i] by (auto simp: arena_slots_def)
    from chain_links [OF ch this i(2)] show ?thesis by (intro conjI link)
  qed
  have "distinct (free s @ ?xs)" "set (free s @ ?xs) = {..<length (nodes s)}"
    using slots by (simp_all only: arena_slots_def)
  then have "length (nodes s) = length (free s @ ?xs)" by (metis card_lessThan distinct_card)
  moreover have "hm_len (key_map s) = length ?xs"
    using arena_inv_len [OF inv] by (simp add: contents_def)
  moreover have "live_link s (head s)" "live_link s (tail s)"
    unfolding ends by (auto intro!: live simp: first_of_def last_of_def split: list.split)
  ultimately show ?thesis
    using keys links free by (auto simp: slots_typed_def list_all_iff split: option.split)
qed

end
