(* ===== verification/Spec2Isabelle.thy ===== *)
theory Spec2Isabelle
  imports Lock_Safety Broken_Runs Sized_Clients Small_Caches Arena_Types
begin

text \<open>
  A model of cache-mod, the in-process caches of the Rust crate under \<open>src/src/\<close>, and the theorems that
  make them correct.

  \<^bold>\<open>The program.\<close> Five caches implement the trait \<open>Cache\<close> (\<open>cache.rs\<close>): \<open>LruCache\<close>, \<open>LfuCache\<close>,
  \<open>TinyLfuCache\<close> and \<open>TtlCache\<close> are split into shards (\<open>sharding.rs\<close>), each behind a \<open>Mutex\<close> that is
  locked with \<open>lock_recover\<close> (\<open>util.rs\<close>); \<open>SizedCache\<close> has one mutex. The single-key methods hash the
  key, lock its shard and run their body on it; \<open>len\<close> and \<open>clear\<close> lock one shard after the other. A
  constructor fails with \<open>CacheError\<close> (\<open>error.rs\<close>) on a zero capacity.

  \<^bold>\<open>How code is represented.\<close> A body that runs under a lock is a value of \<open>exec\<close> (\<open>Prelude\<close>): a function
  from the state to an outcome, \<open>Done\<close> or \<open>Panicked\<close>, and the state left behind, in the panicking case
  too, because a poisoned mutex hands exactly that state to the next caller. Every index out of bounds,
  \<open>unreachable!()\<close> and remainder by zero is a branch that panics. Integers have their width: \<open>usize\<close> and
  \<open>u64\<close> are 64-bit words, sketch counters 8-bit words, with saturating and wrapping operations as in the
  source. \<open>runs_to f s Q\<close> says that \<open>f\<close> returns from \<open>s\<close> without panicking, with a result and a state of
  which \<open>Q\<close> holds. No definition of code carries fuel: the doubling loop of \<open>shard_count\<close> is a
  \<open>while\<close> whose termination is proved (\<open>shard_layout\<close>), and the eviction loops of \<open>SizedCache\<close> are one
  recursive function, terminating because each round empties a slot. (The abstraction \<open>order\<close> of an arena
  follows at most as many links as there are slots, which reaches the end of every well-formed list.)

  \<^bold>\<open>The library.\<close>
  \<^item> \<open>Prelude\<close>, \<open>Hash_Map\<close>, \<open>Ordered_Map\<close>, \<open>Mutex\<close>: words and outcomes; \<open>HashMap\<close> and \<open>BTreeMap\<close> behind
    the locales \<open>finite_map_contract\<close> and \<open>ordered_map_contract\<close>; \<open>Mutex\<close> and \<open>lock_recover\<close>; \<open>CacheError\<close>.
  \<^item> \<open>Arena\<close>, \<open>Arena_Links\<close>, \<open>Arena_Rep\<close>, \<open>Arena_Keys\<close>, \<open>Recency\<close>, \<open>Arena_Steps\<close>, \<open>Arena_Types\<close>: the slot
    arena with its index-linked list that \<open>lru.rs\<close>, \<open>tinylfu.rs\<close> and \<open>sized.rs\<close> share (\<open>alloc\<close>, \<open>dealloc\<close>,
    \<open>unlink\<close>, \<open>push_front\<close>, \<open>promote\<close>), its representation invariant \<open>arena_inv\<close>, the recency list it
    represents, one lemma per step, and the typing of its indices.
  \<^item> \<open>Sharding\<close>: \<open>shard_count\<close>, \<open>per_shard_capacity\<close>, \<open>Sharded\<close> and the routing of keys.
  \<^item> \<open>Cache_Contract\<close>: the trait. The locale \<open>shard_contract\<close> states what each operation of one shard
    promises over the content it represents (\<open>storing_contract\<close> adds that an insert is never refused),
    and the same laws follow, once, for the cache of shards, for its \<open>is_empty\<close> and for any sequence of
    calls. It is interpreted on the model of each sharded cache.
  \<^item> \<open>Lru\<close>; \<open>Lfu\<close>, \<open>Lfu_Policy\<close>, \<open>Lfu_Cache\<close>; \<open>Ttl\<close>, \<open>Ttl_Policy\<close>, \<open>Ttl_Cache\<close>; \<open>Tinylfu\<close>,
    \<open>Tinylfu_Policy\<close>, \<open>Tinylfu_Cache\<close>: the methods of \<open>lru.rs\<close>, \<open>lfu.rs\<close>, \<open>ttl.rs\<close> and \<open>tinylfu.rs\<close>
    (\<open><cache>_<method>_inner\<close> is the body under the lock, \<open><cache>_<method>\<close> the method), an abstract
    policy (recency lists; access counts and times; values with deadlines; recency list and estimates),
    the refinement of the policy by the bodies, and what any client of the cache can rely on.
  \<^item> \<open>Sketch\<close>, \<open>Sketch_Counts\<close>: \<open>CountMinSketch\<close> of \<open>tinylfu.rs\<close>, and its estimates against exact counts.
  \<^item> \<open>Sized\<close>, \<open>Sized_Policy\<close>, \<open>Sized_Safety\<close>, \<open>Sized_Cache\<close>, \<open>Sized_Clients\<close>: \<open>sized.rs\<close>, its weight budget
    policy where the code implements it, the clients for which it always does, the invariant that survives
    where it does not (total weight within the budget, one possible panic), and the faulty update.
  \<^item> \<open>Small_Caches\<close>: below 32 entries the policies hold for the whole cache.
  \<^item> \<open>User_Panics\<close>, \<open>Key_Panics\<close>, \<open>Broken_Runs\<close>: \<open>Clone\<close> of values, and \<open>Clone\<close>, \<open>Hash\<close> and \<open>Eq\<close> of keys, panicking
    under the lock: the bodies with every such call written out, the calls where a panic is harmless
    (\<open>up_to_panic\<close>: the body does what it always does, or stops in a well-formed shard), and runs that show what
    happens at the others.
  \<^item> \<open>Interleaving\<close>, \<open>Schedules\<close>, \<open>Concurrent\<close>: threads as a step relation with one critical section per
    step, histories and their legality, termination of every schedule; the locale \<open>atomic_contract\<close> of a
    shared shard and its consequences for every schedule (\<open>atomic_shard\<close> extends \<open>shard_contract\<close> and is
    a sublocale of it); the interpretations on the four sharded caches.
  \<^item> \<open>Locking\<close>, \<open>Lock_Safety\<close>: the level below. Taking the lock, changing the shard in place and releasing
    the lock are separate steps; mutual exclusion, a simulation of every such run by a run of atomic
    sections, and progress: threads on a shared cache neither deadlock nor run forever.
  \<^item> this theory: what holds across the caches.

  \<^bold>\<open>Bounds.\<close> The LFU policy is exact until a shard's clock takes its last value, hence for any client that
  makes fewer than 2^64 - 1 calls and any run of fewer than 2^64 critical sections. A per-shard capacity
  is below 2^60, so the sizes of a sketch do not saturate. The weight budget policy is stated for budgets
  below 2^63, where the saturating sums are exact; the safety of \<open>SizedCache\<close> needs no such bound.

  \<^bold>\<open>Parameters.\<close> \<open>hashing\<close> stands for \<open>Hash\<close> and \<open>DefaultHasher\<close>: any function of the bytes fed to it. For
  \<open>TtlCache\<close> every reading of \<open>Instant::now()\<close> is an argument, in no particular order, and \<open>ttl_env\<close> holds
  the largest \<open>Instant\<close> and the order in which \<open>HashMap::iter\<close> visits the bindings, of which
  \<open>visits_all\<close> says what is documented. The weigher of \<open>SizedCache\<close> is a total function of the value; it
  runs before the lock is taken, so a panic in it touches nothing.

  \<^bold>\<open>Where the code falls short.\<close> A live update of \<open>SizedCache\<close> that overshoots the budget strands the keys
  it evicts (\<open>sized_overshoot_strands_keys\<close>, \<open>sized_stranded_key_serves_other_value\<close>); a panicking \<open>Clone\<close>
  of the value or the key in \<open>LfuCache::get\<close> breaks the capacity bound for good, and so does, in every cache but
  \<open>TtlCache\<close>, a panicking \<open>Hash\<close> in the middle of an insert (\<open>lfu_clone_panic_exceeds_capacity\<close>,
  \<open>hash_panics_break_bounds\<close>).

  \<^bold>\<open>Not modelled.\<close> \<open>lib.rs\<close> holds only module declarations, re-exports and documentation; tests and
  benchmarks are not part of the library. Left out of the modelled functions: the capacity hints of
  \<open>Vec::with_capacity\<close> and \<open>HashMap::with_capacity\<close>, memory allocation and its failure, and the destructors
  of keys and values. A \<open>Hash\<close> that panics while a \<open>HashMap\<close> grows is left out as well: a panic in a call of
  \<open>HashMap\<close> leaves the map as it was. The memory model is sequentially consistent; that a critical section is
  atomic is proved from the lock discipline (\<open>locks_make_sections_atomic\<close>), where waiting for a lock is a
  step that is not enabled. Code outside of the sections touches no shared state.
\<close>

subsection \<open>Properties across the caches\<close>

lemma locked_gets: "locked (gets g) m = (Done (g (content m)), m)"
  by (cases m) (simp add: locked_def)

lemma with_shard_gets: "snd (with_shard H k (gets g) sh) = sh"
  by (simp add: with_shard_def Let_def locked_gets)

lemma each_mutex_gets: "each_mutex (gets g) ms = (Done (map (\<lambda>m. g (content m)) ms), ms)"
proof (induction ms)
  case (Cons m ms)
  show ?case unfolding each_mutex.simps locked_gets Cons by simp
qed simp

lemma each_shard_gets: "each_shard (gets g) sh = (Done (map (\<lambda>m. g (content m)) (shards sh)), sh)"
  by (simp add: each_shard_def each_mutex_gets)

lemma on_shards_same: "snd (f (sharded_inner c)) = sharded_inner c \<Longrightarrow> snd (on_shards f c) = c"
  by (auto simp: on_shards_def split: prod.split)

text \<open>
  \<^bold>\<open>C39.\<close> \<open>contains_key\<close> and \<open>len\<close> are queries. On \<open>LruCache\<close>, \<open>LfuCache\<close>, \<open>TinyLfuCache\<close> and
  \<open>SizedCache\<close> they leave the whole cache as it is, in any state: no eviction order, count, age, sketch
  or poison flag changes.
\<close>

theorem queries_change_nothing:
  "snd (lru_contains_key H k c) = c \<and> snd (lru_len c) = c \<and>
   snd (lfu_contains_key H k d) = d \<and> snd (lfu_len d) = d \<and>
   snd (tlfu_contains_key H k e) = e \<and> snd (tlfu_len e) = e \<and>
   snd (sized_contains_key k b) = b \<and> snd (sized_len b) = b"
proof -
  have shard: "snd (on_shards (with_shard H k (gets g)) c) = c" for H :: "'x hashing" and k g and c :: "'y cache"
    by (rule on_shards_same) (rule with_shard_gets)
  have all: "snd (bind_exec (on_shards (each_shard (gets g))) (\<lambda>ns. ret (sum_list ns)) c) = c"
    for g :: "'y \<Rightarrow> nat" and c :: "'y cache"
    by (simp add: bind_exec_def on_shards_def each_shard_gets)
  have inner: "snd (on_inner (gets g) b) = b" for g and b :: "('x, 'y) sized_cache"
    by (simp add: on_inner_def locked_gets)
  show ?thesis
    by (simp add: lru_contains_key_def lru_contains_inner_def lru_len_def lru_len_inner_def
        lfu_contains_key_def lfu_contains_inner_def lfu_len_def lfu_len_inner_def
        tlfu_contains_key_def tlfu_contains_inner_def tlfu_len_def tlfu_len_inner_def
        sized_contains_key_def sized_len_def shard all inner)
qed

text \<open>
  \<^bold>\<open>C38.\<close> \<open>is_empty\<close> is exact. On every well-formed cache it returns without panicking, and true exactly
  when no key is present: for \<open>TtlCache\<close>, when every entry has expired at the reading taken in its
  shard, purging what has.
\<close>

theorem is_empty_iff_no_key:
  assumes "lru_cache_inv H a" and "lfu_cache_inv H b" and "tlfu_cache_inv H c" and ttl: "ttl_cache_inv H d"
    and sized: "sized_cache_ok e"
  shows "runs_to lru_is_empty a (\<lambda>r a'. r = (lru_cache_view H a = Map.empty) \<and> lru_cache_view H a' = lru_cache_view H a) \<and>
    runs_to lfu_is_empty b (\<lambda>r b'. r = (lfu_cache_view H b = Map.empty) \<and> lfu_cache_view H b' = lfu_cache_view H b) \<and>
    runs_to tlfu_is_empty c (\<lambda>r c'. r = (tlfu_cache_view H c = Map.empty) \<and> tlfu_cache_view H c' = tlfu_cache_view H c) \<and>
    runs_to (ttl_is_empty now) d (\<lambda>r d'.
      r = (\<forall>k. live (now (shard_index H (sharded_inner d) k)) (ttl_content H d) k = None) \<and>
      ttl_content H d' \<subseteq>\<^sub>m ttl_content H d) \<and>
    sized_is_empty e = (Done (sized_entries e = []), e)"
proof (intro conjI)
  show "runs_to lru_is_empty a (\<lambda>r a'. r = (lru_cache_view H a = Map.empty) \<and> lru_cache_view H a' = lru_cache_view H a)"
    unfolding lru_is_empty_def lru_len_def by (rule lru_shard.cache_is_empty [OF assms(1)])
  show "runs_to lfu_is_empty b (\<lambda>r b'. r = (lfu_cache_view H b = Map.empty) \<and> lfu_cache_view H b' = lfu_cache_view H b)"
    unfolding lfu_is_empty_def lfu_len_def by (rule lfu_shard.cache_is_empty [OF assms(2)])
  show "runs_to tlfu_is_empty c (\<lambda>r c'. r = (tlfu_cache_view H c = Map.empty) \<and> tlfu_cache_view H c' = tlfu_cache_view H c)"
    unfolding tlfu_is_empty_def tlfu_len_def by (rule tlfu_shard.cache_is_empty [OF assms(3)])
  let ?D = "{k. live (now (shard_index H (sharded_inner d) k)) (ttl_content H d) k \<noteq> None}"
  have sub: "?D \<subseteq> dom (ttl_content H d)" by (auto simp: live_Some)
  have sh: "sharded_inv ttl_ok ttl_bound ttl_stored H
      (unat (per_shard_capacity (total_capacity d) (shard_count (total_capacity d)))) (sharded_inner d)"
    using ttl by (simp add: cache_inv_def)
  have "finite (dom (ttl_content H d))"
    unfolding cache_view_def
    by (rule finite_sharded_view [OF _ sharded_viewD(1) [OF sh]]) (simp add: dom_ttl_stored finite_dom_hm_get)
  then have "finite ?D" by (rule finite_subset [OF sub])
  moreover have "runs_to (ttl_len now) d (\<lambda>n d'. n = card ?D \<and> ttl_content H d' \<subseteq>\<^sub>m ttl_content H d)"
    by (rule runs_to_mono [OF ttl_len_cache [OF ttl]]) blast
  ultimately have "runs_to (ttl_is_empty now) d (\<lambda>r d'. r = (?D = {}) \<and> ttl_content H d' \<subseteq>\<^sub>m ttl_content H d)"
    unfolding ttl_is_empty_def by (intro is_empty_runs)
  then show "runs_to (ttl_is_empty now) d (\<lambda>r d'.
      r = (\<forall>k. live (now (shard_index H (sharded_inner d) k)) (ttl_content H d) k = None) \<and>
      ttl_content H d' \<subseteq>\<^sub>m ttl_content H d)"
    by simp
  show "sized_is_empty e = (Done (sized_entries e = []), e)"
    using sized_okD(4) [OF sized [unfolded sized_cache_ok_def]]
    by (simp add: sized_is_empty_def is_empty_of_def sized_len_def bind_exec_def on_inner_def locked_gets sized_entries_def)
qed

theorem is_empty_iff_no_key_witness:
  "runs_to lru_is_empty (lru_with_capacity 2 :: (nat, nat) lru_cache) (\<lambda>r _. r) \<and>
   runs_to (ttl_is_empty (\<lambda>_. 5)) (ttl_with_capacity 2 60 :: (nat, nat) ttl_cache) (\<lambda>r _. r)"
proof -
  obtain e :: "(nat, nat) sized_cache" where "sized_new 10 of_nat = Inr e" by (simp add: sized_new_def)
  from sized_new_ok(1) [OF this] have e: "sized_cache_ok e" .
  have lru: "lru_cache_inv sample_hashing (lru_with_capacity 2 :: (nat, nat) lru_cache)"
    "lru_cache_view sample_hashing (lru_with_capacity 2 :: (nat, nat) lru_cache) = Map.empty"
    by (rule lru_new_inv; simp)+
  have lfu: "lfu_cache_inv sample_hashing (lfu_with_capacity 2 :: (nat, nat) lfu_cache)" by (rule lfu_new_inv) simp
  have tlfu: "tlfu_cache_inv sample_hashing (tlfu_with_capacity 2 :: (nat, nat) tlfu_cache)" by (rule tlfu_new_inv) simp
  have ttl: "ttl_cache_inv sample_hashing (ttl_with_capacity 2 60 :: (nat, nat) ttl_cache)"
    "ttl_content sample_hashing (ttl_with_capacity 2 60 :: (nat, nat) ttl_cache) = Map.empty"
    by (rule ttl_new_inv; simp)+
  from is_empty_iff_no_key [OF lru(1) lfu tlfu ttl(1) e, of "\<lambda>_. 5"] show ?thesis
    by (auto simp: lru(2) ttl(2) live_def elim: runs_to_mono)
qed




end
